(* ===== verification/Prelude.thy ===== *)
theory Prelude
  imports Main "HOL-Library.Word"
begin

text \<open>
  Shared material of the development: the C integer types the sources use, the errno
  values they return, the proof collections of the development, and the lemmas on lists,
  words and arithmetic that several components need.
\<close>

unbundle bit_operations_syntax

section \<open>Integer types and error codes\<close>

type_synonym u8 = "8 word"
type_synonym u16 = "16 word"
type_synonym u32 = "32 word"
type_synonym u64 = "64 word"

abbreviation (input) EAGAIN :: int where "EAGAIN \<equiv> 11"
abbreviation (input) ENOMEM :: int where "ENOMEM \<equiv> 12"
abbreviation (input) EBUSY :: int where "EBUSY \<equiv> 16"
abbreviation (input) EINVAL :: int where "EINVAL \<equiv> 22"
abbreviation (input) ENOMSG :: int where "ENOMSG \<equiv> 80"
abbreviation (input) EMSGSIZE :: int where "EMSGSIZE \<equiv> 36"

abbreviation (input) K_NO_WAIT :: int where "K_NO_WAIT \<equiv> 0"
abbreviation (input) K_FOREVER :: int where "K_FOREVER \<equiv> -1"

named_theorems kernel_simps \<open>unfolding rules for the kernel's small inline operations\<close>
named_theorems frame_simps \<open>fields an operation leaves unchanged\<close>
named_theorems inv_intros \<open>preservation of invariants by operations\<close>

section \<open>Lists\<close>

lemma hd_append_singleton [simp]: "hd (xs @ [x]) = (if xs = [] then x else hd xs)"
  by (cases xs) auto

lemma distinct_remove1_set [simp]: "distinct xs \<Longrightarrow> set (remove1 x xs) = set xs - {x}"
  by (induction xs) auto

lemma remove1_notin [simp]: "x \<notin> set xs \<Longrightarrow> remove1 x xs = xs"
  by (induction xs) auto

lemma remove1_middle: "x \<notin> set as \<Longrightarrow> remove1 x (as @ x # bs) = as @ bs"
  by (induction as) auto

section \<open>Words\<close>

lemma all_less_8: "(\<forall>n<8. P n) \<longleftrightarrow> P 0 \<and> P 1 \<and> P 2 \<and> P 3 \<and> P 4 \<and> P 5 \<and> P 6 \<and> P (7::nat)"
  by (simp add: numeral_eq_Suc All_less_Suc conj_ac)

lemma u8_eq_0_iff_bits: "(w :: u8) = 0 \<longleftrightarrow> (\<forall>n<8. \<not> bit w n)"
proof
  assume none: "\<forall>n<8. \<not> bit w n"
  show "w = 0"
    by (rule bit_word_eqI) (use none in simp)
qed simp

lemma u8_and_lit [simp]:
  "(w :: u8) AND 0x01 = 0 \<longleftrightarrow> \<not> bit w 0"
  "w AND 0x02 = 0 \<longleftrightarrow> \<not> bit w 1"
  "w AND 0x04 = 0 \<longleftrightarrow> \<not> bit w 2"
  "w AND 0x08 = 0 \<longleftrightarrow> \<not> bit w 3"
  "w AND 0x10 = 0 \<longleftrightarrow> \<not> bit w 4"
  "w AND 0x20 = 0 \<longleftrightarrow> \<not> bit w 5"
  using and_exp_eq_0_iff_not_bit [of w 0] and_exp_eq_0_iff_not_bit [of w 1]
    and_exp_eq_0_iff_not_bit [of w 2] and_exp_eq_0_iff_not_bit [of w 3]
    and_exp_eq_0_iff_not_bit [of w 4] and_exp_eq_0_iff_not_bit [of w 5]
  by simp_all

lemma u8_and_0x1f [simp]:
  "(w :: u8) AND 0x1f = 0 \<longleftrightarrow>
     \<not> bit w 0 \<and> \<not> bit w 1 \<and> \<not> bit w 2 \<and> \<not> bit w 3 \<and> \<not> bit w 4"
  unfolding u8_eq_0_iff_bits all_less_8 bit_and_iff by simp

section \<open>Unsigned counters\<close>

lemma unat_of_nat_le:
  fixes w :: "'a::len word"
  assumes "n \<le> unat w"
  shows "unat (of_nat n :: 'a word) = n"
proof -
  have "n < 2 ^ LENGTH('a)"
    using assms unsigned_less [of w, where 'a = nat] by (rule le_less_trans)
  then show ?thesis
    by (simp add: unsigned_of_nat take_bit_nat_eq_self)
qed

lemma unat_succ_less:
  fixes w v :: "'a::len word"
  assumes "unat w < unat v"
  shows "unat (w + 1) = Suc (unat w)"
proof -
  have "Suc (unat w) < 2 ^ LENGTH('a)"
    using assms unsigned_less [of v, where 'a = nat] by linarith
  then show ?thesis
    by (simp add: unat_word_ariths)
qed

lemma unat_pred:
  fixes w :: "'a::len word"
  assumes "0 < unat w"
  shows "unat (w - 1) = unat w - 1"
proof -
  have "1 \<le> w"
    using assms by (simp add: word_le_nat_alt Suc_le_eq)
  then show ?thesis
    by (simp add: unat_sub)
qed

end
