(* ===== verification/Kernel_State.thy ===== *)
theory Kernel_State
  imports Prelude
begin

text \<open>
  The kernel's data: \<open>struct _timeout\<close>, \<open>struct _thread_base\<close>, \<open>struct k_timer\<close>,
  \<open>struct _ready_q\<close> and \<open>struct _kernel\<close> (include/kernel.h,
  kernel/include/kernel_structs.h), and the globals of kernel/sys_clock.c.

  Threads, wait queues and timers are named by their addresses (natural numbers). A
  timeout is embedded either in a thread or in a timer, and is named by its container.
  The doubly-linked lists of the kernel are HOL lists of the addresses they link: theory
  Dlist_Links proves that the pointer operations of include/misc/dlist.h implement the list
  operations used here.

  Configuration: the Kconfig defaults of kernel/Kconfig (16 cooperative and 15
  preemptible priorities, priority ceiling 0, time slicing on, no polling), a ticking
  (not tickless) clock, and 500 ticks per second (ext/actions/Kconfig.defconfig).
\<close>

type_synonym tid = nat
type_synonym wqid = nat
type_synonym timer_id = nat
type_synonym fn_ptr = nat

abbreviation (input) NUM_COOP_PRIO :: int where "NUM_COOP_PRIO \<equiv> 16"
abbreviation (input) K_LOWEST_THREAD_PRIO :: int where "K_LOWEST_THREAD_PRIO \<equiv> 15"
abbreviation (input) K_HIGHEST_THREAD_PRIO :: int where "K_HIGHEST_THREAD_PRIO \<equiv> -16"
abbreviation (input) PRIORITY_CEILING :: int where "PRIORITY_CEILING \<equiv> 0"
abbreviation (input) MS_PER_TICK :: int where "MS_PER_TICK \<equiv> 2"
abbreviation (input) TICK_ALIGN :: int where "TICK_ALIGN \<equiv> 1"

abbreviation (input) INACTIVE :: int where "INACTIVE \<equiv> -1"
abbreviation (input) EXPIRED :: int where "EXPIRED \<equiv> -2"

section \<open>Data structures\<close>

datatype toid = TThread tid | TTimer timer_id

record timeout =
  to_thread :: "tid option"
  to_wait_q :: "wqid option"
  delta_ticks_from_prev :: int
  to_func :: "fn_ptr option"

record thread_base =
  user_options :: u8
  thread_state :: u8
  prio :: int
  sched_locked :: u8
  swap_data :: u32
  return_value :: int

record k_timer =
  timer_wait_q :: wqid
  expiry_fn :: "fn_ptr option"
  stop_fn :: "fn_ptr option"
  period :: int
  status :: u32
  user_data :: u32

record kernel =
  nested :: nat
  current :: tid
  idle_thread :: tid
  threads :: "tid \<Rightarrow> thread_base"
  timeouts :: "toid \<Rightarrow> timeout"
  timers :: "timer_id \<Rightarrow> k_timer"
  timeout_q :: "toid list"
  cache :: tid
  prio_bmap :: u32
  rq :: "nat \<Rightarrow> tid list"
  wait_qs :: "wqid \<Rightarrow> tid list"
  handling_timeouts :: bool
  time_slice_elapsed :: int
  time_slice_duration :: int
  time_slice_prio_ceiling :: int
  sys_clock_tick_count :: u64
  fault :: bool

text \<open>
  \<open>fault\<close> is set when an \<open>__ASSERT\<close> of the source fails (the products build with
  CONFIG_ASSERT), or when the code follows a pointer out of the structure modelled here.
\<close>

section \<open>Field updates\<close>

definition upd_thread :: "tid \<Rightarrow> (thread_base \<Rightarrow> thread_base) \<Rightarrow> kernel \<Rightarrow> kernel" where
  "upd_thread t f s = s\<lparr>threads := (threads s)(t := f (threads s t))\<rparr>"

definition upd_timeout :: "toid \<Rightarrow> (timeout \<Rightarrow> timeout) \<Rightarrow> kernel \<Rightarrow> kernel" where
  "upd_timeout x f s = s\<lparr>timeouts := (timeouts s)(x := f (timeouts s x))\<rparr>"

definition upd_timer :: "timer_id \<Rightarrow> (k_timer \<Rightarrow> k_timer) \<Rightarrow> kernel \<Rightarrow> kernel" where
  "upd_timer x f s = s\<lparr>timers := (timers s)(x := f (timers s x))\<rparr>"

lemma upd_thread_sel [simp]:
  "threads (upd_thread t f s) = (threads s)(t := f (threads s t))"
  "nested (upd_thread t f s) = nested s"
  "current (upd_thread t f s) = current s"
  "idle_thread (upd_thread t f s) = idle_thread s"
  "timeouts (upd_thread t f s) = timeouts s"
  "timers (upd_thread t f s) = timers s"
  "timeout_q (upd_thread t f s) = timeout_q s"
  "cache (upd_thread t f s) = cache s"
  "prio_bmap (upd_thread t f s) = prio_bmap s"
  "rq (upd_thread t f s) = rq s"
  "wait_qs (upd_thread t f s) = wait_qs s"
  "handling_timeouts (upd_thread t f s) = handling_timeouts s"
  "time_slice_elapsed (upd_thread t f s) = time_slice_elapsed s"
  "time_slice_duration (upd_thread t f s) = time_slice_duration s"
  "time_slice_prio_ceiling (upd_thread t f s) = time_slice_prio_ceiling s"
  "sys_clock_tick_count (upd_thread t f s) = sys_clock_tick_count s"
  "fault (upd_thread t f s) = fault s"
  by (simp_all add: upd_thread_def)

lemma upd_timeout_sel [simp]:
  "timeouts (upd_timeout x g s) = (timeouts s)(x := g (timeouts s x))"
  "nested (upd_timeout x g s) = nested s"
  "current (upd_timeout x g s) = current s"
  "idle_thread (upd_timeout x g s) = idle_thread s"
  "threads (upd_timeout x g s) = threads s"
  "timers (upd_timeout x g s) = timers s"
  "timeout_q (upd_timeout x g s) = timeout_q s"
  "cache (upd_timeout x g s) = cache s"
  "prio_bmap (upd_timeout x g s) = prio_bmap s"
  "rq (upd_timeout x g s) = rq s"
  "wait_qs (upd_timeout x g s) = wait_qs s"
  "handling_timeouts (upd_timeout x g s) = handling_timeouts s"
  "time_slice_elapsed (upd_timeout x g s) = time_slice_elapsed s"
  "time_slice_duration (upd_timeout x g s) = time_slice_duration s"
  "time_slice_prio_ceiling (upd_timeout x g s) = time_slice_prio_ceiling s"
  "sys_clock_tick_count (upd_timeout x g s) = sys_clock_tick_count s"
  "fault (upd_timeout x g s) = fault s"
  by (simp_all add: upd_timeout_def)

lemma upd_timer_sel [simp]:
  "timers (upd_timer i h s) = (timers s)(i := h (timers s i))"
  "nested (upd_timer i h s) = nested s"
  "current (upd_timer i h s) = current s"
  "idle_thread (upd_timer i h s) = idle_thread s"
  "threads (upd_timer i h s) = threads s"
  "timeouts (upd_timer i h s) = timeouts s"
  "timeout_q (upd_timer i h s) = timeout_q s"
  "cache (upd_timer i h s) = cache s"
  "prio_bmap (upd_timer i h s) = prio_bmap s"
  "rq (upd_timer i h s) = rq s"
  "wait_qs (upd_timer i h s) = wait_qs s"
  "handling_timeouts (upd_timer i h s) = handling_timeouts s"
  "time_slice_elapsed (upd_timer i h s) = time_slice_elapsed s"
  "time_slice_duration (upd_timer i h s) = time_slice_duration s"
  "time_slice_prio_ceiling (upd_timer i h s) = time_slice_prio_ceiling s"
  "sys_clock_tick_count (upd_timer i h s) = sys_clock_tick_count s"
  "fault (upd_timer i h s) = fault s"
  by (simp_all add: upd_timer_def)

definition kassert :: "bool \<Rightarrow> kernel \<Rightarrow> kernel" where
  "kassert c s = (if c then s else s\<lparr>fault := True\<rparr>)"

lemma kassert_sel [simp]:
  "threads (kassert c s) = threads s"
  "nested (kassert c s) = nested s"
  "current (kassert c s) = current s"
  "idle_thread (kassert c s) = idle_thread s"
  "timeouts (kassert c s) = timeouts s"
  "timers (kassert c s) = timers s"
  "timeout_q (kassert c s) = timeout_q s"
  "cache (kassert c s) = cache s"
  "prio_bmap (kassert c s) = prio_bmap s"
  "rq (kassert c s) = rq s"
  "wait_qs (kassert c s) = wait_qs s"
  "handling_timeouts (kassert c s) = handling_timeouts s"
  "time_slice_elapsed (kassert c s) = time_slice_elapsed s"
  "time_slice_duration (kassert c s) = time_slice_duration s"
  "time_slice_prio_ceiling (kassert c s) = time_slice_prio_ceiling s"
  "sys_clock_tick_count (kassert c s) = sys_clock_tick_count s"
  "fault (kassert c s) \<longleftrightarrow> fault s \<or> \<not> c"
  by (simp_all add: kassert_def)

lemma kassert_True [simp]: "c \<Longrightarrow> kassert c s = s"
  by (simp add: kassert_def)

section \<open>Concrete states\<close>

text \<open>
  A freshly booted kernel for concrete examples: the idle thread (address 0) at the
  lowest priority and the main thread (address 1) at priority 0 are ready and the main
  thread runs. All other thread objects are in the pre-start state.
\<close>

definition thread0 :: thread_base where
  "thread0 = \<lparr>user_options = 0, thread_state = 4, prio = 0, sched_locked = 0,
              swap_data = 0, return_value = 0\<rparr>"

definition timeout0 :: timeout where
  "timeout0 = \<lparr>to_thread = None, to_wait_q = None, delta_ticks_from_prev = INACTIVE,
               to_func = None\<rparr>"

definition timer0 :: k_timer where
  "timer0 = \<lparr>timer_wait_q = 0, expiry_fn = None, stop_fn = None, period = 0,
             status = 0, user_data = 0\<rparr>"

definition boot :: kernel where
  "boot = \<lparr>nested = 0, current = 1, idle_thread = 0,
     threads = (\<lambda>_. thread0)(0 := thread0\<lparr>prio := 15, thread_state := 0\<rparr>,
                             1 := thread0\<lparr>thread_state := 0\<rparr>),
     timeouts = (\<lambda>_. timeout0), timers = (\<lambda>_. timer0), timeout_q = [],
     cache = 1, prio_bmap = 0x80010000, rq = (\<lambda>_. [])(16 := [1], 31 := [0]),
     wait_qs = (\<lambda>_. []), handling_timeouts = False, time_slice_elapsed = 0,
     time_slice_duration = 0, time_slice_prio_ceiling = 0, sys_clock_tick_count = 0, fault = False\<rparr>"

end
