(* ===== verification/Sched.thy ===== *)
theory Sched
  imports Kernel_State
begin

text \<open>
  The scheduler: the inline functions of kernel/include/ksched.h and the ready queue of
  kernel/sched.c. The ready queue is one list per priority, a bitmap of the non-empty
  lists and a cache of the next thread to run. The theory states the invariant that ties
  them together (\<open>rq_inv\<close>), proves that every operation keeps it, and concludes that
  the cache is always the first thread of the highest non-empty priority.
\<close>

section \<open>Priorities\<close>

definition is_prio1_higher_than_or_equal_to_prio2 :: "int \<Rightarrow> int \<Rightarrow> bool" where
  [kernel_simps]: "is_prio1_higher_than_or_equal_to_prio2 prio1 prio2 \<longleftrightarrow> prio1 \<le> prio2"

definition is_prio_higher_or_equal :: "int \<Rightarrow> int \<Rightarrow> bool" where
  [kernel_simps]: "is_prio_higher_or_equal prio1 prio2 \<longleftrightarrow>
     is_prio1_higher_than_or_equal_to_prio2 prio1 prio2"

definition is_prio1_higher_than_prio2 :: "int \<Rightarrow> int \<Rightarrow> bool" where
  [kernel_simps]: "is_prio1_higher_than_prio2 prio1 prio2 \<longleftrightarrow> prio1 < prio2"

definition is_prio_higher :: "int \<Rightarrow> int \<Rightarrow> bool" where
  [kernel_simps]: "is_prio_higher p test_prio \<longleftrightarrow> is_prio1_higher_than_prio2 p test_prio"

definition is_prio1_lower_than_or_equal_to_prio2 :: "int \<Rightarrow> int \<Rightarrow> bool" where
  [kernel_simps]: "is_prio1_lower_than_or_equal_to_prio2 prio1 prio2 \<longleftrightarrow> prio1 \<ge> prio2"

definition is_prio_lower_or_equal :: "int \<Rightarrow> int \<Rightarrow> bool" where
  [kernel_simps]: "is_prio_lower_or_equal prio1 prio2 \<longleftrightarrow>
     is_prio1_lower_than_or_equal_to_prio2 prio1 prio2"

definition is_prio1_lower_than_prio2 :: "int \<Rightarrow> int \<Rightarrow> bool" where
  [kernel_simps]: "is_prio1_lower_than_prio2 prio1 prio2 \<longleftrightarrow> prio1 > prio2"

definition is_prio_lower :: "int \<Rightarrow> int \<Rightarrow> bool" where
  [kernel_simps]: "is_prio_lower prio1 prio2 \<longleftrightarrow> is_prio1_lower_than_prio2 prio1 prio2"

definition is_t1_higher_prio_than_t2 :: "tid \<Rightarrow> tid \<Rightarrow> kernel \<Rightarrow> bool" where
  [kernel_simps]: "is_t1_higher_prio_than_t2 t1 t2 s \<longleftrightarrow>
     is_prio1_higher_than_prio2 (prio (threads s t1)) (prio (threads s t2))"

definition is_higher_prio_than_current :: "tid \<Rightarrow> kernel \<Rightarrow> bool" where
  [kernel_simps]: "is_higher_prio_than_current t s \<longleftrightarrow> is_t1_higher_prio_than_t2 t (current s) s"

definition is_coop :: "tid \<Rightarrow> kernel \<Rightarrow> bool" where
  [kernel_simps]: "is_coop t s \<longleftrightarrow> prio (threads s t) < 0"

text \<open>
  \<open>preempt\<close> overlays \<open>prio\<close> (low byte) and \<open>sched_locked\<close> (high byte) on the
  little-endian target.
\<close>

definition preempt :: "thread_base \<Rightarrow> int" where
  "preempt b = uint (sched_locked b) * 256 + prio b mod 256"

definition is_preempt :: "tid \<Rightarrow> kernel \<Rightarrow> bool" where
  "is_preempt t s \<longleftrightarrow> preempt (threads s t) \<le> 0x80 - 1"

definition is_in_isr :: "kernel \<Rightarrow> bool" where
  [kernel_simps]: "is_in_isr s \<longleftrightarrow> nested s \<noteq> 0"

definition is_current_execution_context_preemptible :: "kernel \<Rightarrow> bool" where
  [kernel_simps]: "is_current_execution_context_preemptible s \<longleftrightarrow>
     \<not> is_in_isr s \<and> is_preempt (current s) s"

definition is_under_prio_ceiling :: "int \<Rightarrow> bool" where
  [kernel_simps]: "is_under_prio_ceiling p \<longleftrightarrow> p \<ge> PRIORITY_CEILING"

definition get_new_prio_with_ceiling :: "int \<Rightarrow> int" where
  [kernel_simps]: "get_new_prio_with_ceiling p =
     (if is_under_prio_ceiling p then p else PRIORITY_CEILING)"

section \<open>Thread states\<close>

abbreviation (input) THREAD_DUMMY :: u8 where "THREAD_DUMMY \<equiv> 0x01"
abbreviation (input) THREAD_PENDING :: u8 where "THREAD_PENDING \<equiv> 0x02"
abbreviation (input) THREAD_PRESTART :: u8 where "THREAD_PRESTART \<equiv> 0x04"
abbreviation (input) THREAD_DEAD :: u8 where "THREAD_DEAD \<equiv> 0x08"
abbreviation (input) THREAD_SUSPENDED :: u8 where "THREAD_SUSPENDED \<equiv> 0x10"
abbreviation (input) THREAD_POLLING :: u8 where "THREAD_POLLING \<equiv> 0x20"

definition set_thread_states :: "u8 \<Rightarrow> tid \<Rightarrow> kernel \<Rightarrow> kernel" where
  "set_thread_states states t = upd_thread t (\<lambda>b. b\<lparr>thread_state := thread_state b OR states\<rparr>)"

definition reset_thread_states :: "u8 \<Rightarrow> tid \<Rightarrow> kernel \<Rightarrow> kernel" where
  "reset_thread_states states t =
     upd_thread t (\<lambda>b. b\<lparr>thread_state := thread_state b AND NOT states\<rparr>)"

definition is_thread_state_set :: "u8 \<Rightarrow> tid \<Rightarrow> kernel \<Rightarrow> bool" where
  "is_thread_state_set state t s \<longleftrightarrow> thread_state (threads s t) AND state \<noteq> 0"

definition mark_thread_as_suspended :: "tid \<Rightarrow> kernel \<Rightarrow> kernel" where
  "mark_thread_as_suspended t =
     upd_thread t (\<lambda>b. b\<lparr>thread_state := thread_state b OR THREAD_SUSPENDED\<rparr>)"

definition mark_thread_as_not_suspended :: "tid \<Rightarrow> kernel \<Rightarrow> kernel" where
  "mark_thread_as_not_suspended t =
     upd_thread t (\<lambda>b. b\<lparr>thread_state := thread_state b AND NOT THREAD_SUSPENDED\<rparr>)"

definition is_thread_timeout_expired :: "tid \<Rightarrow> kernel \<Rightarrow> bool" where
  "is_thread_timeout_expired t s \<longleftrightarrow> delta_ticks_from_prev (timeouts s (TThread t)) = EXPIRED"

definition is_thread_timeout_active :: "tid \<Rightarrow> kernel \<Rightarrow> bool" where
  "is_thread_timeout_active t s \<longleftrightarrow> delta_ticks_from_prev (timeouts s (TThread t)) \<noteq> INACTIVE"

definition has_thread_started :: "tid \<Rightarrow> kernel \<Rightarrow> bool" where
  "has_thread_started t s \<longleftrightarrow> thread_state (threads s t) AND THREAD_PRESTART = 0"

definition is_thread_prevented_from_running :: "tid \<Rightarrow> kernel \<Rightarrow> bool" where
  "is_thread_prevented_from_running t s \<longleftrightarrow>
     thread_state (threads s t) AND
       (THREAD_PENDING OR THREAD_PRESTART OR THREAD_DEAD OR THREAD_DUMMY OR THREAD_SUSPENDED) \<noteq> 0"

definition is_thread_ready :: "tid \<Rightarrow> kernel \<Rightarrow> bool" where
  "is_thread_ready t s \<longleftrightarrow>
     \<not> (is_thread_prevented_from_running t s \<or> is_thread_timeout_active t s)"

definition mark_thread_as_pending :: "tid \<Rightarrow> kernel \<Rightarrow> kernel" where
  "mark_thread_as_pending t =
     upd_thread t (\<lambda>b. b\<lparr>thread_state := thread_state b OR THREAD_PENDING\<rparr>)"

definition mark_thread_as_not_pending :: "tid \<Rightarrow> kernel \<Rightarrow> kernel" where
  "mark_thread_as_not_pending t =
     upd_thread t (\<lambda>b. b\<lparr>thread_state := thread_state b AND NOT THREAD_PENDING\<rparr>)"

definition is_thread_pending :: "tid \<Rightarrow> kernel \<Rightarrow> bool" where
  "is_thread_pending t s \<longleftrightarrow> thread_state (threads s t) AND THREAD_PENDING \<noteq> 0"

definition is_thread_dummy :: "tid \<Rightarrow> kernel \<Rightarrow> bool" where
  "is_thread_dummy t s \<longleftrightarrow> is_thread_state_set THREAD_DUMMY t s"

definition mark_thread_as_polling :: "tid \<Rightarrow> kernel \<Rightarrow> kernel" where
  "mark_thread_as_polling t = set_thread_states THREAD_POLLING t"

definition mark_thread_as_not_polling :: "tid \<Rightarrow> kernel \<Rightarrow> kernel" where
  "mark_thread_as_not_polling t = reset_thread_states THREAD_POLLING t"

definition is_thread_polling :: "tid \<Rightarrow> kernel \<Rightarrow> bool" where
  "is_thread_polling t s \<longleftrightarrow> is_thread_state_set THREAD_POLLING t s"

definition mark_thread_as_started :: "tid \<Rightarrow> kernel \<Rightarrow> kernel" where
  "mark_thread_as_started t =
     upd_thread t (\<lambda>b. b\<lparr>thread_state := thread_state b AND NOT THREAD_PRESTART\<rparr>)"

definition mark_thread_as_dead :: "tid \<Rightarrow> kernel \<Rightarrow> kernel" where
  "mark_thread_as_dead t =
     upd_thread t (\<lambda>b. b\<lparr>thread_state := thread_state b OR THREAD_DEAD\<rparr>)"

section \<open>The ready queue\<close>

definition get_ready_q_prio_bit :: "int \<Rightarrow> u32" where
  "get_ready_q_prio_bit p = push_bit (nat ((p + NUM_COOP_PRIO) AND 0x1f)) 1"

definition get_ready_q_q_index :: "int \<Rightarrow> nat" where
  "get_ready_q_q_index p = nat (p + NUM_COOP_PRIO)"

text \<open>\<open>find_lsb_set\<close> is \<open>__builtin_ffs\<close>: one plus the index of the least set bit, or 0.\<close>

definition find_lsb_set :: "u32 \<Rightarrow> nat" where
  "find_lsb_set w = (case find (\<lambda>i. bit w i) [0..<32] of None \<Rightarrow> 0 | Some i \<Rightarrow> Suc i)"

definition get_highest_ready_prio :: "kernel \<Rightarrow> int" where
  "get_highest_ready_prio s =
     (let abs_prio = int (find_lsb_set (prio_bmap s)) - 1 in abs_prio - NUM_COOP_PRIO)"

definition get_next_ready_thread :: "kernel \<Rightarrow> tid" where
  "get_next_ready_thread s = cache s"

definition set_ready_q_prio_bit :: "int \<Rightarrow> kernel \<Rightarrow> kernel" where
  "set_ready_q_prio_bit p s = s\<lparr>prio_bmap := prio_bmap s OR get_ready_q_prio_bit p\<rparr>"

definition clear_ready_q_prio_bit :: "int \<Rightarrow> kernel \<Rightarrow> kernel" where
  "clear_ready_q_prio_bit p s = s\<lparr>prio_bmap := prio_bmap s AND NOT (get_ready_q_prio_bit p)\<rparr>"

text \<open>
  The list a thread's \<open>k_q_node\<close> is on is implicit in the node; removing the node takes
  the thread off the ready or wait queue that holds it.
\<close>

definition dlist_remove_k_q_node :: "tid \<Rightarrow> kernel \<Rightarrow> kernel" where
  "dlist_remove_k_q_node t s =
     s\<lparr>rq := (\<lambda>i. remove1 t (rq s i)), wait_qs := (\<lambda>w. remove1 t (wait_qs s w))\<rparr>"

definition get_ready_q_head :: "kernel \<Rightarrow> tid" where
  "get_ready_q_head s =
     (let p = get_highest_ready_prio s; q_index = get_ready_q_q_index p in hd (rq s q_index))"

definition add_thread_to_ready_q :: "tid \<Rightarrow> kernel \<Rightarrow> kernel" where
  "add_thread_to_ready_q t s =
     (let q_index = get_ready_q_q_index (prio (threads s t));
          s = set_ready_q_prio_bit (prio (threads s t)) s;
          s = s\<lparr>rq := (rq s)(q_index := rq s q_index @ [t])\<rparr>
      in s\<lparr>cache := if is_t1_higher_prio_than_t2 t (cache s) s then t else cache s\<rparr>)"

text \<open>The refill of the cache, with the assertion of \<open>_get_ready_q_head\<close>.\<close>

definition refill_cache :: "tid \<Rightarrow> kernel \<Rightarrow> kernel" where
  "refill_cache t s =
     (if cache s = t then
        let s = kassert (rq s (get_ready_q_q_index (get_highest_ready_prio s)) \<noteq> []) s
        in s\<lparr>cache := get_ready_q_head s\<rparr>
      else s)"

definition remove_thread_from_ready_q :: "tid \<Rightarrow> kernel \<Rightarrow> kernel" where
  "remove_thread_from_ready_q t s =
     (let q_index = get_ready_q_q_index (prio (threads s t));
          s = dlist_remove_k_q_node t s;
          s = (if rq s q_index = [] then clear_ready_q_prio_bit (prio (threads s t)) s else s)
      in refill_cache t s)"

definition move_thread_to_end_of_prio_q :: "tid \<Rightarrow> kernel \<Rightarrow> kernel" where
  "move_thread_to_end_of_prio_q t s =
     (let q_index = get_ready_q_q_index (prio (threads s t)) in
      if rq s q_index \<noteq> [] \<and> last (rq s q_index) = t then s
      else
        let s = dlist_remove_k_q_node t s;
            s = s\<lparr>rq := (rq s)(q_index := rq s q_index @ [t])\<rparr>
        in refill_cache t s)"

definition ready_thread :: "tid \<Rightarrow> kernel \<Rightarrow> kernel" where
  "ready_thread t s =
     (let p = prio (threads s t);
          s = kassert (is_prio_higher p K_LOWEST_THREAD_PRIO \<or>
                       p = K_LOWEST_THREAD_PRIO \<and> t = idle_thread s) s;
          s = kassert (\<not> is_prio_higher p K_HIGHEST_THREAD_PRIO) s;
          s = mark_thread_as_started t s
      in if is_thread_ready t s then add_thread_to_ready_q t s else s)"

definition thread_priority_set :: "tid \<Rightarrow> int \<Rightarrow> kernel \<Rightarrow> kernel" where
  "thread_priority_set t p s =
     (if is_thread_ready t s then
        add_thread_to_ready_q t
          (upd_thread t (\<lambda>b. b\<lparr>prio := p\<rparr>) (remove_thread_from_ready_q t s))
      else upd_thread t (\<lambda>b. b\<lparr>prio := p\<rparr>) s)"

section \<open>Context switches and scheduler locking\<close>

definition must_switch_threads_raw :: "kernel \<Rightarrow> bool" where
  "must_switch_threads_raw s \<longleftrightarrow>
     is_prio_higher (get_highest_ready_prio s) (prio (threads s (current s)))"

definition must_switch_threads :: "kernel \<Rightarrow> bool" where
  "must_switch_threads s \<longleftrightarrow> is_preempt (current s) s \<and> must_switch_threads_raw s"

definition set_thread_return_value :: "tid \<Rightarrow> int \<Rightarrow> kernel \<Rightarrow> kernel" where
  "set_thread_return_value t v = upd_thread t (\<lambda>b. b\<lparr>return_value := v\<rparr>)"

definition set_thread_return_value_with_data :: "tid \<Rightarrow> int \<Rightarrow> u32 \<Rightarrow> kernel \<Rightarrow> kernel" where
  "set_thread_return_value_with_data t v d s =
     upd_thread t (\<lambda>b. b\<lparr>swap_data := d\<rparr>) (set_thread_return_value t v s)"

text \<open>
  \<open>_Swap\<close> restarts the time slice, presets the outgoing thread's return value to
  \<open>-EAGAIN\<close> (arch/mips/core/swap.S) and enters the syscall exception, which makes the
  cached thread current. What the outgoing thread's \<open>_Swap\<close> returns when it runs again
  is its \<open>return_value\<close> at that time.
\<close>

definition update_time_slice_before_swap :: "kernel \<Rightarrow> kernel" where
  "update_time_slice_before_swap s = s\<lparr>time_slice_elapsed := 0\<rparr>"

definition enter_syscall_exception :: "kernel \<Rightarrow> kernel" where
  "enter_syscall_exception s = s\<lparr>current := cache s\<rparr>"

definition Swap :: "kernel \<Rightarrow> kernel" where
  "Swap s =
     (let s = update_time_slice_before_swap s;
          s = set_thread_return_value (current s) (- EAGAIN) s
      in enter_syscall_exception s)"

definition reschedule_threads :: "kernel \<Rightarrow> kernel" where
  "reschedule_threads s = (if must_switch_threads s then Swap s else s)"

definition sched_lock_internal :: "kernel \<Rightarrow> kernel" where
  "sched_lock_internal s =
     (let s = kassert (\<not> is_in_isr s) s;
          s = kassert (sched_locked (threads s (current s)) \<noteq> 1) s
      in upd_thread (current s) (\<lambda>b. b\<lparr>sched_locked := sched_locked b - 1\<rparr>) s)"

definition sched_unlock_no_reschedule :: "kernel \<Rightarrow> kernel" where
  "sched_unlock_no_reschedule s =
     (let s = kassert (\<not> is_in_isr s) s;
          s = kassert (sched_locked (threads s (current s)) \<noteq> 0) s
      in upd_thread (current s) (\<lambda>b. b\<lparr>sched_locked := sched_locked b + 1\<rparr>) s)"

definition k_sched_lock :: "kernel \<Rightarrow> kernel" where
  "k_sched_lock s =
     (if is_in_isr s then s
      else upd_thread (current s) (\<lambda>b. b\<lparr>sched_locked := sched_locked b - 1\<rparr>) s)"

definition k_sched_unlock :: "kernel \<Rightarrow> kernel" where
  "k_sched_unlock s =
     (if is_in_isr s then s
      else reschedule_threads
             (upd_thread (current s) (\<lambda>b. b\<lparr>sched_locked := sched_locked b + 1\<rparr>) s))"

definition k_thread_priority_get :: "tid \<Rightarrow> kernel \<Rightarrow> int" where
  "k_thread_priority_get t s = prio (threads s t)"

definition k_thread_priority_set :: "tid \<Rightarrow> int \<Rightarrow> kernel \<Rightarrow> kernel" where
  "k_thread_priority_set t p s =
     (let s = kassert (is_prio_higher_or_equal p (K_LOWEST_THREAD_PRIO - 1) \<and>
                       is_prio_lower_or_equal p K_HIGHEST_THREAD_PRIO) s;
          s = kassert (\<not> is_in_isr s) s
      in reschedule_threads (thread_priority_set t p s))"

definition k_yield :: "kernel \<Rightarrow> kernel" where
  "k_yield s =
     (let s = kassert (\<not> is_in_isr s) s;
          s = move_thread_to_end_of_prio_q (current s) s
      in if current s = get_next_ready_thread s then s else Swap s)"

definition k_current_get :: "kernel \<Rightarrow> tid" where
  "k_current_get s = current s"

definition k_is_preempt_thread :: "kernel \<Rightarrow> bool" where
  "k_is_preempt_thread s \<longleftrightarrow> \<not> is_in_isr s \<and> is_preempt (current s) s"

text \<open>The exit of a non-nested interrupt (arch/mips/core/except_manage.c).\<close>

definition enter_interrupt_exception :: "(kernel \<Rightarrow> kernel) \<Rightarrow> kernel \<Rightarrow> kernel" where
  "enter_interrupt_exception enter_irq s =
     (let s = enter_irq s in
      if nested s = 0 \<and> preempt (threads s (current s)) < 0x80 \<and> cache s \<noteq> current s
      then s\<lparr>current := cache s\<rparr> else s)"

section \<open>Time slicing\<close>

definition k_sched_time_slice_set :: "int \<Rightarrow> int \<Rightarrow> kernel \<Rightarrow> kernel" where
  "k_sched_time_slice_set duration_in_ms p s =
     (let s = kassert (duration_in_ms \<ge> 0) s;
          s = kassert (p \<ge> 0 \<and> p < K_LOWEST_THREAD_PRIO) s
      in s\<lparr>time_slice_duration := duration_in_ms, time_slice_elapsed := 0,
           time_slice_prio_ceiling := p\<rparr>)"

definition is_thread_time_slicing :: "tid \<Rightarrow> kernel \<Rightarrow> bool" where
  "is_thread_time_slicing t s \<longleftrightarrow>
     (if \<not> time_slice_duration s > 0 \<or> t = idle_thread s \<or>
         is_prio_higher (prio (threads s t)) (time_slice_prio_ceiling s)
      then False
      else length (rq s (get_ready_q_q_index (prio (threads s t)))) > 1)"


section \<open>Bit-level facts\<close>

lemma is_thread_pending_bit: "is_thread_pending t s \<longleftrightarrow> bit (thread_state (threads s t)) 1"
  by (simp add: is_thread_pending_def)

definition runnable_state :: "u8 \<Rightarrow> bool" where
  "runnable_state w \<longleftrightarrow> \<not> bit w 0 \<and> \<not> bit w 1 \<and> \<not> bit w 2 \<and> \<not> bit w 3 \<and> \<not> bit w 4"

lemma is_thread_ready_bits:
  "is_thread_ready t s \<longleftrightarrow>
     runnable_state (thread_state (threads s t)) \<and>
     delta_ticks_from_prev (timeouts s (TThread t)) = INACTIVE"
  by (auto simp: is_thread_ready_def is_thread_prevented_from_running_def
      is_thread_timeout_active_def runnable_state_def)

lemma runnable_state_upd [simp]:
  "\<not> runnable_state (w OR THREAD_PENDING)"
  "\<not> runnable_state (w OR THREAD_DEAD)"
  "\<not> runnable_state (w OR THREAD_SUSPENDED)"
  "runnable_state w \<Longrightarrow> runnable_state (w AND NOT THREAD_PRESTART)"
  by (simp_all add: runnable_state_def bit_or_iff bit_and_iff)

lemma and_not_prestart_id [simp]:
  "runnable_state w \<Longrightarrow> w AND NOT THREAD_PRESTART = w"
proof (rule bit_word_eqI)
  fix n
  assume "runnable_state w" and "n < LENGTH(8)"
  moreover have "bit (THREAD_PRESTART :: u8) n \<longleftrightarrow> n = 2"
    using bit_exp_iff [of 2 n, where 'a = u8] by auto
  ultimately show "bit (w AND NOT THREAD_PRESTART) n \<longleftrightarrow> bit w n"
    unfolding bit_and_iff bit_not_iff by (auto simp: runnable_state_def)
qed

lemma is_preempt_iff:
  assumes "-128 \<le> prio (threads s t)" and "prio (threads s t) < 128"
  shows "is_preempt t s \<longleftrightarrow> sched_locked (threads s t) = 0 \<and> 0 \<le> prio (threads s t)"
proof -
  define l where "l = uint (sched_locked (threads s t))"
  have l: "0 \<le> l" "sched_locked (threads s t) = 0 \<longleftrightarrow> l = 0"
    by (simp_all add: l_def uint_0_iff)
  show ?thesis
  proof (cases "0 \<le> prio (threads s t)")
    case True
    then have "prio (threads s t) mod 256 = prio (threads s t)"
      using assms by (intro mod_pos_pos_trivial) auto
    with True l assms show ?thesis
      by (auto simp: is_preempt_def preempt_def l_def [symmetric])
  next
    case False
    then have "prio (threads s t) mod 256 = prio (threads s t) + 256"
      using assms mod_pos_pos_trivial [of "prio (threads s t) + 256" 256] by simp
    with False l assms show ?thesis
      by (auto simp: is_preempt_def preempt_def l_def [symmetric])
  qed
qed

lemma bit_get_ready_q_prio_bit:
  assumes "K_HIGHEST_THREAD_PRIO \<le> p" and "p \<le> K_LOWEST_THREAD_PRIO"
  shows "bit (get_ready_q_prio_bit p) i \<longleftrightarrow> i = get_ready_q_q_index p"
proof -
  have "(p + NUM_COOP_PRIO) AND 0x1f = (p + NUM_COOP_PRIO) mod 32"
    using take_bit_eq_mask [of 5 "p + NUM_COOP_PRIO"] take_bit_eq_mod [of 5 "p + NUM_COOP_PRIO"]
    by (simp add: mask_eq_exp_minus_1)
  moreover have "(p + NUM_COOP_PRIO) mod 32 = p + NUM_COOP_PRIO"
    using assms by (intro mod_pos_pos_trivial) auto
  moreover have "nat (p + NUM_COOP_PRIO) < 32"
    using assms by auto
  ultimately show ?thesis
    by (auto simp: get_ready_q_prio_bit_def get_ready_q_q_index_def bit_exp_iff)
qed

lemma find_lsb_set_eqI:
  assumes "bit w i" and "\<And>j. j < i \<Longrightarrow> \<not> bit w j"
  shows "find_lsb_set w = Suc i"
proof -
  have "i < 32"
    using bit_imp_le_length [OF assms(1)] by simp
  then have "find (\<lambda>i. bit w i) [0..<32] = Some i"
    using assms by (auto simp: find_Some_iff intro!: exI [of _ i])
  then show ?thesis
    by (simp add: find_lsb_set_def)
qed


section \<open>The ready-queue invariant\<close>

text \<open>
  \<open>rq_inv X s\<close>: the lists, the bitmap and the cache agree, and the threads on the ready
  queue are exactly the ready threads that are not in \<open>X\<close>. The set \<open>X\<close> holds
  the threads an operation has in transit between two queues; between operations it is
  empty.
\<close>

abbreviation qidx :: "kernel \<Rightarrow> tid \<Rightarrow> nat" where
  "qidx s t \<equiv> get_ready_q_q_index (prio (threads s t))"

definition on_rq :: "tid \<Rightarrow> kernel \<Rightarrow> bool" where
  "on_rq t s \<longleftrightarrow> (\<exists>i. t \<in> set (rq s i))"

definition prio_wf :: "kernel \<Rightarrow> bool" where
  "prio_wf s \<longleftrightarrow> (\<forall>t. K_HIGHEST_THREAD_PRIO \<le> prio (threads s t) \<and>
                       prio (threads s t) \<le> K_LOWEST_THREAD_PRIO \<and>
                       (prio (threads s t) = K_LOWEST_THREAD_PRIO \<longrightarrow> t = idle_thread s))"

definition rq_wf :: "kernel \<Rightarrow> bool" where
  "rq_wf s \<longleftrightarrow> (\<forall>i. distinct (rq s i)) \<and> (\<forall>i. \<forall>t\<in>set (rq s i). qidx s t = i) \<and>
             (\<forall>i. bit (prio_bmap s) i \<longleftrightarrow> rq s i \<noteq> [])"

definition top_index :: "kernel \<Rightarrow> nat \<Rightarrow> bool" where
  "top_index s i \<longleftrightarrow> rq s i \<noteq> [] \<and> (\<forall>j<i. rq s j = [])"

definition cache_wf :: "kernel \<Rightarrow> bool" where
  "cache_wf s \<longleftrightarrow> (\<exists>i. top_index s i \<and> cache s = hd (rq s i))"

definition rq_inv :: "tid set \<Rightarrow> kernel \<Rightarrow> bool" where
  "rq_inv X s \<longleftrightarrow> prio_wf s \<and> rq_wf s \<and> cache_wf s \<and> idle_thread s \<in> set (rq s 31) \<and>
     (\<forall>t. on_rq t s \<longleftrightarrow> t \<notin> X \<and> is_thread_ready t s)"

lemma rq_inv_cong:
  assumes "\<And>t. prio (threads s' t) = prio (threads s t)"
    and "\<And>t. t \<notin> X \<Longrightarrow> is_thread_ready t s' = is_thread_ready t s"
    and "rq s' = rq s" "prio_bmap s' = prio_bmap s" "cache s' = cache s"
    and "idle_thread s' = idle_thread s"
  shows "rq_inv X s' = rq_inv X s"
proof -
  have "(t \<notin> X \<and> is_thread_ready t s') = (t \<notin> X \<and> is_thread_ready t s)" for t
    using assms(2) by blast
  with assms(1,3-) show ?thesis
    by (simp add: rq_inv_def prio_wf_def rq_wf_def cache_wf_def top_index_def on_rq_def)
qed

lemma rq_inv_kassert [simp]: "rq_inv X (kassert c s) = rq_inv X s"
  by (rule rq_inv_cong) (simp_all add: is_thread_ready_bits)

lemma kassert_preds [simp]:
  "on_rq t (kassert c s) = on_rq t s"
  "is_thread_ready t (kassert c s) = is_thread_ready t s"
  "top_index (kassert c s) = top_index s"
  "is_preempt t (kassert c s) = is_preempt t s"
  by (simp_all add: on_rq_def is_thread_ready_bits top_index_def is_preempt_def fun_eq_iff)

lemma qidx_less:
  assumes "prio_wf s"
  shows "qidx s t < 32"
  using assms by (auto simp: prio_wf_def get_ready_q_q_index_def nat_less_iff dest: spec [of _ t])

lemma qidx_less_iff:
  assumes "prio_wf s"
  shows "qidx s t < qidx s u \<longleftrightarrow> prio (threads s t) < prio (threads s u)"
  using assms by (auto simp: prio_wf_def get_ready_q_q_index_def nat_less_iff dest: spec [of _ t] spec [of _ u])

lemma on_rq_qidx: "rq_wf s \<Longrightarrow> on_rq t s \<longleftrightarrow> t \<in> set (rq s (qidx s t))"
  by (auto simp: on_rq_def rq_wf_def)

lemma top_index_exists:
  assumes "rq s k \<noteq> []"
  obtains i where "top_index s i" and "i \<le> k"
  using assms ex_least_nat_le [of "\<lambda>i. rq s i \<noteq> []" k] by (auto simp: top_index_def)

lemma top_index_unique: "top_index s i \<Longrightarrow> top_index s j \<Longrightarrow> i = j"
  by (metis linorder_neqE_nat top_index_def)

lemma top_index_highest:
  assumes "rq_wf s" and "top_index s i"
  shows "get_highest_ready_prio s = int i - NUM_COOP_PRIO"
    and "get_ready_q_head s = hd (rq s i)"
proof -
  have "find_lsb_set (prio_bmap s) = Suc i"
    using assms by (intro find_lsb_set_eqI) (auto simp: rq_wf_def top_index_def)
  then show "get_highest_ready_prio s = int i - NUM_COOP_PRIO"
    by (simp add: get_highest_ready_prio_def)
  then show "get_ready_q_head s = hd (rq s i)"
    by (simp add: get_ready_q_head_def get_ready_q_q_index_def)
qed

lemma cache_wf_head:
  assumes "rq_wf s" and "rq s k \<noteq> []" and "cache s = get_ready_q_head s"
  shows "cache_wf s"
  using assms top_index_exists [of s k] top_index_highest(2) [of s]
  by (auto simp: cache_wf_def)

lemma rq_invD:
  assumes "rq_inv X s"
  shows "prio_wf s" "rq_wf s" "cache_wf s" "idle_thread s \<in> set (rq s 31)"
    "on_rq t s \<longleftrightarrow> t \<notin> X \<and> is_thread_ready t s"
  using assms by (auto simp: rq_inv_def)

lemma rq_wf_update:
  assumes wf: "rq_wf s" and "distinct xs" and "\<forall>t\<in>set xs. qidx s t = i"
    and "threads s' = threads s" and "rq s' = (rq s)(i := xs)"
    and "\<And>j. bit (prio_bmap s') j = (if j = i then xs \<noteq> [] else bit (prio_bmap s) j)"
  shows "rq_wf s'"
  using assms by (auto simp: rq_wf_def)


subsection \<open>Adding a thread\<close>

lemma add_thread_sel [simp]:
  "threads (add_thread_to_ready_q t s) = threads s"
  "timeouts (add_thread_to_ready_q t s) = timeouts s"
  "timers (add_thread_to_ready_q t s) = timers s"
  "timeout_q (add_thread_to_ready_q t s) = timeout_q s"
  "wait_qs (add_thread_to_ready_q t s) = wait_qs s"
  "current (add_thread_to_ready_q t s) = current s"
  "nested (add_thread_to_ready_q t s) = nested s"
  "idle_thread (add_thread_to_ready_q t s) = idle_thread s"
  "handling_timeouts (add_thread_to_ready_q t s) = handling_timeouts s"
  "fault (add_thread_to_ready_q t s) = fault s"
  "rq (add_thread_to_ready_q t s) = (rq s)(qidx s t := rq s (qidx s t) @ [t])"
  "cache (add_thread_to_ready_q t s) =
     (if prio (threads s t) < prio (threads s (cache s)) then t else cache s)"
  "prio_bmap (add_thread_to_ready_q t s) = prio_bmap s OR get_ready_q_prio_bit (prio (threads s t))"
  by (simp_all add: add_thread_to_ready_q_def set_ready_q_prio_bit_def Let_def kernel_simps)

lemma is_thread_ready_cong:
  "threads s' t = threads s t \<Longrightarrow> timeouts s' (TThread t) = timeouts s (TThread t) \<Longrightarrow>
     is_thread_ready t s' = is_thread_ready t s"
  by (simp add: is_thread_ready_bits)

lemma on_rq_add [simp]: "on_rq u (add_thread_to_ready_q t s) \<longleftrightarrow> u = t \<or> on_rq u s"
  by (auto simp: on_rq_def) metis

lemma cache_wf_add:
  assumes pw: "prio_wf s" and wf: "rq_wf s" and cw: "cache_wf s"
  shows "cache_wf (add_thread_to_ready_q t s)"
proof -
  obtain i where i: "top_index s i" "cache s = hd (rq s i)"
    using cw by (auto simp: cache_wf_def)
  then have "cache s \<in> set (rq s i)"
    by (auto simp: top_index_def)
  then have ci: "qidx s (cache s) = i"
    using wf by (auto simp: rq_wf_def)
  show ?thesis
  proof (cases "prio (threads s t) < prio (threads s (cache s))")
    case True
    then have "qidx s t < i"
      using pw ci qidx_less_iff by blast
    then have "rq s (qidx s t) = []" "\<forall>j<qidx s t. rq s j = []"
      using i(1) by (auto simp: top_index_def)
    then show ?thesis
      using True by (auto simp: cache_wf_def top_index_def intro!: exI [of _ "qidx s t"])
  next
    case False
    then have "i \<le> qidx s t"
      using pw ci qidx_less_iff by (metis not_less)
    then show ?thesis
      using False i by (auto simp: cache_wf_def top_index_def intro!: exI [of _ i])
  qed
qed

lemma rq_inv_add [inv_intros]:
  assumes inv: "rq_inv (insert t X) s" and ready: "is_thread_ready t s"
  shows "rq_inv (X - {t}) (add_thread_to_ready_q t s)"
proof -
  note d = rq_invD [OF inv]
  have notin: "t \<notin> set (rq s i)" for i
    using d(5) [of t] by (auto simp: on_rq_def)
  have p: "K_HIGHEST_THREAD_PRIO \<le> prio (threads s t)" "prio (threads s t) \<le> K_LOWEST_THREAD_PRIO"
    using d(1) by (auto simp: prio_wf_def)
  have "rq_wf (add_thread_to_ready_q t s)"
  proof (rule rq_wf_update [OF d(2)])
    show "distinct (rq s (qidx s t) @ [t])"
      using d(2) notin by (auto simp: rq_wf_def)
    show "\<forall>u\<in>set (rq s (qidx s t) @ [t]). qidx s u = qidx s t"
      using d(2) by (auto simp: rq_wf_def)
    show "bit (prio_bmap (add_thread_to_ready_q t s)) j =
        (if j = qidx s t then rq s (qidx s t) @ [t] \<noteq> [] else bit (prio_bmap s) j)" for j
      by (simp add: bit_or_iff bit_get_ready_q_prio_bit [OF p])
  qed simp_all
  moreover have "cache_wf (add_thread_to_ready_q t s)"
    by (rule cache_wf_add) (use d in simp_all)
  moreover have "on_rq u (add_thread_to_ready_q t s) \<longleftrightarrow>
      u \<notin> X - {t} \<and> is_thread_ready u (add_thread_to_ready_q t s)" for u
    using d(5) [of u] ready is_thread_ready_cong [of "add_thread_to_ready_q t s" u s] by auto
  ultimately show ?thesis
    using d by (auto simp: rq_inv_def prio_wf_def)
qed

subsection \<open>Removing a thread\<close>

lemma remove_node_sel [simp]:
  "threads (dlist_remove_k_q_node t s) = threads s"
  "timeouts (dlist_remove_k_q_node t s) = timeouts s"
  "timers (dlist_remove_k_q_node t s) = timers s"
  "timeout_q (dlist_remove_k_q_node t s) = timeout_q s"
  "current (dlist_remove_k_q_node t s) = current s"
  "nested (dlist_remove_k_q_node t s) = nested s"
  "idle_thread (dlist_remove_k_q_node t s) = idle_thread s"
  "handling_timeouts (dlist_remove_k_q_node t s) = handling_timeouts s"
  "cache (dlist_remove_k_q_node t s) = cache s"
  "fault (dlist_remove_k_q_node t s) = fault s"
  "prio_bmap (dlist_remove_k_q_node t s) = prio_bmap s"
  "rq (dlist_remove_k_q_node t s) = (\<lambda>i. remove1 t (rq s i))"
  "wait_qs (dlist_remove_k_q_node t s) = (\<lambda>w. remove1 t (wait_qs s w))"
  by (simp_all add: dlist_remove_k_q_node_def)

lemma refill_cache_sel [simp]:
  "threads (refill_cache t s) = threads s"
  "timeouts (refill_cache t s) = timeouts s"
  "timers (refill_cache t s) = timers s"
  "timeout_q (refill_cache t s) = timeout_q s"
  "current (refill_cache t s) = current s"
  "nested (refill_cache t s) = nested s"
  "idle_thread (refill_cache t s) = idle_thread s"
  "handling_timeouts (refill_cache t s) = handling_timeouts s"
  "prio_bmap (refill_cache t s) = prio_bmap s"
  "rq (refill_cache t s) = rq s"
  "wait_qs (refill_cache t s) = wait_qs s"
  by (simp_all add: refill_cache_def Let_def)

lemma remove_thread_sel [simp]:
  "threads (remove_thread_from_ready_q t s) = threads s"
  "timeouts (remove_thread_from_ready_q t s) = timeouts s"
  "timers (remove_thread_from_ready_q t s) = timers s"
  "timeout_q (remove_thread_from_ready_q t s) = timeout_q s"
  "current (remove_thread_from_ready_q t s) = current s"
  "nested (remove_thread_from_ready_q t s) = nested s"
  "idle_thread (remove_thread_from_ready_q t s) = idle_thread s"
  "handling_timeouts (remove_thread_from_ready_q t s) = handling_timeouts s"
  "rq (remove_thread_from_ready_q t s) = (\<lambda>i. remove1 t (rq s i))"
  "wait_qs (remove_thread_from_ready_q t s) = (\<lambda>w. remove1 t (wait_qs s w))"
  "prio_bmap (remove_thread_from_ready_q t s) =
     (if remove1 t (rq s (qidx s t)) = []
      then prio_bmap s AND NOT (get_ready_q_prio_bit (prio (threads s t))) else prio_bmap s)"
  by (simp_all add: remove_thread_from_ready_q_def clear_ready_q_prio_bit_def Let_def)

lemma get_ready_q_head_cong:
  "rq s' = rq s \<Longrightarrow> prio_bmap s' = prio_bmap s \<Longrightarrow> get_ready_q_head s' = get_ready_q_head s"
  by (simp add: get_ready_q_head_def get_highest_ready_prio_def)

lemma cache_refill_cache:
  "cache (refill_cache t s) = (if cache s = t then get_ready_q_head (refill_cache t s) else cache s)"
  by (auto simp: refill_cache_def Let_def intro!: get_ready_q_head_cong)

lemma cache_remove_thread:
  "cache (remove_thread_from_ready_q t s) =
     (if cache s = t then get_ready_q_head (remove_thread_from_ready_q t s) else cache s)"
  unfolding remove_thread_from_ready_q_def Let_def
  by (subst cache_refill_cache) (simp add: clear_ready_q_prio_bit_def)

lemma remove1_all_lists:
  assumes wf: "rq_wf s"
  shows "(\<lambda>i. remove1 t (rq s i)) = (rq s)(qidx s t := remove1 t (rq s (qidx s t)))"
proof
  fix i
  show "remove1 t (rq s i) = ((rq s)(qidx s t := remove1 t (rq s (qidx s t)))) i"
  proof (cases "t \<in> set (rq s i)")
    case True
    then have "qidx s t = i" using wf by (auto simp: rq_wf_def)
    then show ?thesis by simp
  qed auto
qed

lemma rq_wf_remove:
  assumes pw: "prio_wf s" and wf: "rq_wf s"
  shows "rq_wf (remove_thread_from_ready_q t s)"
proof (rule rq_wf_update [OF wf, of "remove1 t (rq s (qidx s t))"])
  have p: "K_HIGHEST_THREAD_PRIO \<le> prio (threads s t)" "prio (threads s t) \<le> K_LOWEST_THREAD_PRIO"
    using pw by (auto simp: prio_wf_def)
  show "bit (prio_bmap (remove_thread_from_ready_q t s)) j =
      (if j = qidx s t then remove1 t (rq s (qidx s t)) \<noteq> [] else bit (prio_bmap s) j)" for j
  proof (cases "remove1 t (rq s (qidx s t)) = []")
    case True
    then show ?thesis
      using qidx_less [OF pw, of t] bit_imp_le_length [of "prio_bmap s" j]
      by (auto simp: bit_and_iff bit_not_iff bit_get_ready_q_prio_bit [OF p])
  next
    case False
    then have "rq s (qidx s t) \<noteq> []" by auto
    with False show ?thesis
      using wf by (auto simp: rq_wf_def)
  qed
  show "\<forall>u\<in>set (remove1 t (rq s (qidx s t))). qidx s u = qidx s t"
    using wf by (auto simp: rq_wf_def dest: notin_set_remove1 [rotated])
qed (use wf in \<open>simp_all add: rq_wf_def remove1_all_lists\<close>)

lemma on_rq_remove:
  assumes "rq_wf s"
  shows "on_rq u (remove_thread_from_ready_q t s) \<longleftrightarrow> u \<noteq> t \<and> on_rq u s"
  using assms by (auto simp: on_rq_def rq_wf_def)

lemma cache_wf_remove:
  assumes pw: "prio_wf s" and wf: "rq_wf s" and cw: "cache_wf s"
    and idle: "idle_thread s \<in> set (rq s 31)" and ne: "t \<noteq> idle_thread s"
  shows "cache_wf (remove_thread_from_ready_q t s)"
proof (cases "cache s = t")
  case True
  have "remove1 t (rq s 31) \<noteq> []"
    using idle ne by (metis empty_iff in_set_remove1 list.set(1))
  with True show ?thesis
    using cache_wf_head [OF rq_wf_remove [OF pw wf, of t], of 31] by (simp add: cache_remove_thread)
next
  case False
  obtain i where i: "top_index s i" "cache s = hd (rq s i)"
    using cw by (auto simp: cache_wf_def)
  then obtain c xs where c: "rq s i = c # xs" "cache s = c"
    by (cases "rq s i") (auto simp: top_index_def)
  with False have "top_index (remove_thread_from_ready_q t s) i"
    "hd (rq (remove_thread_from_ready_q t s) i) = cache s"
    using i by (auto simp: top_index_def)
  with False show ?thesis
    by (auto simp: cache_wf_def cache_remove_thread intro!: exI [of _ i])
qed

lemma rq_inv_remove [inv_intros]:
  assumes inv: "rq_inv X s" and ne: "t \<noteq> idle_thread s"
  shows "rq_inv (insert t X) (remove_thread_from_ready_q t s)"
proof -
  note d = rq_invD [OF inv]
  have "on_rq u (remove_thread_from_ready_q t s) \<longleftrightarrow>
      u \<notin> insert t X \<and> is_thread_ready u (remove_thread_from_ready_q t s)" for u
    using d(5) [of u] is_thread_ready_cong [of "remove_thread_from_ready_q t s" u s]
    by (auto simp: on_rq_remove [OF d(2)])
  moreover have "idle_thread s \<in> set (remove1 t (rq s 31))"
    using d(4) ne by simp
  ultimately show ?thesis
    using d rq_wf_remove [OF d(1,2), of t] cache_wf_remove [OF d(1-4) ne]
    by (simp add: rq_inv_def prio_wf_def)
qed

subsection \<open>Moving a thread to the end of its queue\<close>

lemma move_thread_sel [simp]:
  "threads (move_thread_to_end_of_prio_q t s) = threads s"
  "timeouts (move_thread_to_end_of_prio_q t s) = timeouts s"
  "timers (move_thread_to_end_of_prio_q t s) = timers s"
  "timeout_q (move_thread_to_end_of_prio_q t s) = timeout_q s"
  "current (move_thread_to_end_of_prio_q t s) = current s"
  "nested (move_thread_to_end_of_prio_q t s) = nested s"
  "idle_thread (move_thread_to_end_of_prio_q t s) = idle_thread s"
  "handling_timeouts (move_thread_to_end_of_prio_q t s) = handling_timeouts s"
  "prio_bmap (move_thread_to_end_of_prio_q t s) = prio_bmap s"
  by (simp_all add: move_thread_to_end_of_prio_q_def Let_def)

lemma remove1_last:
  assumes "distinct xs" and "xs \<noteq> []" and "last xs = t"
  shows "remove1 t xs @ [t] = xs"
proof -
  obtain ys where xs: "xs = ys @ [t]"
    using assms(2,3) by (metis append_butlast_last_id)
  with assms(1) show ?thesis
    using remove1_middle [of t ys "[]"] by simp
qed

lemma rq_move_thread:
  assumes wf: "rq_wf s"
  shows "rq (move_thread_to_end_of_prio_q t s) =
    (rq s)(qidx s t := remove1 t (rq s (qidx s t)) @ [t])"
proof (cases "rq s (qidx s t) \<noteq> [] \<and> last (rq s (qidx s t)) = t")
  case True
  then have "remove1 t (rq s (qidx s t)) @ [t] = rq s (qidx s t)"
    using wf by (intro remove1_last) (auto simp: rq_wf_def)
  with True show ?thesis
    by (auto simp: move_thread_to_end_of_prio_q_def)
next
  case False
  then show ?thesis
    using remove1_all_lists [OF wf, of t]
    by (auto simp: move_thread_to_end_of_prio_q_def Let_def)
qed

lemma rq_wf_move:
  assumes wf: "rq_wf s" and on: "on_rq t s"
  shows "rq_wf (move_thread_to_end_of_prio_q t s)"
proof (rule rq_wf_update [OF wf _ _ _ rq_move_thread [OF wf]])
  have d: "distinct (rq s (qidx s t))"
    using wf by (simp add: rq_wf_def)
  then show "distinct (remove1 t (rq s (qidx s t)) @ [t])"
    by simp
  show "\<forall>u\<in>set (remove1 t (rq s (qidx s t)) @ [t]). qidx s u = qidx s t"
    using wf d by (simp add: rq_wf_def)
  have "rq s (qidx s t) \<noteq> []"
    using on on_rq_qidx [OF wf, of t] by auto
  then show "bit (prio_bmap (move_thread_to_end_of_prio_q t s)) j =
      (if j = qidx s t then remove1 t (rq s (qidx s t)) @ [t] \<noteq> [] else bit (prio_bmap s) j)" for j
    using wf by (auto simp: rq_wf_def)
qed simp

lemma cache_move_thread:
  assumes wf: "rq_wf s" and on: "on_rq t s" and cw: "cache_wf s"
  shows "cache_wf (move_thread_to_end_of_prio_q t s)"
proof -
  let ?s = "move_thread_to_end_of_prio_q t s"
  have t: "t \<in> set (rq s (qidx s t))" using on on_rq_qidx [OF wf] by blast
  then have ne: "rq s (qidx s t) \<noteq> []" by auto
  have wf': "rq_wf ?s" by (rule rq_wf_move [OF wf on])
  obtain i where i: "top_index s i" "cache s = hd (rq s i)"
    using cw by (auto simp: cache_wf_def)
  have top: "top_index ?s i"
    using i(1) ne by (auto simp: top_index_def rq_move_thread [OF wf])
  show ?thesis
  proof (cases "rq s (qidx s t) \<noteq> [] \<and> last (rq s (qidx s t)) = t")
    case True
    then show ?thesis
      using cw by (auto simp: move_thread_to_end_of_prio_q_def)
  next
    case False
    then obtain s' where "?s = refill_cache t s'" "cache s' = cache s"
      by (auto simp: move_thread_to_end_of_prio_q_def Let_def)
    then have c: "cache ?s = (if cache s = t then get_ready_q_head ?s else cache s)"
      using cache_refill_cache [of t s'] by simp
    show ?thesis
    proof (cases "cache s = t")
      case True
      then show ?thesis using c top_index_highest(2) [OF wf' top] top by (auto simp: cache_wf_def)
    next
      case False
      obtain x xs where x: "rq s i = x # xs" using i(1) by (cases "rq s i") (auto simp: top_index_def)
      with False i(2) have "hd (rq ?s i) = cache s"
        by (auto simp: rq_move_thread [OF wf])
      with False c top show ?thesis by (auto simp: cache_wf_def)
    qed
  qed
qed

lemma rq_inv_move [inv_intros]:
  assumes inv: "rq_inv X s" and on: "on_rq t s"
  shows "rq_inv X (move_thread_to_end_of_prio_q t s)"
proof -
  note d = rq_invD [OF inv]
  have t: "t \<in> set (rq s (qidx s t))" using on on_rq_qidx [OF d(2)] by blast
  moreover have "distinct (rq s (qidx s t))" using d(2) by (simp add: rq_wf_def)
  ultimately have same: "set (rq (move_thread_to_end_of_prio_q t s) i) = set (rq s i)" for i
    by (auto simp: rq_move_thread [OF d(2)])
  then have "on_rq u (move_thread_to_end_of_prio_q t s) \<longleftrightarrow>
      u \<notin> X \<and> is_thread_ready u (move_thread_to_end_of_prio_q t s)" for u
    using d(5) [of u] is_thread_ready_cong [of "move_thread_to_end_of_prio_q t s" u s]
    by (simp add: on_rq_def)
  with same show ?thesis
    using d rq_wf_move [OF d(2) on] cache_move_thread [OF d(2) on d(3)]
    by (simp add: rq_inv_def prio_wf_def)
qed

subsection \<open>Threads in transit\<close>

lemma is_thread_ready_upd_other [simp]:
  "u \<noteq> t \<Longrightarrow> is_thread_ready u (upd_thread t f s) = is_thread_ready u s"
  by (simp add: is_thread_ready_bits)

lemma is_thread_ready_upd_same:
  "is_thread_ready t (upd_thread t f s) \<longleftrightarrow>
     runnable_state (thread_state (f (threads s t))) \<and>
     delta_ticks_from_prev (timeouts s (TThread t)) = INACTIVE"
  by (simp add: is_thread_ready_bits)

lemma rq_inv_insert:
  assumes "rq_inv X s" and "\<not> is_thread_ready t s"
  shows "rq_inv (insert t X) s"
  using assms by (auto simp: rq_inv_def)

lemma rq_inv_delete:
  assumes "rq_inv (insert t X) s" and "\<not> is_thread_ready t s"
  shows "rq_inv (X - {t}) s"
  using assms by (auto simp: rq_inv_def)

text \<open>A change to a thread that is on no queue, other than of its priority.\<close>

lemma rq_inv_upd_transit [inv_intros]:
  assumes "rq_inv X s" and "t \<in> X" and "\<And>b. prio (f b) = prio b"
  shows "rq_inv X (upd_thread t f s)"
proof (subst rq_inv_cong [where s = s])
  show "is_thread_ready u (upd_thread t f s) = is_thread_ready u s" if "u \<notin> X" for u
    using that assms(2) by (metis is_thread_ready_upd_other)
qed (use assms in simp_all)

text \<open>A change that affects neither priority nor state.\<close>

lemma rq_inv_upd_other [simp]:
  assumes "\<And>b. prio (f b) = prio b" and "\<And>b. thread_state (f b) = thread_state b"
  shows "rq_inv X (upd_thread t f s) = rq_inv X s"
  by (rule rq_inv_cong) (use assms in \<open>simp_all add: is_thread_ready_bits\<close>)

lemma rq_inv_upd_prio:
  assumes inv: "rq_inv X s" and t: "t \<in> X"
    and p: "K_HIGHEST_THREAD_PRIO \<le> p" "p < K_LOWEST_THREAD_PRIO"
  shows "rq_inv X (upd_thread t (\<lambda>b. b\<lparr>prio := p\<rparr>) s)"
proof -
  note d = rq_invD [OF inv]
  have "t \<notin> set (rq s i)" for i
    using d(5) [of t] t by (auto simp: on_rq_def)
  then have "rq_wf (upd_thread t (\<lambda>b. b\<lparr>prio := p\<rparr>) s)"
    using d(2) by (auto simp: rq_wf_def)
  moreover have "is_thread_ready u (upd_thread t (\<lambda>b. b\<lparr>prio := p\<rparr>) s) = is_thread_ready u s" for u
    by (simp add: is_thread_ready_bits)
  ultimately show ?thesis
    using d p by (simp add: rq_inv_def prio_wf_def cache_wf_def top_index_def on_rq_def)
qed

lemma mark_sel [simp]:
  "mark_thread_as_started t s = upd_thread t (\<lambda>b. b\<lparr>thread_state := thread_state b AND NOT THREAD_PRESTART\<rparr>) s"
  "mark_thread_as_pending t s = upd_thread t (\<lambda>b. b\<lparr>thread_state := thread_state b OR THREAD_PENDING\<rparr>) s"
  "mark_thread_as_not_pending t s = upd_thread t (\<lambda>b. b\<lparr>thread_state := thread_state b AND NOT THREAD_PENDING\<rparr>) s"
  "mark_thread_as_suspended t s = upd_thread t (\<lambda>b. b\<lparr>thread_state := thread_state b OR THREAD_SUSPENDED\<rparr>) s"
  "mark_thread_as_not_suspended t s = upd_thread t (\<lambda>b. b\<lparr>thread_state := thread_state b AND NOT THREAD_SUSPENDED\<rparr>) s"
  "mark_thread_as_dead t s = upd_thread t (\<lambda>b. b\<lparr>thread_state := thread_state b OR THREAD_DEAD\<rparr>) s"
  by (simp_all add: mark_thread_as_started_def mark_thread_as_pending_def
      mark_thread_as_not_pending_def mark_thread_as_suspended_def
      mark_thread_as_not_suspended_def mark_thread_as_dead_def)

lemma rq_inv_ready_thread [inv_intros]:
  assumes "rq_inv (insert t X) s"
  shows "rq_inv (X - {t}) (ready_thread t s)"
proof -
  have "rq_inv (insert t X) (mark_thread_as_started t (kassert a (kassert b s)))" for a b
    using rq_inv_upd_transit [of "insert t X" "kassert a (kassert b s)" t] assms by simp
  then show ?thesis
    using rq_inv_add rq_inv_delete by (auto simp: ready_thread_def Let_def simp del: mark_sel)
qed

lemma rq_inv_thread_priority_set [inv_intros]:
  assumes inv: "rq_inv {} s" and ne: "t \<noteq> idle_thread s"
    and p: "K_HIGHEST_THREAD_PRIO \<le> p" "p < K_LOWEST_THREAD_PRIO"
  shows "rq_inv {} (thread_priority_set t p s)"
proof (cases "is_thread_ready t s")
  case True
  let ?s = "upd_thread t (\<lambda>b. b\<lparr>prio := p\<rparr>) (remove_thread_from_ready_q t s)"
  have "rq_inv {t} ?s"
    using rq_inv_remove [OF inv ne] p by (intro rq_inv_upd_prio) auto
  moreover have "is_thread_ready t ?s"
    using True by (simp add: is_thread_ready_bits)
  ultimately show ?thesis
    using True rq_inv_add [of t "{}" ?s] by (simp add: thread_priority_set_def)
next
  case False
  have "rq_inv {t} (upd_thread t (\<lambda>b. b\<lparr>prio := p\<rparr>) s)"
    using rq_inv_insert [OF inv False] p by (intro rq_inv_upd_prio) auto
  moreover have "\<not> is_thread_ready t (upd_thread t (\<lambda>b. b\<lparr>prio := p\<rparr>) s)"
    using False by (simp add: is_thread_ready_bits)
  ultimately show ?thesis
    using False rq_inv_delete [of t "{}"] by (simp add: thread_priority_set_def)
qed

subsection \<open>No assertion fails\<close>

lemma fault_refill_cache:
  assumes "rq_wf s" and "rq s k \<noteq> []"
  shows "fault (refill_cache t s) = fault s"
proof -
  obtain i where i: "top_index s i"
    using top_index_exists [OF assms(2)] by blast
  then have "rq s (get_ready_q_q_index (get_highest_ready_prio s)) \<noteq> []"
    using top_index_highest(1) [OF assms(1) i] by (simp add: get_ready_q_q_index_def top_index_def)
  then show ?thesis
    by (simp add: refill_cache_def)
qed

lemma fault_remove_thread:
  assumes "rq_inv X s" and "t \<noteq> idle_thread s"
  shows "fault (remove_thread_from_ready_q t s) = fault s"
proof -
  note d = rq_invD [OF assms(1)]
  define s1 where "s1 = dlist_remove_k_q_node t s"
  define s' where
    "s' = (if rq s1 (qidx s t) = [] then clear_ready_q_prio_bit (prio (threads s1 t)) s1 else s1)"
  have rm: "remove_thread_from_ready_q t s = refill_cache t s'"
    by (simp add: remove_thread_from_ready_q_def Let_def s'_def s1_def)
  have s': "fault s' = fault s" "rq s' = (\<lambda>i. remove1 t (rq s i))" "threads s' = threads s"
    by (simp_all add: s'_def s1_def clear_ready_q_prio_bit_def)
  have "prio_bmap s' = prio_bmap (remove_thread_from_ready_q t s)"
    unfolding rm by simp
  then have "rq_wf s'"
    using rq_wf_remove [OF d(1,2), of t] s' unfolding rq_wf_def
    by (simp only: remove_thread_sel(1,9)) simp
  moreover have "rq s' 31 \<noteq> []"
    using d(4) assms(2) s'(2) by (metis empty_iff in_set_remove1 list.set(1))
  ultimately show ?thesis
    unfolding rm using fault_refill_cache [of s' 31 t] s'(1) by simp
qed

lemma fault_move_thread:
  assumes "rq_inv X s" and "on_rq t s"
  shows "fault (move_thread_to_end_of_prio_q t s) = fault s"
proof (cases "rq s (qidx s t) \<noteq> [] \<and> last (rq s (qidx s t)) = t")
  case True
  then show ?thesis by (simp add: move_thread_to_end_of_prio_q_def)
next
  case False
  define s1 where "s1 = dlist_remove_k_q_node t s"
  define s' where "s' = s1\<lparr>rq := (rq s1)(qidx s t := rq s1 (qidx s t) @ [t])\<rparr>"
  have mv: "move_thread_to_end_of_prio_q t s = refill_cache t s'"
    using False by (auto simp: move_thread_to_end_of_prio_q_def Let_def s'_def s1_def)
  have eq: "threads s' = threads s" "prio_bmap s' = prio_bmap s" "fault s' = fault s"
    by (simp_all add: s'_def s1_def)
  have rq: "rq s' = rq (move_thread_to_end_of_prio_q t s)"
    unfolding mv by simp
  note d = rq_invD [OF assms(1)]
  have "rq_wf s'"
    using rq_wf_move [OF d(2) assms(2)] eq rq by (simp add: rq_wf_def)
  moreover have "rq s' (qidx s t) \<noteq> []"
    using rq rq_move_thread [OF d(2)] by simp
  ultimately show ?thesis
    unfolding mv using fault_refill_cache [of s' "qidx s t" t] eq(3) by simp
qed

lemma prio_wf_asserts:
  assumes "prio_wf s"
  shows "prio (threads s t) < K_LOWEST_THREAD_PRIO \<or>
      prio (threads s t) = K_LOWEST_THREAD_PRIO \<and> t = idle_thread s"
    and "\<not> prio (threads s t) < K_HIGHEST_THREAD_PRIO"
  using assms by (auto simp: prio_wf_def not_less order_le_less)

lemma fault_ready_thread:
  assumes "prio_wf s"
  shows "fault (ready_thread t s) = fault s"
  using prio_wf_asserts [OF assms, of t] by (auto simp: ready_thread_def Let_def kernel_simps)

section \<open>Context switches\<close>

lemma Swap_sel [simp]:
  "timeouts (Swap s) = timeouts s"
  "timers (Swap s) = timers s"
  "timeout_q (Swap s) = timeout_q s"
  "wait_qs (Swap s) = wait_qs s"
  "nested (Swap s) = nested s"
  "idle_thread (Swap s) = idle_thread s"
  "handling_timeouts (Swap s) = handling_timeouts s"
  "rq (Swap s) = rq s"
  "cache (Swap s) = cache s"
  "fault (Swap s) = fault s"
  "prio_bmap (Swap s) = prio_bmap s"
  "current (Swap s) = cache s"
  "threads (Swap s) = (threads s)(current s := (threads s (current s))\<lparr>return_value := - EAGAIN\<rparr>)"
  by (simp_all add: Swap_def Let_def update_time_slice_before_swap_def enter_syscall_exception_def
      set_thread_return_value_def)

lemma reschedule_sel [simp]:
  "timeouts (reschedule_threads s) = timeouts s"
  "timers (reschedule_threads s) = timers s"
  "timeout_q (reschedule_threads s) = timeout_q s"
  "wait_qs (reschedule_threads s) = wait_qs s"
  "nested (reschedule_threads s) = nested s"
  "idle_thread (reschedule_threads s) = idle_thread s"
  "handling_timeouts (reschedule_threads s) = handling_timeouts s"
  "rq (reschedule_threads s) = rq s"
  "cache (reschedule_threads s) = cache s"
  "fault (reschedule_threads s) = fault s"
  "prio_bmap (reschedule_threads s) = prio_bmap s"
  by (simp_all add: reschedule_threads_def)

lemma is_thread_ready_Swap [simp]: "is_thread_ready t (Swap s) = is_thread_ready t s"
  by (simp add: is_thread_ready_bits)

lemma is_thread_ready_reschedule [simp]:
  "is_thread_ready t (reschedule_threads s) = is_thread_ready t s"
  by (simp add: reschedule_threads_def)

lemma rq_inv_Swap [simp]: "rq_inv X (Swap s) = rq_inv X s"
  by (rule rq_inv_cong) simp_all

lemma rq_inv_reschedule [simp]: "rq_inv X (reschedule_threads s) = rq_inv X s"
  by (simp add: reschedule_threads_def)

lemma cache_on_top:
  assumes "rq_inv X s"
  obtains i where "top_index s i" "cache s = hd (rq s i)" "cache s \<in> set (rq s i)"
    "qidx s (cache s) = i" "get_highest_ready_prio s = int i - NUM_COOP_PRIO"
    "prio (threads s (cache s)) = int i - NUM_COOP_PRIO"
proof -
  note d = rq_invD [OF assms]
  obtain i where i: "top_index s i" "cache s = hd (rq s i)"
    using d(3) by (auto simp: cache_wf_def)
  then have c: "cache s \<in> set (rq s i)"
    by (auto simp: top_index_def)
  then have q: "qidx s (cache s) = i"
    using d(2) by (auto simp: rq_wf_def)
  have "K_HIGHEST_THREAD_PRIO \<le> prio (threads s (cache s))"
    using d(1) by (auto simp: prio_wf_def)
  then have "prio (threads s (cache s)) = int i - NUM_COOP_PRIO"
    using q by (auto simp: get_ready_q_q_index_def)
  with that i c q top_index_highest(1) [OF d(2) i(1)] show ?thesis
    by blast
qed

lemma must_switch_current_cache:
  assumes "rq_inv X s" and "current s = cache s"
  shows "\<not> must_switch_threads s"
  using cache_on_top [OF assms(1)] assms(2)
  by (metis is_prio1_higher_than_prio2_def is_prio_higher_def less_irrefl must_switch_threads_def
      must_switch_threads_raw_def)

lemma must_switch_iff:
  assumes "rq_inv X s"
  shows "must_switch_threads s \<longleftrightarrow>
    is_preempt (current s) s \<and> prio (threads s (cache s)) < prio (threads s (current s))"
  using cache_on_top [OF assms]
  by (metis is_prio1_higher_than_prio2_def is_prio_higher_def must_switch_threads_def
      must_switch_threads_raw_def)

lemma set_return_value_sel [simp]:
  "set_thread_return_value t v s = upd_thread t (\<lambda>b. b\<lparr>return_value := v\<rparr>) s"
  "set_thread_return_value_with_data t v d s =
     upd_thread t (\<lambda>b. b\<lparr>swap_data := d\<rparr>) (upd_thread t (\<lambda>b. b\<lparr>return_value := v\<rparr>) s)"
  by (simp_all add: set_thread_return_value_def set_thread_return_value_with_data_def)

lemma rq_inv_k_yield [inv_intros]:
  assumes "rq_inv {} s" and "is_thread_ready (current s) s"
  shows "rq_inv {} (k_yield s)"
  using rq_inv_move [of "{}" "kassert c s" "current s" for c] assms rq_invD(5) [OF assms(1), of "current s"]
  by (simp add: k_yield_def Let_def)

lemma rq_inv_k_thread_priority_set [inv_intros]:
  assumes "rq_inv {} s" and "t \<noteq> idle_thread s"
    and "K_HIGHEST_THREAD_PRIO \<le> p" "p < K_LOWEST_THREAD_PRIO"
  shows "rq_inv {} (k_thread_priority_set t p s)"
  using rq_inv_thread_priority_set [of "kassert b (kassert a s)" t p for a b] assms
  by (simp add: k_thread_priority_set_def Let_def)

lemma rq_inv_sched_lock [simp]:
  "rq_inv X (sched_lock_internal s) = rq_inv X s"
  "rq_inv X (k_sched_lock s) = rq_inv X s"
  "rq_inv X (k_sched_unlock s) = rq_inv X s"
  "rq_inv X (sched_unlock_no_reschedule s) = rq_inv X s"
  by (simp_all add: sched_lock_internal_def k_sched_lock_def k_sched_unlock_def
      sched_unlock_no_reschedule_def)

section \<open>Concrete states\<close>

lemma bit_boot_bmap: "bit (0x80010000 :: u32) i \<longleftrightarrow> i = 16 \<or> i = 31"
proof -
  have "(0x80010000 :: u32) = 2 ^ 31 OR 2 ^ 16" by simp
  then show ?thesis
    by (simp only: bit_or_iff bit_exp_iff) auto
qed

lemma bit_prio_bmap_boot: "bit (prio_bmap boot) i \<longleftrightarrow> i = 16 \<or> i = 31"
  unfolding boot_def by (simp only: kernel.select_convs bit_boot_bmap)

lemma boot_sel [simp]:
  "nested boot = 0" "current boot = 1" "idle_thread boot = 0" "timeout_q boot = []"
  "cache boot = 1" "wait_qs boot w = []" "handling_timeouts boot = False"
  "rq boot = (\<lambda>_. [])(16 := [1], 31 := [0])"
  "threads boot = (\<lambda>_. thread0)(0 := thread0\<lparr>prio := 15, thread_state := 0\<rparr>,
                             1 := thread0\<lparr>thread_state := 0\<rparr>)"
  "timeouts boot x = timeout0" "timers boot i = timer0"
  by (simp_all add: boot_def)

lemma thread0_sel [simp]:
  "thread_state thread0 = 4" "prio thread0 = 0" "sched_locked thread0 = 0"
  by (simp_all add: thread0_def)

lemma timeout0_sel [simp]:
  "delta_ticks_from_prev timeout0 = INACTIVE" "to_thread timeout0 = None" "to_wait_q timeout0 = None"
  "to_func timeout0 = None"
  by (simp_all add: timeout0_def)

lemma is_thread_ready_boot [simp]: "is_thread_ready t boot \<longleftrightarrow> t = 0 \<or> t = 1"
  by (simp add: is_thread_ready_bits runnable_state_def)

lemma rq_inv_boot [simp]: "rq_inv {} boot"
proof -
  have "on_rq t boot \<longleftrightarrow> t = 0 \<or> t = 1" for t
    by (auto simp: on_rq_def intro: exI [of _ 16])
  moreover have "rq_wf boot"
    unfolding rq_wf_def bit_prio_bmap_boot
    by (auto simp: get_ready_q_q_index_def)
  moreover have "cache_wf boot"
    by (auto simp: cache_wf_def top_index_def intro!: exI [of _ 16])
  moreover have "prio_wf boot"
    by (simp add: prio_wf_def)
  ultimately show ?thesis
    by (simp add: rq_inv_def)
qed

section \<open>Properties of the scheduler\<close>



text \<open>
  after \<open>_reschedule_threads\<close> no further switch is due: either the running thread is
  not preemptible or no ready thread has a higher priority than it.
\<close>

theorem reschedule_threads_settles:
  assumes "rq_inv {} s"
  shows "\<not> must_switch_threads (reschedule_threads s) \<and>
    (must_switch_threads s \<longrightarrow>
       current (reschedule_threads s) = get_next_ready_thread s \<and>
       return_value (threads (reschedule_threads s) (current s)) = - EAGAIN) \<and>
    (\<not> must_switch_threads s \<longrightarrow> reschedule_threads s = s)"
  using must_switch_current_cache [of "{}" "Swap s"] assms
  by (auto simp: reschedule_threads_def get_next_ready_thread_def)

theorem reschedule_threads_settles_witness:
  "\<not> must_switch_threads (reschedule_threads boot)"
  using reschedule_threads_settles [OF rq_inv_boot] by blast

text \<open>
  \<open>k_yield\<close> is round robin. A running thread that heads the highest ready queue goes
  to the end of that queue, the order of the others is kept, and the second thread of the
  queue runs next.
\<close>

theorem k_yield_round_robin:
  assumes "rq_inv {} s" and "top_index s i" and "rq s i = current s # u # us"
  shows "current (k_yield s) = u \<and> rq (k_yield s) = (rq s)(i := u # us @ [current s])"
proof -
  define s0 where "s0 = kassert (\<not> is_in_isr s) s"
  have s0: "rq_inv {} s0" "top_index s0 i" "rq s0 i = current s0 # u # us" "current s0 = current s"
    "rq s0 = rq s"
    using assms by (simp_all add: s0_def)
  note d = rq_invD [OF s0(1)]
  let ?s = "move_thread_to_end_of_prio_q (current s0) s0"
  have qi: "qidx s0 (current s0) = i"
    using d(2) s0(3) by (auto simp: rq_wf_def)
  have dist: "distinct (current s # u # us)"
    using d(2) s0(3,4) by (metis rq_wf_def)
  have on: "on_rq (current s0) s0"
    using s0(3) by (auto simp: on_rq_def intro!: exI [of _ i])
  have rq: "rq ?s = (rq s)(i := u # us @ [current s])"
    using rq_move_thread [OF d(2), of "current s0"] qi s0 by simp
  then have "top_index ?s i"
    using assms(2) by (auto simp: top_index_def)
  moreover obtain j where "top_index ?s j" "cache ?s = hd (rq ?s j)"
    using cache_move_thread [OF d(2) on d(3)] by (auto simp: cache_wf_def)
  ultimately have "cache ?s = u"
    using top_index_unique [of ?s i j] rq by simp
  then show ?thesis
    using rq dist by (auto simp: k_yield_def Let_def get_next_ready_thread_def s0_def)
qed

definition boot2 :: kernel where
  "boot2 = add_thread_to_ready_q 2 (upd_thread 2 (\<lambda>b. b\<lparr>thread_state := 0\<rparr>) boot)"

lemma rq_inv_boot2 [simp]: "rq_inv {} boot2"
proof -
  let ?s = "upd_thread 2 (\<lambda>b. b\<lparr>thread_state := 0\<rparr>) boot"
  have "rq_inv {2} ?s"
    by (rule rq_inv_upd_transit) (auto intro: rq_inv_insert)
  moreover have "is_thread_ready 2 ?s"
    by (simp add: is_thread_ready_bits runnable_state_def)
  ultimately show ?thesis
    using rq_inv_add [of 2 "{}" ?s] by (simp add: boot2_def)
qed

lemma boot2_sel [simp]:
  "rq boot2 = (\<lambda>_. [])(16 := [1, 2], 31 := [0])" "current boot2 = 1" "wait_qs boot2 w = []"
  "threads boot2 = (threads boot)(2 := thread0\<lparr>thread_state := 0\<rparr>)"
  "timeouts boot2 x = timeout0" "idle_thread boot2 = 0" "nested boot2 = 0" "timeout_q boot2 = []"
  by (auto simp: boot2_def get_ready_q_q_index_def fun_eq_iff)

theorem k_yield_round_robin_witness:
  "rq_inv {} boot2 \<and> rq boot2 16 = [1, 2] \<and> current (k_yield boot2) = 2 \<and> rq (k_yield boot2) 16 = [2, 1]"
  using k_yield_round_robin [of boot2 16 2 "[]"] by (simp add: top_index_def)

end
