(* ===== verification/Timeout.thy ===== *)
theory Timeout
  imports Sched
begin

text \<open>
  Wait queues and the timeout queue: the pending/unpending functions of
  kernel/include/ksched.h and kernel/sched.c, the delta queue of
  kernel/include/timeout_q.h, k_sleep and k_wakeup.

  A timeout's function is a C function pointer; \<open>call\<close> gives the meaning of the
  pointers. Each operation below is one interrupt-locked section (or a sequence of them
  that the model runs without an interrupt in between).
\<close>

section \<open>Ticks\<close>

definition ms_to_ticks :: "int \<Rightarrow> int" where
  "ms_to_ticks ms = sint ((word_of_int ms + (word_of_int MS_PER_TICK - 1)) div
                          (word_of_int MS_PER_TICK :: u32))"

definition ticks_to_ms_u64 :: "u64 \<Rightarrow> u64" where
  "ticks_to_ms_u64 ticks = ticks * word_of_int MS_PER_TICK"

definition ticks_to_ms :: "int \<Rightarrow> int" where
  "ticks_to_ms ticks = sint (ticks_to_ms_u64 (word_of_int ticks))"

section \<open>Unpending\<close>

definition peek_first_pending_thread :: "wqid \<Rightarrow> kernel \<Rightarrow> tid option" where
  "peek_first_pending_thread w s = (case wait_qs s w of [] \<Rightarrow> None | t # _ \<Rightarrow> Some t)"

definition find_first_thread_to_unpend :: "wqid \<Rightarrow> tid option \<Rightarrow> kernel \<Rightarrow> tid option" where
  "find_first_thread_to_unpend w from s =
     (if handling_timeouts s then
        find (\<lambda>t. \<not> is_thread_timeout_expired t s)
          (case from of None \<Rightarrow> wait_qs s w
           | Some f \<Rightarrow> tl (dropWhile (\<lambda>t. t \<noteq> f) (wait_qs s w)))
      else (case wait_qs s w of [] \<Rightarrow> None | t # _ \<Rightarrow> Some t))"

definition unpend_thread :: "tid \<Rightarrow> kernel \<Rightarrow> kernel" where
  "unpend_thread t s =
     (let s = kassert (is_thread_pending t s) s;
          s = dlist_remove_k_q_node t s
      in mark_thread_as_not_pending t s)"

definition unpend_first_thread :: "wqid \<Rightarrow> kernel \<Rightarrow> kernel \<times> tid option" where
  "unpend_first_thread w s =
     (case find_first_thread_to_unpend w None s of
        Some t \<Rightarrow> (unpend_thread t s, Some t)
      | None \<Rightarrow> (s, None))"

section \<open>The timeout queue\<close>

abbreviation delta :: "kernel \<Rightarrow> toid \<Rightarrow> int" where
  "delta s x \<equiv> delta_ticks_from_prev (timeouts s x)"

definition set_delta :: "toid \<Rightarrow> int \<Rightarrow> kernel \<Rightarrow> kernel" where
  "set_delta x d = upd_timeout x (\<lambda>t. t\<lparr>delta_ticks_from_prev := d\<rparr>)"

definition init_timeout :: "toid \<Rightarrow> fn_ptr option \<Rightarrow> kernel \<Rightarrow> kernel" where
  "init_timeout x func =
     upd_timeout x (\<lambda>t. t\<lparr>delta_ticks_from_prev := INACTIVE, to_wait_q := None,
                          to_thread := None, to_func := func\<rparr>)"

definition init_thread_timeout :: "tid \<Rightarrow> kernel \<Rightarrow> kernel" where
  "init_thread_timeout t = init_timeout (TThread t) None"

definition unpend_thread_timing_out :: "tid \<Rightarrow> toid \<Rightarrow> kernel \<Rightarrow> kernel" where
  "unpend_thread_timing_out t x s =
     (if to_wait_q (timeouts s x) \<noteq> None then
        upd_timeout (TThread t) (\<lambda>o1. o1\<lparr>to_wait_q := None\<rparr>) (unpend_thread t s)
      else s)"

definition handle_one_expired_timeout ::
    "(fn_ptr \<Rightarrow> toid \<Rightarrow> kernel \<Rightarrow> kernel) \<Rightarrow> toid \<Rightarrow> kernel \<Rightarrow> kernel" where
  "handle_one_expired_timeout call x s =
     (let th = to_thread (timeouts s x);
          s = set_delta x INACTIVE s
      in case th of
           Some t \<Rightarrow> ready_thread t (unpend_thread_timing_out t x s)
         | None \<Rightarrow> (case to_func (timeouts s x) of Some f \<Rightarrow> call f x s | None \<Rightarrow> s))"

fun handle_expired_timeouts ::
    "(fn_ptr \<Rightarrow> toid \<Rightarrow> kernel \<Rightarrow> kernel) \<Rightarrow> toid list \<Rightarrow> kernel \<Rightarrow> kernel" where
  "handle_expired_timeouts call [] s = s"
| "handle_expired_timeouts call (x # xs) s =
     handle_expired_timeouts call xs (handle_one_expired_timeout call x s)"

text \<open>
  The node after a node of a list. A timeout that is active but not linked on
  \<open>_timeout_q\<close> (it has expired and waits on the local list of \<open>handle_timeouts\<close>) has a
  successor outside the queue: reading it as a timeout is a fault.
\<close>

definition next_node :: "'a \<Rightarrow> 'a list \<Rightarrow> 'a option" where
  "next_node x xs = (case dropWhile (\<lambda>y. y \<noteq> x) xs of _ # y # _ \<Rightarrow> Some y | _ \<Rightarrow> None)"

definition abort_timeout :: "toid \<Rightarrow> kernel \<Rightarrow> kernel \<times> int" where
  "abort_timeout x s =
     (if delta s x = INACTIVE then (s, INACTIVE)
      else
        let s = (if timeout_q s \<noteq> [] \<and> last (timeout_q s) = x then s
                 else case next_node x (timeout_q s) of
                        Some y \<Rightarrow> set_delta y (delta s y + delta s x) s
                      | None \<Rightarrow> s\<lparr>fault := True\<rparr>);
            s = s\<lparr>timeout_q := remove1 x (timeout_q s)\<rparr>;
            s = set_delta x INACTIVE s
        in (s, 0))"

definition abort_thread_timeout :: "tid \<Rightarrow> kernel \<Rightarrow> kernel \<times> int" where
  "abort_thread_timeout t = abort_timeout (TThread t)"

fun add_timeout_loop :: "toid \<Rightarrow> toid list \<Rightarrow> toid list \<Rightarrow> kernel \<Rightarrow> kernel" where
  "add_timeout_loop x visited [] s = s\<lparr>timeout_q := visited @ [x]\<rparr>"
| "add_timeout_loop x visited (in_q # rest) s =
     (if delta s x \<le> delta s in_q then
        (set_delta in_q (delta s in_q - delta s x) s)\<lparr>timeout_q := visited @ x # in_q # rest\<rparr>
      else
        add_timeout_loop x (visited @ [in_q]) rest (set_delta x (delta s x - delta s in_q) s))"

definition add_timeout ::
    "(fn_ptr \<Rightarrow> toid \<Rightarrow> kernel \<Rightarrow> kernel) \<Rightarrow> tid option \<Rightarrow> toid \<Rightarrow> wqid option \<Rightarrow> int \<Rightarrow>
      kernel \<Rightarrow> kernel" where
  "add_timeout call th x w timeout_in_ticks s =
     (let s = kassert (timeout_in_ticks \<ge> 0) s;
          s = upd_timeout x (\<lambda>t. t\<lparr>delta_ticks_from_prev := timeout_in_ticks,
                                   to_thread := th, to_wait_q := w\<rparr>) s
      in if timeout_in_ticks = 0 then handle_one_expired_timeout call x s
         else add_timeout_loop x [] (timeout_q s) s)"

definition add_thread_timeout ::
    "(fn_ptr \<Rightarrow> toid \<Rightarrow> kernel \<Rightarrow> kernel) \<Rightarrow> tid \<Rightarrow> wqid option \<Rightarrow> int \<Rightarrow> kernel \<Rightarrow> kernel" where
  "add_thread_timeout call t w timeout_in_ticks s =
     add_timeout call (Some t) (TThread t) w timeout_in_ticks s"

definition get_next_timeout_expiry :: "kernel \<Rightarrow> int" where
  "get_next_timeout_expiry s = (case timeout_q s of [] \<Rightarrow> K_FOREVER | x # _ \<Rightarrow> delta s x)"

text \<open>\<open>_timeout_remaining_get\<close>: the ticks left, by summing the deltas up to the timeout.\<close>

fun remaining_ticks :: "(toid \<Rightarrow> int) \<Rightarrow> toid list \<Rightarrow> toid \<Rightarrow> int option" where
  "remaining_ticks d [] x = None"
| "remaining_ticks d (y # ys) x =
     (if y = x then Some (d y) else map_option (\<lambda>r. d y + r) (remaining_ticks d ys x))"

definition timeout_remaining_get :: "toid \<Rightarrow> kernel \<Rightarrow> int option" where
  "timeout_remaining_get x s =
     (if delta s x = INACTIVE then Some (ticks_to_ms 0)
      else if timeout_q s = [] then Some (ticks_to_ms 0)
      else map_option ticks_to_ms (remaining_ticks (delta s) (timeout_q s) x))"

section \<open>Pending\<close>

fun insert_by_prio :: "(tid \<Rightarrow> int) \<Rightarrow> tid \<Rightarrow> tid list \<Rightarrow> tid list" where
  "insert_by_prio p t [] = [t]"
| "insert_by_prio p t (pending # rest) =
     (if is_prio1_higher_than_prio2 (p t) (p pending) then t # pending # rest
      else pending # insert_by_prio p t rest)"

definition insert_in_wait_q :: "tid \<Rightarrow> wqid \<Rightarrow> kernel \<Rightarrow> kernel" where
  "insert_in_wait_q t w s =
     s\<lparr>wait_qs := (wait_qs s)(w := insert_by_prio (\<lambda>u. prio (threads s u)) t (wait_qs s w))\<rparr>"

definition pend_thread ::
    "(fn_ptr \<Rightarrow> toid \<Rightarrow> kernel \<Rightarrow> kernel) \<Rightarrow> tid \<Rightarrow> wqid \<Rightarrow> int \<Rightarrow> kernel \<Rightarrow> kernel" where
  "pend_thread call t w timeout s =
     (let s = insert_in_wait_q t w s;
          s = mark_thread_as_pending t s
      in if timeout \<noteq> K_FOREVER then
           let ticks = TICK_ALIGN + ms_to_ticks timeout in add_thread_timeout call t (Some w) ticks s
         else s)"

definition pend_current_thread ::
    "(fn_ptr \<Rightarrow> toid \<Rightarrow> kernel \<Rightarrow> kernel) \<Rightarrow> wqid \<Rightarrow> int \<Rightarrow> kernel \<Rightarrow> kernel" where
  "pend_current_thread call w timeout s =
     (let s = remove_thread_from_ready_q (current s) s in pend_thread call (current s) w timeout s)"

section \<open>Sleeping and waking\<close>

definition k_sleep :: "(fn_ptr \<Rightarrow> toid \<Rightarrow> kernel \<Rightarrow> kernel) \<Rightarrow> int \<Rightarrow> kernel \<Rightarrow> kernel" where
  "k_sleep call duration s =
     (let s = kassert (\<not> is_in_isr s) s;
          s = kassert (duration \<noteq> K_FOREVER) s
      in if duration = 0 then k_yield s
         else
           let ticks = TICK_ALIGN + ms_to_ticks duration;
               s = remove_thread_from_ready_q (current s) s;
               s = add_thread_timeout call (current s) None ticks s
           in Swap s)"

definition k_wakeup :: "tid \<Rightarrow> kernel \<Rightarrow> kernel" where
  "k_wakeup t s =
     (if is_thread_pending t s then s
      else case abort_thread_timeout t s of (s, r) \<Rightarrow>
        if r = INACTIVE then s
        else
          let s = ready_thread t s
          in if is_in_isr s then s else reschedule_threads s)"

section \<open>The delta queue as a table of remaining ticks\<close>

lemma set_delta_sel [simp]:
  "timeouts (set_delta x d s) = (timeouts s)(x := (timeouts s x)\<lparr>delta_ticks_from_prev := d\<rparr>)"
  "nested (set_delta x d s) = nested s"
  "current (set_delta x d s) = current s"
  "idle_thread (set_delta x d s) = idle_thread s"
  "threads (set_delta x d s) = threads s"
  "timers (set_delta x d s) = timers s"
  "timeout_q (set_delta x d s) = timeout_q s"
  "cache (set_delta x d s) = cache s"
  "prio_bmap (set_delta x d s) = prio_bmap s"
  "rq (set_delta x d s) = rq s"
  "wait_qs (set_delta x d s) = wait_qs s"
  "handling_timeouts (set_delta x d s) = handling_timeouts s"
  "time_slice_elapsed (set_delta x d s) = time_slice_elapsed s"
  "time_slice_duration (set_delta x d s) = time_slice_duration s"
  "time_slice_prio_ceiling (set_delta x d s) = time_slice_prio_ceiling s"
  "sys_clock_tick_count (set_delta x d s) = sys_clock_tick_count s"
  "fault (set_delta x d s) = fault s"
  by (simp_all add: set_delta_def)

lemma remaining_None [simp]: "remaining_ticks d q x = None \<longleftrightarrow> x \<notin> set q"
  by (induction q) auto

lemma remaining_cong:
  "(\<And>y. y \<in> set q \<Longrightarrow> d' y = d y) \<Longrightarrow> remaining_ticks d' q x = remaining_ticks d q x"
  by (induction q) auto

lemma remaining_ge_delta:
  assumes "remaining_ticks d q x = Some r" and "\<forall>y\<in>set q. 0 \<le> d y"
  shows "d x \<le> r"
  using assms by (induction q arbitrary: r) (fastforce split: if_splits)+

text \<open>Removing a timeout after adding its delta to its successor leaves the others as they were.\<close>

definition drop_delta :: "toid \<Rightarrow> toid list \<Rightarrow> (toid \<Rightarrow> int) \<Rightarrow> toid \<Rightarrow> int" where
  "drop_delta x q d = (case next_node x q of Some y \<Rightarrow> d(y := d y + d x) | None \<Rightarrow> d)"

lemma next_node_simps [simp]:
  "next_node x [] = None"
  "next_node x [y] = None"
  "next_node x (y # z # q) = (if y = x then Some z else next_node x (z # q))"
  by (simp_all add: next_node_def)

lemma next_node_in: "next_node x q = Some y \<Longrightarrow> y \<in> set q"
  by (induction q rule: induct_list012) (auto split: if_splits)

lemma next_node_neq: "next_node x q = Some y \<Longrightarrow> distinct q \<Longrightarrow> y \<noteq> x"
  by (induction q rule: induct_list012) (auto split: if_splits dest: next_node_in)

lemma next_node_None:
  "next_node x q = None \<longleftrightarrow> x \<notin> set q \<or> last q = x" if "distinct q"
  using that by (induction q rule: induct_list012) auto

lemma remaining_drop_delta:
  assumes "distinct q"
  shows "remaining_ticks (drop_delta x q d) (remove1 x q) z =
    (if z = x then None else remaining_ticks d q z)"
  using assms
proof (induction q rule: induct_list012)
  case (3 y y' q)
  show ?case
  proof (cases "y = x")
    case True
    with 3(3) have "remaining_ticks (d(y' := d y' + d x)) q z = remaining_ticks d q z"
      by (intro remaining_cong) auto
    with True 3(3) show ?thesis
      by (auto simp: drop_delta_def option.map_comp comp_def fun_upd_def intro!: option.map_cong)
  next
    case False
    have "drop_delta x (y # y' # q) d = drop_delta x (y' # q) d"
      using False by (simp add: drop_delta_def)
    moreover have "drop_delta x (y' # q) d y = d y"
      using 3(3) next_node_in [of x "y' # q"] by (auto simp: drop_delta_def split: option.splits)
    ultimately show ?thesis
      using False 3 by (auto simp del: remove1.simps(2) simp add: remove1.simps(2) [of x y])
  qed
qed (auto simp: drop_delta_def)

section \<open>Adding a timeout\<close>

lemma add_timeout_loop_sel [simp]:
  "nested (add_timeout_loop x v q s) = nested s"
  "current (add_timeout_loop x v q s) = current s"
  "idle_thread (add_timeout_loop x v q s) = idle_thread s"
  "threads (add_timeout_loop x v q s) = threads s"
  "timers (add_timeout_loop x v q s) = timers s"
  "cache (add_timeout_loop x v q s) = cache s"
  "prio_bmap (add_timeout_loop x v q s) = prio_bmap s"
  "rq (add_timeout_loop x v q s) = rq s"
  "wait_qs (add_timeout_loop x v q s) = wait_qs s"
  "handling_timeouts (add_timeout_loop x v q s) = handling_timeouts s"
  "fault (add_timeout_loop x v q s) = fault s"
  "to_thread (timeouts (add_timeout_loop x v q s) y) = to_thread (timeouts s y)"
  "to_wait_q (timeouts (add_timeout_loop x v q s) y) = to_wait_q (timeouts s y)"
  "to_func (timeouts (add_timeout_loop x v q s) y) = to_func (timeouts s y)"
  by (induction x v q s rule: add_timeout_loop.induct) auto

lemma add_timeout_loop_queue:
  assumes "x \<notin> set q" and "distinct q"
  obtains q' where "timeout_q (add_timeout_loop x v q s) = v @ q'"
    and "set q' = insert x (set q)" and "distinct q'"
    and "\<And>z. remaining_ticks (delta (add_timeout_loop x v q s)) q' z =
          (if z = x then Some (delta s x) else remaining_ticks (delta s) q z)"
    and "\<And>z. z \<notin> set q' \<Longrightarrow> delta (add_timeout_loop x v q s) z = delta s z"
    and "0 \<le> delta s x \<Longrightarrow> \<forall>z\<in>set q. 0 \<le> delta s z \<Longrightarrow>
          \<forall>z\<in>set q'. 0 \<le> delta (add_timeout_loop x v q s) z"
  using assms
proof (induction q arbitrary: v s thesis)
  case Nil
  show ?case
    by (rule Nil(1) [of "[x]"]) auto
next
  case (Cons y q)
  show ?case
  proof (cases "delta s x \<le> delta s y")
    case True
    have "remaining_ticks (\<lambda>z. delta_ticks_from_prev (((timeouts s)(y := t)) z)) q z =
        remaining_ticks (delta s) q z" for t z
      using Cons.prems by (intro remaining_cong) auto
    with True Cons.prems show ?thesis
      by (intro Cons.prems(1) [of "x # y # q"])
        (auto simp: option.map_comp comp_def intro!: option.map_cong)
  next
    case False
    let ?s = "set_delta x (delta s x - delta s y) s"
    obtain q' where q': "timeout_q (add_timeout_loop x (v @ [y]) q ?s) = (v @ [y]) @ q'"
      "set q' = insert x (set q)" "distinct q'"
      "\<And>z. remaining_ticks (delta (add_timeout_loop x (v @ [y]) q ?s)) q' z =
          (if z = x then Some (delta ?s x) else remaining_ticks (delta ?s) q z)"
      "\<And>z. z \<notin> set q' \<Longrightarrow> delta (add_timeout_loop x (v @ [y]) q ?s) z = delta ?s z"
      "0 \<le> delta ?s x \<Longrightarrow> \<forall>z\<in>set q. 0 \<le> delta ?s z \<Longrightarrow>
          \<forall>z\<in>set q'. 0 \<le> delta (add_timeout_loop x (v @ [y]) q ?s) z"
      using Cons.IH [of "v @ [y]" ?s] Cons.prems by auto
    have *: "remaining_ticks (delta ?s) q z = remaining_ticks (delta s) q z" for z
      using Cons.prems by (intro remaining_cong) auto
    have loop: "add_timeout_loop x v (y # q) s = add_timeout_loop x (v @ [y]) q ?s"
      using False by simp
    have y: "delta (add_timeout_loop x (v @ [y]) q ?s) y = delta s y"
      using q'(2,5) Cons.prems by auto
    have rem: "remaining_ticks (delta (add_timeout_loop x (v @ [y]) q ?s)) (y # q') z =
        (if z = x then Some (delta s x) else remaining_ticks (delta s) (y # q) z)" for z
      using q'(4) [of z] Cons.prems unfolding remaining_ticks.simps y * by auto
    show ?thesis
    proof (rule Cons.prems(1) [of "y # q'"], unfold loop)
      show "\<forall>z\<in>set (y # q'). 0 \<le> delta (add_timeout_loop x (v @ [y]) q ?s) z"
        if "0 \<le> delta s x" "\<forall>z\<in>set (y # q). 0 \<le> delta s z"
        using q'(6) that False y by simp
    qed (use q'(1-3,5) Cons.prems rem in auto)
  qed
qed

section \<open>Aborting a timeout\<close>

lemma abort_timeout_sel [simp]:
  "nested (fst (abort_timeout x s)) = nested s"
  "current (fst (abort_timeout x s)) = current s"
  "idle_thread (fst (abort_timeout x s)) = idle_thread s"
  "threads (fst (abort_timeout x s)) = threads s"
  "timers (fst (abort_timeout x s)) = timers s"
  "cache (fst (abort_timeout x s)) = cache s"
  "prio_bmap (fst (abort_timeout x s)) = prio_bmap s"
  "rq (fst (abort_timeout x s)) = rq s"
  "wait_qs (fst (abort_timeout x s)) = wait_qs s"
  "handling_timeouts (fst (abort_timeout x s)) = handling_timeouts s"
  "to_thread (timeouts (fst (abort_timeout x s)) y) = to_thread (timeouts s y)"
  "to_wait_q (timeouts (fst (abort_timeout x s)) y) = to_wait_q (timeouts s y)"
  "to_func (timeouts (fst (abort_timeout x s)) y) = to_func (timeouts s y)"
  "snd (abort_timeout x s) = (if delta s x = INACTIVE then INACTIVE else 0)"
  by (simp_all add: abort_timeout_def Let_def split: option.split)

lemma abort_timeout_inactive: "delta s x = INACTIVE \<Longrightarrow> abort_timeout x s = (s, INACTIVE)"
  by (simp add: abort_timeout_def)

lemma abort_timeout_queue:
  assumes "distinct (timeout_q s)" and "x \<in> set (timeout_q s)" and "delta s x \<noteq> INACTIVE"
  shows "timeout_q (fst (abort_timeout x s)) = remove1 x (timeout_q s)"
    and "fault (fst (abort_timeout x s)) = fault s"
    and "delta (fst (abort_timeout x s)) z =
      (if z = x then INACTIVE else drop_delta x (timeout_q s) (delta s) z)"
proof -
  have ne: "timeout_q s \<noteq> []"
    using assms(2) by auto
  show "timeout_q (fst (abort_timeout x s)) = remove1 x (timeout_q s)"
    using assms(3) by (simp add: abort_timeout_def Let_def split: option.split)
  show "fault (fst (abort_timeout x s)) = fault s"
    using assms ne next_node_None [OF assms(1), of x]
    by (auto simp: abort_timeout_def Let_def split: option.split)
  show "delta (fst (abort_timeout x s)) z =
      (if z = x then INACTIVE else drop_delta x (timeout_q s) (delta s) z)"
    using assms ne next_node_None [OF assms(1), of x]
    by (cases "next_node x (timeout_q s)") (auto simp: abort_timeout_def Let_def drop_delta_def)
qed

end
