(* ===== verification/Kernel_Inv.thy ===== *)
theory Kernel_Inv
  imports Timeout
begin

text \<open>
  The invariant of the kernel: ready queue, wait queues and timeout queue together.

  \<open>kinv X s\<close> says that every thread outside \<open>X\<close> is where its state says it is: on the
  ready queue exactly when it is ready, on one wait queue exactly when it is pending; that
  a timeout is linked on the timeout queue when it is active and records the thread and
  the wait queue it belongs to; and that no assertion has failed. \<open>X\<close> holds the threads
  an operation has taken off a queue and not yet put on another. The lemmas of this theory
  give the steps the kernel objects are built from: unpend, abort a timeout, ready, remove,
  pend.
\<close>

definition wq_inv :: "tid set \<Rightarrow> kernel \<Rightarrow> bool" where
  "wq_inv X s \<longleftrightarrow>
     (\<forall>w. distinct (wait_qs s w)) \<and>
     (\<forall>w t. t \<in> set (wait_qs s w) \<longrightarrow> is_thread_pending t s \<and> t \<notin> X) \<and>
     (\<forall>w w' t. t \<in> set (wait_qs s w) \<longrightarrow> t \<in> set (wait_qs s w') \<longrightarrow> w = w') \<and>
     (\<forall>t. t \<notin> X \<longrightarrow> is_thread_pending t s \<longrightarrow> (\<exists>w. t \<in> set (wait_qs s w)))"

abbreviation rem_ticks :: "kernel \<Rightarrow> toid \<Rightarrow> int option" where
  "rem_ticks s x \<equiv> remaining_ticks (delta s) (timeout_q s) x"

definition tq_inv :: "kernel \<Rightarrow> bool" where
  "tq_inv s \<longleftrightarrow>
     distinct (timeout_q s) \<and>
     (\<forall>x\<in>set (timeout_q s). 0 \<le> delta s x) \<and>
     (\<forall>x r. rem_ticks s x = Some r \<longrightarrow> 0 < r \<and> r < 2 ^ 31) \<and>
     (\<forall>x. x \<notin> set (timeout_q s) \<longrightarrow>
        delta s x = INACTIVE \<or> delta s x = EXPIRED \<and> handling_timeouts s)"

definition waits_at :: "tid \<Rightarrow> wqid option \<Rightarrow> kernel \<Rightarrow> bool" where
  "waits_at t w s \<longleftrightarrow>
     (case w of Some w \<Rightarrow> t \<in> set (wait_qs s w) | None \<Rightarrow> \<not> is_thread_pending t s)"

definition link_inv :: "tid set \<Rightarrow> kernel \<Rightarrow> bool" where
  "link_inv X s \<longleftrightarrow>
     (\<forall>t. delta s (TThread t) \<noteq> INACTIVE \<longrightarrow>
        to_thread (timeouts s (TThread t)) = Some t \<and>
        (t \<notin> X \<longrightarrow> waits_at t (to_wait_q (timeouts s (TThread t))) s)) \<and>
     (\<forall>i. delta s (TTimer i) \<noteq> INACTIVE \<longrightarrow> to_thread (timeouts s (TTimer i)) = None)"

definition kinv :: "tid set \<Rightarrow> kernel \<Rightarrow> bool" where
  "kinv X s \<longleftrightarrow> rq_inv X s \<and> wq_inv X s \<and> tq_inv s \<and> link_inv X s \<and> \<not> fault s"

lemma kinvI:
  "rq_inv X s \<Longrightarrow> wq_inv X s \<Longrightarrow> tq_inv s \<Longrightarrow> link_inv X s \<Longrightarrow> \<not> fault s \<Longrightarrow> kinv X s"
  by (simp add: kinv_def)

lemma kinvD:
  assumes "kinv X s"
  shows "rq_inv X s" "wq_inv X s" "tq_inv s" "link_inv X s" "\<not> fault s" "prio_wf s"
  using assms by (simp_all add: kinv_def rq_inv_def)

section \<open>Frame rules\<close>

lemma is_thread_pending_cong:
  "thread_state (threads s' t) = thread_state (threads s t) \<Longrightarrow>
     is_thread_pending t s' = is_thread_pending t s"
  by (simp add: is_thread_pending_def)

lemma wq_inv_cong:
  assumes "wait_qs s' = wait_qs s" and "\<And>t. is_thread_pending t s' = is_thread_pending t s"
  shows "wq_inv X s' = wq_inv X s"
  using assms by (simp add: wq_inv_def)

lemma tq_inv_cong:
  assumes "timeout_q s' = timeout_q s" and "\<And>x. delta s' x = delta s x"
    and "handling_timeouts s' = handling_timeouts s"
  shows "tq_inv s' = tq_inv s"
  using assms by (simp add: tq_inv_def)

lemma link_inv_cong:
  assumes "wait_qs s' = wait_qs s" and "timeouts s' = timeouts s"
    and "\<And>t. is_thread_pending t s' = is_thread_pending t s"
  shows "link_inv X s' = link_inv X s"
  using assms by (simp add: link_inv_def waits_at_def split: option.split)

lemma link_inv_mono:
  assumes "link_inv X s" and "\<And>x. delta s' x \<noteq> INACTIVE \<Longrightarrow> delta s x \<noteq> INACTIVE"
    and "\<And>x. to_thread (timeouts s' x) = to_thread (timeouts s x)"
    and "\<And>t. t \<notin> X' \<Longrightarrow> to_wait_q (timeouts s' (TThread t)) = to_wait_q (timeouts s (TThread t))"
    and "\<And>t w. t \<notin> X' \<Longrightarrow> waits_at t w s \<Longrightarrow> t \<notin> X \<Longrightarrow> waits_at t w s'" and "X \<subseteq> X'"
  shows "link_inv X' s'"
  using assms unfolding link_inv_def by (metis subsetD)

text \<open>States that differ in nothing the invariant reads.\<close>

lemma kinv_cong:
  assumes "\<And>t. prio (threads s' t) = prio (threads s t)"
    and "\<And>t. thread_state (threads s' t) = thread_state (threads s t)"
    and "timeouts s' = timeouts s" "timeout_q s' = timeout_q s" "rq s' = rq s"
    and "prio_bmap s' = prio_bmap s" "cache s' = cache s" "wait_qs s' = wait_qs s"
    and "idle_thread s' = idle_thread s" "handling_timeouts s' = handling_timeouts s"
    and "fault s' = fault s"
  shows "kinv X s' = kinv X s"
proof -
  have "rq_inv X s' = rq_inv X s"
    by (rule rq_inv_cong) (use assms in \<open>simp_all add: is_thread_ready_bits\<close>)
  moreover have "wq_inv X s' = wq_inv X s"
    by (rule wq_inv_cong) (use assms in \<open>simp_all add: is_thread_pending_def\<close>)
  moreover have "tq_inv s' = tq_inv s"
    by (rule tq_inv_cong) (use assms in auto)
  moreover have "link_inv X s' = link_inv X s"
    by (rule link_inv_cong) (use assms in \<open>simp_all add: is_thread_pending_def\<close>)
  ultimately show ?thesis
    using assms(11) by (simp add: kinv_def)
qed

lemma kinv_frame [simp]:
  "kinv X (Swap s) = kinv X s"
  "kinv X (reschedule_threads s) = kinv X s"
  "kinv X (upd_timer i h s) = kinv X s"
  "kinv X (upd_thread t (\<lambda>b. b\<lparr>return_value := v\<rparr>) s) = kinv X s"
  "kinv X (upd_thread t (\<lambda>b. b\<lparr>swap_data := d\<rparr>) s) = kinv X s"
  "kinv X (upd_thread t (\<lambda>b. b\<lparr>sched_locked := l\<rparr>) s) = kinv X s"
  "kinv X (s\<lparr>time_slice_elapsed := e\<rparr>) = kinv X s"
  "kinv X (s\<lparr>sys_clock_tick_count := c\<rparr>) = kinv X s"
  "kinv X (s\<lparr>current := u\<rparr>) = kinv X s"
  "kinv X (s\<lparr>nested := n\<rparr>) = kinv X s"
  by (rule kinv_cong; simp add: reschedule_threads_def)+

lemma kinv_kassert: "kinv X (kassert c s) \<longleftrightarrow> c \<and> kinv X s"
  by (cases c) (auto simp: kassert_def kinv_def)

section \<open>Threads in transit\<close>

lemma not_ready_pending: "is_thread_pending t s \<Longrightarrow> \<not> is_thread_ready t s"
  by (simp add: is_thread_pending_bit is_thread_ready_bits runnable_state_def)

lemma kinv_not_on_rq:
  assumes "kinv X s" and "t \<in> X \<or> \<not> is_thread_ready t s"
  shows "t \<notin> set (rq s i)"
  using rq_invD(5) [OF kinvD(1) [OF assms(1)], of t] assms(2) by (auto simp: on_rq_def)

lemma kinv_not_waiting:
  assumes "kinv X s" and "t \<in> X \<or> \<not> is_thread_pending t s"
  shows "t \<notin> set (wait_qs s w)"
  using kinvD(2) [OF assms(1)] assms(2) by (auto simp: wq_inv_def)

lemma idle_not_transit: "kinv X s \<Longrightarrow> idle_thread s \<notin> X \<and> is_thread_ready (idle_thread s) s"
  using rq_invD(4) [OF kinvD(1)] rq_invD(5) [OF kinvD(1)] by (fastforce simp: on_rq_def)

text \<open>A thread that is neither ready nor pending is on no queue: it may enter transit.\<close>

lemma kinv_take:
  assumes "kinv X s" and "\<not> is_thread_ready t s" and "\<not> is_thread_pending t s"
  shows "kinv (insert t X) s"
proof (rule kinvI)
  show "rq_inv (insert t X) s"
    using assms kinvD by (blast intro: rq_inv_insert)
  show "wq_inv (insert t X) s"
    using kinvD(2) [OF assms(1)] assms(3) by (auto simp: wq_inv_def)
  show "link_inv (insert t X) s"
    using kinvD(4) [OF assms(1)] by (auto simp: link_inv_def)
qed (use kinvD [OF assms(1)] in auto)

text \<open>Any change to the state bits of a thread in transit.\<close>

lemma kinv_upd_transit:
  assumes inv: "kinv X s" and t: "t \<in> X" and f: "\<And>b. prio (f b) = prio b"
  shows "kinv X (upd_thread t f s)"
proof (rule kinvI)
  have pend: "is_thread_pending u (upd_thread t f s) = is_thread_pending u s" if "u \<notin> X" for u
    using that t by (auto simp: is_thread_pending_def)
  show "rq_inv X (upd_thread t f s)"
    using kinvD(1) [OF inv] t f by (rule rq_inv_upd_transit)
  show "wq_inv X (upd_thread t f s)"
    using kinvD(2) [OF inv] pend by (simp add: wq_inv_def)
  show "tq_inv (upd_thread t f s)"
    using kinvD(3) [OF inv] by (subst tq_inv_cong) auto
  show "link_inv X (upd_thread t f s)"
    using kinvD(4) [OF inv]
    by (rule link_inv_mono) (auto simp: waits_at_def pend split: option.splits)
qed (use kinvD(5) [OF inv] in simp)

lemma kinv_settle:
  assumes inv: "kinv (insert t X) s" and "\<not> is_thread_ready t s" "\<not> is_thread_pending t s"
    and "delta s (TThread t) \<noteq> INACTIVE \<longrightarrow> to_wait_q (timeouts s (TThread t)) = None"
  shows "kinv (X - {t}) s"
proof (rule kinvI)
  show "rq_inv (X - {t}) s"
    using kinvD(1) [OF inv] assms(2) by (rule rq_inv_delete)
  show "wq_inv (X - {t}) s"
    using kinvD(2) [OF inv] assms(3) by (auto simp: wq_inv_def)
  show "link_inv (X - {t}) s"
    using kinvD(4) [OF inv] assms(3,4) by (auto simp: link_inv_def waits_at_def split: option.split)
qed (use kinvD [OF inv] in auto)

section \<open>Unpending\<close>

lemma unpend_thread_eq:
  assumes inv: "kinv X s" and t: "t \<in> set (wait_qs s w)"
  shows "unpend_thread t s =
    upd_thread t (\<lambda>b. b\<lparr>thread_state := thread_state b AND NOT THREAD_PENDING\<rparr>)
      (s\<lparr>wait_qs := (wait_qs s)(w := remove1 t (wait_qs s w))\<rparr>)"
proof -
  note wq = kinvD(2) [OF inv]
  have p: "is_thread_pending t s"
    using wq t by (auto simp: wq_inv_def)
  have "remove1 t (rq s i) = rq s i" for i
    using kinv_not_on_rq [OF inv] not_ready_pending [OF p] by (auto intro: remove1_idem)
  moreover have "(\<lambda>v. remove1 t (wait_qs s v)) = (wait_qs s)(w := remove1 t (wait_qs s w))"
    using wq t by (auto simp: fun_eq_iff wq_inv_def intro!: remove1_idem)
  ultimately show ?thesis
    using p by (simp add: unpend_thread_def dlist_remove_k_q_node_def)
qed

lemma not_pending_and_not: "\<not> bit ((w :: u8) AND NOT THREAD_PENDING) 1"
  unfolding bit_and_iff bit_not_iff by simp

lemmas not_pending_and_not' [simp] = not_pending_and_not [simplified]

lemma kinv_dequeue_waiter:
  assumes inv: "kinv X s" and t: "t \<in> set (wait_qs s w)"
    and s': "s' = s\<lparr>wait_qs := (wait_qs s)(w := remove1 t (wait_qs s w))\<rparr>"
  shows "kinv (insert t X) s'"
proof (rule kinvI)
  note wq = kinvD(2) [OF inv]
  have p: "is_thread_pending t s"
    using wq t by (auto simp: wq_inv_def)
  have eq: "is_thread_pending u s' = is_thread_pending u s" "is_thread_ready u s' = is_thread_ready u s" for u
    by (simp_all add: s' is_thread_pending_def is_thread_ready_bits)
  have mem: "u \<in> set (wait_qs s' v) \<longleftrightarrow> u \<in> set (wait_qs s v) \<and> u \<noteq> t" for u v
    using wq t by (auto simp: s' wq_inv_def)
  have "rq_inv (insert t X) s"
    using kinvD(1) [OF inv] not_ready_pending [OF p] by (rule rq_inv_insert)
  then show "rq_inv (insert t X) s'"
    by (subst rq_inv_cong [where s = s]) (simp_all add: eq, simp_all add: s')
  show "wq_inv (insert t X) s'"
    using wq unfolding wq_inv_def mem eq by (auto simp: s')
  show "tq_inv s'"
    using kinvD(3) [OF inv] by (subst tq_inv_cong [where s = s]) (simp_all add: s')
  show "link_inv (insert t X) s'"
    using kinvD(4) [OF inv]
    by (rule link_inv_mono)
      (auto simp: waits_at_def mem eq split: option.splits, auto simp: s')
qed (use kinvD(5) [OF inv] in \<open>simp add: s'\<close>)

lemma kinv_unpend [inv_intros]:
  assumes inv: "kinv X s" and t: "t \<in> set (wait_qs s w)"
  shows "kinv (insert t X) (unpend_thread t s)"
  unfolding unpend_thread_eq [OF assms]
  by (rule kinv_upd_transit) (use kinv_dequeue_waiter [OF assms] in auto)

lemma unpend_first_None:
  "unpend_first_thread w s = (s', None) \<Longrightarrow> s' = s \<and> find_first_thread_to_unpend w None s = None"
  by (auto simp: unpend_first_thread_def split: option.splits)

lemma find_first_Some:
  assumes "kinv X s" and "find_first_thread_to_unpend w None s = Some t"
  shows "t \<in> set (wait_qs s w)" "delta s (TThread t) \<noteq> EXPIRED"
proof -
  show t: "t \<in> set (wait_qs s w)"
    using assms(2)
    by (auto simp: find_first_thread_to_unpend_def find_Some_iff split: if_splits list.splits)
  show "delta s (TThread t) \<noteq> EXPIRED"
  proof (cases "handling_timeouts s")
    case True
    then show ?thesis
      using assms(2) by (auto simp: find_first_thread_to_unpend_def find_Some_iff is_thread_timeout_expired_def)
  next
    case False
    then show ?thesis
      using kinvD(3) [OF assms(1)] unfolding tq_inv_def
      by (cases "TThread t \<in> set (timeout_q s)") force+
  qed
qed

section \<open>Timeouts\<close>

lemma kinv_timeouts_change:
  assumes inv: "kinv X s" and "tq_inv s'" and "link_inv X s'"
    and "threads s' = threads s" "rq s' = rq s" "prio_bmap s' = prio_bmap s" "cache s' = cache s"
    and "wait_qs s' = wait_qs s" "idle_thread s' = idle_thread s" "fault s' = fault s"
    and "\<And>u. u \<notin> X \<Longrightarrow> delta s' (TThread u) = INACTIVE \<longleftrightarrow> delta s (TThread u) = INACTIVE"
  shows "kinv X s'"
proof (rule kinvI)
  show "rq_inv X s'"
    using kinvD(1) [OF inv] assms
    by (subst rq_inv_cong [where s = s]) (auto simp: is_thread_ready_bits)
  show "wq_inv X s'"
    using kinvD(2) [OF inv] assms
    by (subst wq_inv_cong [where s = s]) (auto simp: is_thread_pending_def)
qed (use assms kinvD(5) [OF inv] in auto)

lemma drop_delta_inactive:
  assumes "tq_inv s" and "x \<in> set (timeout_q s)"
  shows "drop_delta x (timeout_q s) (delta s) z = INACTIVE \<longleftrightarrow> delta s z = INACTIVE"
    and "z \<in> set (timeout_q s) \<Longrightarrow> 0 \<le> drop_delta x (timeout_q s) (delta s) z"
    and "z \<notin> set (timeout_q s) \<Longrightarrow> drop_delta x (timeout_q s) (delta s) z = delta s z"
proof -
  have pos: "0 \<le> delta s y" if "y \<in> set (timeout_q s)" for y
    using that assms(1) by (auto simp: tq_inv_def)
  note nn = next_node_in [of x "timeout_q s"]
  have *: "0 \<le> delta s y + delta s x" if "y \<in> set (timeout_q s)" for y
    using pos [OF that] pos [OF assms(2)] by simp
  show "drop_delta x (timeout_q s) (delta s) z = INACTIVE \<longleftrightarrow> delta s z = INACTIVE"
    using nn * [of z] pos [of z] by (auto simp: drop_delta_def split: option.splits)
  show "z \<in> set (timeout_q s) \<Longrightarrow> 0 \<le> drop_delta x (timeout_q s) (delta s) z"
    using * [of z] pos [of z] by (auto simp: drop_delta_def split: option.splits)
  show "z \<notin> set (timeout_q s) \<Longrightarrow> drop_delta x (timeout_q s) (delta s) z = delta s z"
    using nn by (auto simp: drop_delta_def split: option.splits)
qed

lemma tq_inv_abort:
  assumes inv: "tq_inv s" and x: "delta s x \<noteq> EXPIRED"
  shows "tq_inv (fst (abort_timeout x s))"
    and "fault (fst (abort_timeout x s)) = fault s"
    and "rem_ticks (fst (abort_timeout x s)) z = (if z = x then None else rem_ticks s z)"
    and "delta (fst (abort_timeout x s)) x = INACTIVE"
    and "z \<noteq> x \<Longrightarrow> delta (fst (abort_timeout x s)) z = INACTIVE \<longleftrightarrow> delta s z = INACTIVE"
proof -
  let ?s = "fst (abort_timeout x s)"
  have "tq_inv ?s \<and> fault ?s = fault s \<and> (\<forall>z. rem_ticks ?s z = (if z = x then None else rem_ticks s z)) \<and>
    delta ?s x = INACTIVE \<and> (\<forall>z. z \<noteq> x \<longrightarrow> (delta ?s z = INACTIVE \<longleftrightarrow> delta s z = INACTIVE))"
  proof (cases "delta s x = INACTIVE")
    case True
    then have "x \<notin> set (timeout_q s)"
      using inv by (fastforce simp: tq_inv_def)
    with True inv show ?thesis
      by (simp add: abort_timeout_inactive)
  next
    case False
    then have xq: "x \<in> set (timeout_q s)" and d: "distinct (timeout_q s)"
      using inv x by (auto simp: tq_inv_def)
    note q = abort_timeout_queue [OF d xq False]
    note dd = drop_delta_inactive [OF inv xq]
    have rem: "rem_ticks ?s z = (if z = x then None else rem_ticks s z)" for z
      using remaining_drop_delta [OF d, of x "delta s" z] d
      by (subst remaining_cong [where d = "drop_delta x (timeout_q s) (delta s)"]) (auto simp: q)
    have "tq_inv ?s"
      using inv d dd unfolding tq_inv_def rem by (auto simp: q)
    with rem q dd show ?thesis
      by simp
  qed
  then show "tq_inv ?s" "fault ?s = fault s" "rem_ticks ?s z = (if z = x then None else rem_ticks s z)"
    "delta ?s x = INACTIVE" "z \<noteq> x \<Longrightarrow> delta ?s z = INACTIVE \<longleftrightarrow> delta s z = INACTIVE"
    by auto
qed

lemma kinv_abort_timeout [inv_intros]:
  assumes inv: "kinv X s" and x: "delta s x \<noteq> EXPIRED" and t: "\<And>t. x = TThread t \<Longrightarrow> t \<in> X"
  shows "kinv X (fst (abort_timeout x s))"
proof (rule kinv_timeouts_change [OF inv])
  note a = tq_inv_abort [OF kinvD(3) [OF inv] x]
  have pend: "is_thread_pending u (fst (abort_timeout x s)) = is_thread_pending u s" for u
    by (simp add: is_thread_pending_def)
  have ina: "delta (fst (abort_timeout x s)) z \<noteq> INACTIVE \<Longrightarrow> delta s z \<noteq> INACTIVE" for z
    using a(4) a(5) [of z] by (cases "z = x") auto
  show "link_inv X (fst (abort_timeout x s))"
    using kinvD(4) [OF inv] ina
    by (rule link_inv_mono) (auto simp: waits_at_def pend split: option.splits)
  show "delta (fst (abort_timeout x s)) (TThread u) = INACTIVE \<longleftrightarrow> delta s (TThread u) = INACTIVE"
    if "u \<notin> X" for u
    using a(5) [of "TThread u"] t [of u] that by auto
qed (use tq_inv_abort [OF kinvD(3) [OF inv] x] in simp_all)

lemma add_timeout_nonzero:
  "0 < ticks \<Longrightarrow> add_timeout call th x w ticks s =
     add_timeout_loop x [] (timeout_q s)
       (upd_timeout x (\<lambda>t. t\<lparr>delta_ticks_from_prev := ticks, to_thread := th, to_wait_q := w\<rparr>) s)"
  by (simp add: add_timeout_def)

lemma tq_inv_add_timeout:
  assumes inv: "tq_inv s" and x: "delta s x = INACTIVE" and ticks: "0 < ticks" "ticks < 2 ^ 31"
  shows "tq_inv (add_timeout call th x w ticks s)"
    and "rem_ticks (add_timeout call th x w ticks s) z = (if z = x then Some ticks else rem_ticks s z)"
    and "delta (add_timeout call th x w ticks s) z = INACTIVE \<longleftrightarrow> z \<noteq> x \<and> delta s z = INACTIVE"
proof -
  let ?s = "upd_timeout x (\<lambda>t. t\<lparr>delta_ticks_from_prev := ticks, to_thread := th, to_wait_q := w\<rparr>) s"
  let ?s' = "add_timeout_loop x [] (timeout_q s) ?s"
  have xq: "x \<notin> set (timeout_q s)" and d: "distinct (timeout_q s)"
    and pos: "\<forall>z\<in>set (timeout_q s). 0 \<le> delta ?s z"
    using inv x ticks by (fastforce simp: tq_inv_def)+
  obtain q' where q': "timeout_q ?s' = q'" "set q' = insert x (set (timeout_q s))" "distinct q'"
    "\<And>z. remaining_ticks (delta ?s') q' z =
        (if z = x then Some (delta ?s x) else remaining_ticks (delta ?s) (timeout_q s) z)"
    "\<And>z. z \<notin> set q' \<Longrightarrow> delta ?s' z = delta ?s z"
    "\<forall>z\<in>set q'. 0 \<le> delta ?s' z"
    using add_timeout_loop_queue [OF xq d, of "[]" ?s] pos ticks by auto
  have same: "remaining_ticks (delta ?s) (timeout_q s) z = rem_ticks s z" for z
    using xq by (intro remaining_cong) auto
  note add = add_timeout_nonzero [OF ticks(1), of call th x w s]
  show rem: "rem_ticks (add_timeout call th x w ticks s) z = (if z = x then Some ticks else rem_ticks s z)" for z
    unfolding add q'(1) using q'(4) [of z] same [of z] by simp
  show "tq_inv (add_timeout call th x w ticks s)"
    using inv ticks q' rem unfolding tq_inv_def add by auto
  show "delta (add_timeout call th x w ticks s) z = INACTIVE \<longleftrightarrow> z \<noteq> x \<and> delta s z = INACTIVE"
  proof (cases "z \<in> set q'")
    case True
    then have "0 \<le> delta ?s' z" "z \<noteq> x \<Longrightarrow> 0 \<le> delta s z"
      using q'(2,6) inv by (auto simp: tq_inv_def)
    then show ?thesis
      by (auto simp: add)
  next
    case False
    then show ?thesis
      using q'(2,5) by (auto simp: add)
  qed
qed

lemma add_timeout_sel:
  assumes "0 < ticks"
  shows "threads (add_timeout call th x w ticks s) = threads s"
    "timers (add_timeout call th x w ticks s) = timers s"
    "current (add_timeout call th x w ticks s) = current s"
    "nested (add_timeout call th x w ticks s) = nested s"
    "rq (add_timeout call th x w ticks s) = rq s"
    "prio_bmap (add_timeout call th x w ticks s) = prio_bmap s"
    "cache (add_timeout call th x w ticks s) = cache s"
    "wait_qs (add_timeout call th x w ticks s) = wait_qs s"
    "idle_thread (add_timeout call th x w ticks s) = idle_thread s"
    "handling_timeouts (add_timeout call th x w ticks s) = handling_timeouts s"
    "fault (add_timeout call th x w ticks s) = fault s"
    "to_thread (timeouts (add_timeout call th x w ticks s) z) = (if z = x then th else to_thread (timeouts s z))"
    "to_wait_q (timeouts (add_timeout call th x w ticks s) z) = (if z = x then w else to_wait_q (timeouts s z))"
    "to_func (timeouts (add_timeout call th x w ticks s) z) = to_func (timeouts s z)"
  by (simp_all add: add_timeout_nonzero [OF assms])

lemma kinv_add_timeout [inv_intros]:
  assumes inv: "kinv X s" and x: "delta s x = INACTIVE" and ticks: "0 < ticks" "ticks < 2 ^ 31"
    and th: "case x of TThread t \<Rightarrow> th = Some t \<and> t \<in> X | TTimer i \<Rightarrow> th = None"
  shows "kinv X (add_timeout call th x w ticks s)"
proof (rule kinv_timeouts_change [OF inv])
  let ?s = "add_timeout call th x w ticks s"
  note a = tq_inv_add_timeout [OF kinvD(3) [OF inv] x ticks, of call th w]
  note sel = add_timeout_sel [OF ticks(1), of call th x w s]
  have w: "waits_at u v ?s = waits_at u v s" for u v
    by (simp add: waits_at_def sel is_thread_pending_def split: option.split)
  show "link_inv X ?s"
    using kinvD(4) [OF inv] th unfolding link_inv_def w a(3) sel
    by (cases x) auto
  show "delta ?s (TThread u) = INACTIVE \<longleftrightarrow> delta s (TThread u) = INACTIVE" if "u \<notin> X" for u
    using a(3) [of "TThread u"] that th x by (auto split: toid.splits)
qed (use tq_inv_add_timeout [OF kinvD(3) [OF inv] x ticks] add_timeout_sel [OF ticks(1)] in simp_all)

section \<open>Readying and removing\<close>

lemma ready_thread_sel [simp]:
  "timeouts (ready_thread t s) = timeouts s"
  "timers (ready_thread t s) = timers s"
  "timeout_q (ready_thread t s) = timeout_q s"
  "wait_qs (ready_thread t s) = wait_qs s"
  "current (ready_thread t s) = current s"
  "nested (ready_thread t s) = nested s"
  "idle_thread (ready_thread t s) = idle_thread s"
  "handling_timeouts (ready_thread t s) = handling_timeouts s"
  "threads (ready_thread t s) =
     (threads s)(t := (threads s t)\<lparr>thread_state := thread_state (threads s t) AND NOT THREAD_PRESTART\<rparr>)"
  by (simp_all add: ready_thread_def Let_def)

lemma pending_not_prestart:
  "bit ((w :: u8) AND NOT THREAD_PRESTART) 1 = bit w 1"
  unfolding bit_and_iff bit_not_iff by simp

lemmas pending_not_prestart' [simp] = pending_not_prestart [simplified]

lemma pending_ready_thread [simp]: "is_thread_pending u (ready_thread t s) = is_thread_pending u s"
  by (simp add: is_thread_pending_bit)

lemma kinv_ready_thread [inv_intros]:
  assumes inv: "kinv (insert t X) s" and np: "\<not> is_thread_pending t s"
    and d: "delta s (TThread t) = INACTIVE"
  shows "kinv (X - {t}) (ready_thread t s)"
proof (rule kinvI)
  show "rq_inv (X - {t}) (ready_thread t s)"
    using kinvD(1) [OF inv] by (rule rq_inv_ready_thread)
  show "wq_inv (X - {t}) (ready_thread t s)"
    using kinvD(2) [OF inv] np by (auto simp: wq_inv_def)
  show "tq_inv (ready_thread t s)"
    using kinvD(3) [OF inv] by (subst tq_inv_cong [where s = s]) auto
  have w: "waits_at u v (ready_thread t s) = waits_at u v s" for u v
    by (simp add: waits_at_def split: option.split)
  show "link_inv (X - {t}) (ready_thread t s)"
    using kinvD(4) [OF inv] d unfolding link_inv_def w by (auto; metis)
qed (use fault_ready_thread [OF kinvD(6) [OF inv]] kinvD(5) [OF inv] in simp)

lemma kinv_remove_thread [inv_intros]:
  assumes inv: "kinv X s" and r: "is_thread_ready t s" and ne: "t \<noteq> idle_thread s"
  shows "kinv (insert t X) (remove_thread_from_ready_q t s)"
    and "wait_qs (remove_thread_from_ready_q t s) = wait_qs s"
proof -
  let ?s = "remove_thread_from_ready_q t s"
  have np: "\<not> is_thread_pending t s"
    using r not_ready_pending by blast
  show wq: "wait_qs ?s = wait_qs s"
    using kinv_not_waiting [OF inv] np by (auto simp: fun_eq_iff intro!: remove1_idem)
  have p: "is_thread_pending u ?s = is_thread_pending u s" for u
    by (simp add: is_thread_pending_def)
  show "kinv (insert t X) ?s"
  proof (rule kinvI)
    show "rq_inv (insert t X) ?s"
      using kinvD(1) [OF inv] ne by (rule rq_inv_remove)
    show "wq_inv (insert t X) ?s"
      using kinvD(2) [OF inv] np unfolding wq_inv_def wq p by auto
    show "tq_inv ?s"
      using kinvD(3) [OF inv] by (subst tq_inv_cong [where s = s]) auto
    show "link_inv (insert t X) ?s"
      using kinvD(4) [OF inv]
      by (rule link_inv_mono) (auto simp: waits_at_def wq p split: option.splits)
  qed (use fault_remove_thread [OF kinvD(1) [OF inv] ne] kinvD(5) [OF inv] in simp)
qed

section \<open>Pending\<close>

lemma ms_to_ticks_eq:
  assumes "0 \<le> ms" and "ms < 2 ^ 31"
  shows "ms_to_ticks ms = (ms + 1) div 2"
proof -
  have "uint ((word_of_int ms + (word_of_int 2 - 1)) div (word_of_int 2 :: u32)) = (ms + 1) div 2"
    using assms by (simp add: uint_div_distrib uint_word_ariths take_bit_int_eq_self unsigned_of_int)
  moreover have "sint w = uint w" if "uint w < 2 ^ 31" for w :: u32
    using that order_trans [OF _ uint_ge_0 [of w], of "- (2 ^ 31)"]
    by (simp add: sint_uint signed_take_bit_int_eq_self)
  ultimately show ?thesis
    using assms by (simp add: ms_to_ticks_def)
qed

definition timeout_ok :: "int \<Rightarrow> bool" where
  "timeout_ok timeout \<longleftrightarrow> timeout = K_FOREVER \<or> 0 \<le> timeout \<and> timeout < 2 ^ 31"

lemma ticks_ok:
  assumes "0 \<le> ms" and "ms < 2 ^ 31"
  shows "0 < TICK_ALIGN + ms_to_ticks ms" "TICK_ALIGN + ms_to_ticks ms < 2 ^ 31"
  using assms by (auto simp: ms_to_ticks_eq)

lemma set_insert_by_prio [simp]: "set (insert_by_prio p t q) = insert t (set q)"
  by (induction q) auto

lemma distinct_insert_by_prio [simp]: "distinct (insert_by_prio p t q) \<longleftrightarrow> t \<notin> set q \<and> distinct q"
  by (induction q) auto

lemma insert_by_prio_split:
  "\<exists>hi lo. q = hi @ lo \<and> insert_by_prio p t q = hi @ t # lo \<and>
     (\<forall>u\<in>set hi. p u \<le> p t) \<and> (lo \<noteq> [] \<longrightarrow> p t < p (hd lo))"
proof (induction q)
  case (Cons u q)
  then obtain hi lo where *: "q = hi @ lo" "insert_by_prio p t q = hi @ t # lo"
    "\<forall>u\<in>set hi. p u \<le> p t" "lo \<noteq> [] \<longrightarrow> p t < p (hd lo)"
    by blast
  show ?case
  proof (cases "p t < p u")
    case True
    then show ?thesis
      by (intro exI [of _ "[]"] exI [of _ "u # q"]) (auto simp: kernel_simps)
  next
    case False
    then show ?thesis
      using * by (intro exI [of _ "u # hi"] exI [of _ lo]) (auto simp: kernel_simps)
  qed
qed simp

lemma pend_thread_wait_qs:
  assumes "timeout_ok timeout"
  shows "wait_qs (pend_thread call t w timeout s) =
    (wait_qs s)(w := insert_by_prio (\<lambda>u. prio (threads s u)) t (wait_qs s w))"
  using assms ticks_ok [of timeout]
  by (auto simp: pend_thread_def insert_in_wait_q_def Let_def timeout_ok_def
      add_thread_timeout_def add_timeout_sel)

lemma or_pending [simp]: "bit ((w :: u8) OR THREAD_PENDING) (Suc 0)"
  by (simp add: bit_or_iff)

lemma kinv_enqueue_waiter:
  assumes inv: "kinv (insert t X) s" and p: "is_thread_pending t s"
    and l: "delta s (TThread t) \<noteq> INACTIVE \<longrightarrow> to_wait_q (timeouts s (TThread t)) = Some w"
    and s': "s' = insert_in_wait_q t w s"
  shows "kinv (X - {t}) s'"
proof (rule kinvI)
  note wq = kinvD(2) [OF inv]
  have eq: "is_thread_pending u s' = is_thread_pending u s" "is_thread_ready u s' = is_thread_ready u s" for u
    by (simp_all add: insert_in_wait_q_def s' is_thread_pending_def is_thread_ready_bits)
  have nt: "t \<notin> set (wait_qs s v)" for v
    using wq by (auto simp: wq_inv_def)
  have mem: "u \<in> set (wait_qs s' v) \<longleftrightarrow> u \<in> set (wait_qs s v) \<or> u = t \<and> v = w" for u v
    by (auto simp: insert_in_wait_q_def s')
  have "rq_inv (X - {t}) s"
    using kinvD(1) [OF inv] not_ready_pending [OF p] by (rule rq_inv_delete)
  then show "rq_inv (X - {t}) s'"
    by (subst rq_inv_cong [where s = s]) (simp_all add: eq, simp_all add: insert_in_wait_q_def s')
  have "distinct (wait_qs s' v)" for v
    using wq nt by (auto simp: insert_in_wait_q_def s' wq_inv_def)
  then show "wq_inv (X - {t}) s'"
    using wq p nt unfolding wq_inv_def mem eq by blast
  show "tq_inv s'"
    using kinvD(3) [OF inv] by (subst tq_inv_cong [where s = s]) (simp_all add: insert_in_wait_q_def s')
  have "waits_at u v s \<Longrightarrow> waits_at u v s'" for u v
    by (auto simp: waits_at_def mem eq split: option.splits)
  moreover have "waits_at t (Some w) s'"
    by (simp add: waits_at_def mem)
  moreover have "timeouts s' = timeouts s"
    by (simp add: insert_in_wait_q_def s')
  ultimately show "link_inv (X - {t}) s'"
    using kinvD(4) [OF inv] l unfolding link_inv_def by (metis DiffI insert_iff singletonD)
qed (use kinvD(5) [OF inv] in \<open>simp add: insert_in_wait_q_def s'\<close>)

lemma insert_in_wait_q_commute:
  "mark_thread_as_pending t (insert_in_wait_q t w s) = insert_in_wait_q t w (mark_thread_as_pending t s)"
  "0 < ticks \<Longrightarrow> add_timeout call th x v ticks (insert_in_wait_q t w s) =
     insert_in_wait_q t w (add_timeout call th x v ticks s)"
proof -
  show "mark_thread_as_pending t (insert_in_wait_q t w s) =
      insert_in_wait_q t w (mark_thread_as_pending t s)"
  proof (rule kernel.equality)
    have "(\<lambda>u. prio (threads (mark_thread_as_pending t s) u)) = (\<lambda>u. prio (threads s u))"
      by (simp add: fun_eq_iff)
    then show "wait_qs (mark_thread_as_pending t (insert_in_wait_q t w s)) =
        wait_qs (insert_in_wait_q t w (mark_thread_as_pending t s))"
      by (simp add: insert_in_wait_q_def)
  qed (simp_all add: insert_in_wait_q_def)
  have upd: "upd_timeout x f (insert_in_wait_q t w r) = insert_in_wait_q t w (upd_timeout x f r)" for x f r
    by (rule kernel.equality) (simp_all add: insert_in_wait_q_def)
  have sel: "timeouts (insert_in_wait_q t w r) = timeouts r" "timeout_q (insert_in_wait_q t w r) = timeout_q r"
    "(insert_in_wait_q t w r)\<lparr>timeout_q := q\<rparr> = insert_in_wait_q t w (r\<lparr>timeout_q := q\<rparr>)" for r q
    by (simp_all add: insert_in_wait_q_def)
  have loop: "add_timeout_loop x y xs (insert_in_wait_q t w r) =
      insert_in_wait_q t w (add_timeout_loop x y xs r)" for y xs r
    by (induction x y xs r rule: add_timeout_loop.induct)
      (simp_all add: sel upd set_delta_def)
  with sel upd show "0 < ticks \<Longrightarrow> add_timeout call th x v ticks (insert_in_wait_q t w s) =
     insert_in_wait_q t w (add_timeout call th x v ticks s)"
    by (simp add: add_timeout_nonzero)
qed

lemma kinv_pend_thread [inv_intros]:
  assumes inv: "kinv (insert t X) s" and d: "delta s (TThread t) = INACTIVE" and ok: "timeout_ok timeout"
  shows "kinv (X - {t}) (pend_thread call t w timeout s)"
proof -
  define s1 where "s1 = mark_thread_as_pending t s"
  define s2 where "s2 = (if timeout = K_FOREVER then s1 else
    add_timeout call (Some t) (TThread t) (Some w) (TICK_ALIGN + ms_to_ticks timeout) s1)"
  have s1: "kinv (insert t X) s1" "is_thread_pending t s1" "delta s1 (TThread t) = INACTIVE"
    using inv d by (auto simp: s1_def is_thread_pending_bit intro: kinv_upd_transit)
  have tk: "0 < TICK_ALIGN + ms_to_ticks timeout" "TICK_ALIGN + ms_to_ticks timeout < 2 ^ 31"
    if "timeout \<noteq> K_FOREVER"
    using that ok ticks_ok [of timeout] by (auto simp: timeout_ok_def)
  have "kinv (insert t X) s2"
    using s1 tk kinv_add_timeout [OF s1(1) s1(3)] by (auto simp: s2_def)
  moreover have "is_thread_pending t s2"
    using s1(2) tk by (auto simp: s2_def add_timeout_sel is_thread_pending_def)
  moreover have "delta s2 (TThread t) \<noteq> INACTIVE \<longrightarrow> to_wait_q (timeouts s2 (TThread t)) = Some w"
    using s1(3) tk by (auto simp: s2_def add_timeout_sel)
  ultimately have "kinv (X - {t}) (insert_in_wait_q t w s2)"
    by (intro kinv_enqueue_waiter [OF _ _ _ refl])
  moreover have "pend_thread call t w timeout s = insert_in_wait_q t w s2"
    using tk unfolding pend_thread_def Let_def s1_def s2_def add_thread_timeout_def
    by (simp add: insert_in_wait_q_commute del: mark_sel)
  ultimately show ?thesis
    by simp
qed

section \<open>Waking and blocking as composites\<close>

definition transit :: "tid \<Rightarrow> kernel \<Rightarrow> bool" where
  "transit t s \<longleftrightarrow> kinv {t} s \<and> \<not> is_thread_pending t s \<and> delta s (TThread t) \<noteq> EXPIRED"

lemma transit_frame [simp]:
  "transit t (upd_thread u (\<lambda>b. b\<lparr>return_value := v\<rparr>) s) = transit t s"
  "transit t (upd_thread u (\<lambda>b. b\<lparr>swap_data := d\<rparr>) s) = transit t s"
  by (simp_all add: transit_def is_thread_pending_def)

lemma pending_frame [simp]:
  "is_thread_pending u (Swap s) = is_thread_pending u s"
  "is_thread_pending u (reschedule_threads s) = is_thread_pending u s"
  "is_thread_pending u (upd_thread t (\<lambda>b. b\<lparr>return_value := v\<rparr>) s) = is_thread_pending u s"
  "is_thread_pending u (upd_thread t (\<lambda>b. b\<lparr>swap_data := d\<rparr>) s) = is_thread_pending u s"
  by (simp_all add: is_thread_pending_def reschedule_threads_def)

lemma cache_ready:
  assumes "kinv {} s"
  shows "is_thread_ready (cache s) s"
proof -
  obtain i where "cache s \<in> set (rq s i)"
    using cache_on_top [OF kinvD(1) [OF assms]] by blast
  then show ?thesis
    using rq_invD(5) [OF kinvD(1) [OF assms], of "cache s"] unfolding on_rq_def by blast
qed

lemma transit_unpend:
  assumes "kinv {} s" and "find_first_thread_to_unpend w None s = Some t"
  shows "transit t (unpend_thread t s)"
proof -
  note t = find_first_Some [OF assms]
  have "kinv {t} (unpend_thread t s)"
    using kinv_unpend [OF assms(1) t(1)] by simp
  then show ?thesis
    using t(2) by (simp add: transit_def unpend_thread_eq [OF assms(1) t(1)] is_thread_pending_bit)
qed

lemma transit_abort:
  assumes "transit t s"
  shows "transit t (fst (abort_thread_timeout t s))"
    and "delta (fst (abort_thread_timeout t s)) (TThread t) = INACTIVE"
proof -
  have i: "kinv {t} s" and d: "delta s (TThread t) \<noteq> EXPIRED"
    using assms by (auto simp: transit_def)
  show *: "delta (fst (abort_thread_timeout t s)) (TThread t) = INACTIVE"
    using tq_inv_abort(4) [OF kinvD(3) [OF i] d] by (simp add: abort_thread_timeout_def)
  show "transit t (fst (abort_thread_timeout t s))"
    using assms * kinv_abort_timeout [OF i d]
    by (simp add: transit_def abort_thread_timeout_def is_thread_pending_def)
qed

lemma transit_ready:
  assumes "transit t s" and "delta s (TThread t) = INACTIVE"
  shows "kinv {} (ready_thread t s)"
  using kinv_ready_thread [of t "{}" s] assms by (simp add: transit_def)

text \<open>
  The sequence by which every kernel object hands over to its first waiter:
  \<open>_unpend_first_thread\<close>, \<open>_abort_thread_timeout\<close>, \<open>_ready_thread\<close>.
\<close>

definition wake :: "tid \<Rightarrow> kernel \<Rightarrow> kernel" where
  "wake t s = ready_thread t (fst (abort_thread_timeout t (unpend_thread t s)))"

lemma kinv_wake:
  assumes "kinv {} s" and "find_first_thread_to_unpend w None s = Some t"
  shows "kinv {} (wake t s)"
  using transit_abort [OF transit_unpend [OF assms]] by (simp add: wake_def transit_ready)

lemma wake_sel:
  assumes "kinv {} s" and "t \<in> set (wait_qs s w)"
  shows "wait_qs (wake t s) = (wait_qs s)(w := remove1 t (wait_qs s w))"
    "current (wake t s) = current s" "nested (wake t s) = nested s"
    "idle_thread (wake t s) = idle_thread s" "timers (wake t s) = timers s"
    "handling_timeouts (wake t s) = handling_timeouts s"
    "threads (wake t s) = (threads s)(t := (threads s t)\<lparr>thread_state :=
       (thread_state (threads s t) AND NOT THREAD_PENDING) AND NOT THREAD_PRESTART\<rparr>)"
  by (simp_all add: wake_def abort_thread_timeout_def unpend_thread_eq [OF assms])

lemma wake_pending:
  assumes "kinv {} s" and "t \<in> set (wait_qs s w)"
  shows "is_thread_pending u (wake t s) \<longleftrightarrow> u \<noteq> t \<and> is_thread_pending u s"
  by (simp add: is_thread_pending_bit wake_sel [OF assms])

text \<open>When no timeouts are being handled, the thread to unpend is the head of the queue.\<close>

lemma find_first_head [simp]:
  "\<not> handling_timeouts s \<Longrightarrow> find_first_thread_to_unpend w None s =
     (case wait_qs s w of [] \<Rightarrow> None | t # _ \<Rightarrow> Some t)"
  by (simp add: find_first_thread_to_unpend_def)

definition can_block :: "kernel \<Rightarrow> bool" where
  "can_block s \<longleftrightarrow> is_thread_ready (current s) s \<and> current s \<noteq> idle_thread s"

lemma ready_delta: "is_thread_ready t s \<Longrightarrow> delta s (TThread t) = INACTIVE"
  by (simp add: is_thread_ready_bits)

lemma kinv_pend_current:
  assumes "kinv {} s" and "can_block s" and "timeout_ok timeout"
  shows "kinv {} (pend_current_thread call w timeout s)"
    and "wait_qs (pend_current_thread call w timeout s) =
      (wait_qs s)(w := insert_by_prio (\<lambda>u. prio (threads s u)) (current s) (wait_qs s w))"
proof -
  have r: "is_thread_ready (current s) s" "current s \<noteq> idle_thread s"
    using assms(2) by (auto simp: can_block_def)
  note rm = kinv_remove_thread [OF assms(1) r]
  show "kinv {} (pend_current_thread call w timeout s)"
    using kinv_pend_thread [OF rm(1) _ assms(3), of call w] ready_delta [OF r(1)]
    by (simp add: pend_current_thread_def Let_def)
  show "wait_qs (pend_current_thread call w timeout s) =
      (wait_qs s)(w := insert_by_prio (\<lambda>u. prio (threads s u)) (current s) (wait_qs s w))"
    by (simp add: pend_current_thread_def Let_def pend_thread_wait_qs [OF assms(3)] rm(2) del: remove_thread_sel(10))
qed

lemma pend_current_sel:
  assumes "timeout_ok timeout"
  shows "current (pend_current_thread call w timeout s) = current s"
    "nested (pend_current_thread call w timeout s) = nested s"
    "idle_thread (pend_current_thread call w timeout s) = idle_thread s"
    "handling_timeouts (pend_current_thread call w timeout s) = handling_timeouts s"
    "timers (pend_current_thread call w timeout s) = timers s"
    "threads (pend_current_thread call w timeout s) = (threads s)(current s :=
       (threads s (current s))\<lparr>thread_state := thread_state (threads s (current s)) OR THREAD_PENDING\<rparr>)"
  using ticks_ok [of timeout] assms
  by (auto simp: pend_current_thread_def pend_thread_def insert_in_wait_q_def Let_def
      timeout_ok_def add_thread_timeout_def add_timeout_sel)

lemma kinv_move [inv_intros]:
  assumes inv: "kinv {} s" and r: "is_thread_ready t s"
  shows "kinv {} (move_thread_to_end_of_prio_q t s)"
    and "wait_qs (move_thread_to_end_of_prio_q t s) = wait_qs s"
proof -
  have on: "on_rq t s"
    using rq_invD(5) [OF kinvD(1) [OF inv]] r by auto
  have np: "\<not> is_thread_pending t s"
    using r not_ready_pending by blast
  let ?s = "move_thread_to_end_of_prio_q t s"
  show wq: "wait_qs ?s = wait_qs s"
    using kinv_not_waiting [OF inv] np
    by (auto simp: move_thread_to_end_of_prio_q_def Let_def fun_eq_iff intro!: remove1_idem)
  show "kinv {} ?s"
  proof (rule kinvI)
    show "rq_inv {} ?s"
      using kinvD(1) [OF inv] on by (rule rq_inv_move)
    show "wq_inv {} ?s"
      using kinvD(2) [OF inv] by (subst wq_inv_cong [OF wq]) (auto simp: is_thread_pending_def)
    show "tq_inv ?s"
      using kinvD(3) [OF inv] by (subst tq_inv_cong [where s = s]) auto
    show "link_inv {} ?s"
      using kinvD(4) [OF inv] by (subst link_inv_cong [OF wq]) (auto simp: is_thread_pending_def)
  qed (use fault_move_thread [OF kinvD(1) [OF inv] on] kinvD(5) [OF inv] in simp)
qed

lemma kinv_k_yield [inv_intros]:
  assumes "kinv {} s" and "is_thread_ready (current s) s" and "\<not> is_in_isr s"
  shows "kinv {} (k_yield s)"
  using kinv_move [OF assms(1,2)] assms(3) by (simp add: k_yield_def Let_def)

lemma kinv_k_sleep:
  assumes inv: "kinv {} s" and b: "can_block s" and "\<not> is_in_isr s"
    and d: "0 < duration" "duration < 2 ^ 31"
  shows "kinv {} (k_sleep call duration s)"
    and "rem_ticks (k_sleep call duration s) x =
      (if x = TThread (current s) then Some (1 + (duration + 1) div 2) else rem_ticks s x)"
proof -
  have r: "is_thread_ready (current s) s" "current s \<noteq> idle_thread s"
    using b by (auto simp: can_block_def)
  let ?t = "current s" and ?n = "TICK_ALIGN + ms_to_ticks duration"
  let ?r = "remove_thread_from_ready_q ?t s"
  let ?s = "add_timeout call (Some ?t) (TThread ?t) None ?n ?r"
  have tk: "0 < ?n" "?n < 2 ^ 31"
    using ticks_ok [of duration] d by auto
  have rm: "kinv {?t} ?r" and dl: "delta ?r (TThread ?t) = INACTIVE"
    using kinv_remove_thread [OF inv r] ready_delta [OF r(1)] by auto
  have eq: "k_sleep call duration s = Swap ?s"
    using assms by (simp add: k_sleep_def Let_def add_thread_timeout_def is_in_isr_def)
  note a = tq_inv_add_timeout [OF kinvD(3) [OF rm] dl tk]
  have "kinv {?t} ?s"
    using kinv_add_timeout [OF rm dl tk] by simp
  moreover have "\<not> is_thread_ready ?t ?s" "\<not> is_thread_pending ?t ?s"
    using a(3) [of call "Some ?t" None "TThread ?t"] not_ready_pending r(1)
    by (auto simp: is_thread_ready_bits add_timeout_sel [OF tk(1)] is_thread_pending_def)
  ultimately have "kinv {} ?s"
    using kinv_settle [of ?t "{}" ?s] by (simp add: add_timeout_sel [OF tk(1)])
  then show "kinv {} (k_sleep call duration s)"
    by (simp add: eq)
  show "rem_ticks (k_sleep call duration s) x =
      (if x = TThread ?t then Some (1 + (duration + 1) div 2) else rem_ticks s x)"
    using a(2) [of call "Some ?t" None x] d by (simp add: eq ms_to_ticks_eq)
qed

lemma kinv_k_wakeup [inv_intros]:
  assumes inv: "kinv {} s" and nh: "\<not> handling_timeouts s"
  shows "kinv {} (k_wakeup t s)"
proof (cases "is_thread_pending t s \<or> delta s (TThread t) = INACTIVE")
  case True
  then show ?thesis
    using inv by (auto simp: k_wakeup_def abort_thread_timeout_def abort_timeout_inactive)
next
  case False
  have ne: "delta s (TThread t) \<noteq> EXPIRED"
    using kinvD(3) [OF inv] nh unfolding tq_inv_def
    by (cases "TThread t \<in> set (timeout_q s)") force+
  have "kinv {t} s"
    using kinv_take [OF inv] False by (simp add: is_thread_ready_bits)
  then have "transit t s"
    using False ne by (simp add: transit_def)
  then have "kinv {} (ready_thread t (fst (abort_thread_timeout t s)))"
    using transit_abort by (blast intro: transit_ready)
  then show ?thesis
    using False by (cases "abort_thread_timeout t s")
      (auto simp: k_wakeup_def abort_thread_timeout_def Let_def dest: arg_cong [where f = snd])
qed

section \<open>Priorities and the scheduler lock\<close>

lemma kinv_thread_priority_set [inv_intros]:
  assumes inv: "kinv {} s" and ne: "t \<noteq> idle_thread s"
    and p: "K_HIGHEST_THREAD_PRIO \<le> p" "p < K_LOWEST_THREAD_PRIO"
  shows "kinv {} (thread_priority_set t p s)"
    and "wait_qs (thread_priority_set t p s) = wait_qs s"
proof -
  let ?s = "thread_priority_set t p s"
  have sel: "timeouts ?s = timeouts s" "timeout_q ?s = timeout_q s" "handling_timeouts ?s = handling_timeouts s"
    "\<And>u. thread_state (threads ?s u) = thread_state (threads s u)"
    by (simp_all add: thread_priority_set_def)
  show wq: "wait_qs ?s = wait_qs s"
  proof (cases "is_thread_ready t s")
    case True
    then show ?thesis
      using kinv_remove_thread(2) [OF inv True ne] by (simp add: thread_priority_set_def)
  qed (simp add: thread_priority_set_def)
  have pend: "is_thread_pending u ?s = is_thread_pending u s" for u
    using sel(4) by (rule is_thread_pending_cong)
  show "kinv {} ?s"
  proof (rule kinvI)
    show "rq_inv {} ?s"
      using kinvD(1) [OF inv] ne p by (rule rq_inv_thread_priority_set)
    show "wq_inv {} ?s"
      using kinvD(2) [OF inv] by (subst wq_inv_cong [OF wq]) (simp_all add: pend)
    show "tq_inv ?s"
      using kinvD(3) [OF inv] by (subst tq_inv_cong [where s = s]) (simp_all add: sel)
    show "link_inv {} ?s"
      using kinvD(4) [OF inv] by (subst link_inv_cong [OF wq]) (simp_all add: pend sel)
    show "\<not> fault ?s"
      using fault_remove_thread [OF kinvD(1) [OF inv] ne] kinvD(5) [OF inv] by (simp add: thread_priority_set_def)
  qed
qed

lemma thread_priority_set_sel [simp]:
  "current (thread_priority_set t p s) = current s" "nested (thread_priority_set t p s) = nested s"
  "idle_thread (thread_priority_set t p s) = idle_thread s" "timers (thread_priority_set t p s) = timers s"
  "timeouts (thread_priority_set t p s) = timeouts s" "timeout_q (thread_priority_set t p s) = timeout_q s"
  "handling_timeouts (thread_priority_set t p s) = handling_timeouts s"
  "threads (thread_priority_set t p s) = (threads s)(t := (threads s t)\<lparr>prio := p\<rparr>)"
  by (simp_all add: thread_priority_set_def)

lemma kinv_sched_lock [simp]:
  "kinv X (upd_thread t (\<lambda>b. b\<lparr>sched_locked := g b\<rparr>) s) = kinv X s"
  by (rule kinv_cong) simp_all

lemma is_thread_ready_frame [simp]:
  "is_thread_ready u (upd_thread t (\<lambda>b. b\<lparr>sched_locked := g b\<rparr>) s) = is_thread_ready u s"
  "is_thread_ready u (thread_priority_set t p s) = is_thread_ready u s"
  by (simp_all add: is_thread_ready_bits)

section \<open>Concrete states\<close>

lemma kinv_boot [simp]: "kinv {} boot"
proof (rule kinvI)
  show "wq_inv {} boot"
    by (simp add: wq_inv_def boot_def is_thread_pending_bit thread0_def)
  show "tq_inv boot"
    by (simp add: tq_inv_def boot_def timeout0_def)
  show "link_inv {} boot"
    by (simp add: link_inv_def boot_def timeout0_def)
qed (simp, simp add: boot_def)

lemma can_block_boot [simp]: "can_block boot"
  by (simp add: can_block_def)

text \<open>
  C14: Starting a timeout and aborting it. Adding a timeout of \<open>ticks\<close> ticks to the delta
  queue makes its remaining time \<open>ticks\<close> and leaves the remaining time of every other
  timeout unchanged; aborting it then restores every remaining time, returns 0, leaves the
  timeout inactive, and keeps the queue well formed (so all deltas stay within
  \<open>s32_t\<close>).
\<close>

theorem add_abort_timeout:
  assumes "tq_inv s" and "delta s x = INACTIVE" and "0 < ticks" and "ticks < 2 ^ 31"
  shows "let s1 = add_timeout call th x w ticks s; s2 = fst (abort_timeout x s1) in
    tq_inv s1 \<and> tq_inv s2 \<and>
    (\<forall>z. rem_ticks s1 z = (if z = x then Some ticks else rem_ticks s z)) \<and>
    (\<forall>z. rem_ticks s2 z = rem_ticks s z) \<and>
    snd (abort_timeout x s1) = 0 \<and> delta s2 x = INACTIVE \<and>
    (\<forall>z. z \<in> set (timeout_q s1) \<longrightarrow> 0 \<le> delta s1 z \<and> delta s1 z < 2 ^ 31)"
proof -
  define s1 where "s1 = add_timeout call th x w ticks s"
  note a = tq_inv_add_timeout [OF assms, of call th w, folded s1_def]
  have xq: "rem_ticks s x = None"
    using assms(1,2) by (fastforce simp: tq_inv_def)
  have d: "delta s1 x \<noteq> INACTIVE" "delta s1 x \<noteq> EXPIRED"
    using a(2) [of x] a(1) remaining_None [of "delta s1" "timeout_q s1" x] by (force simp: tq_inv_def)+
  note b = tq_inv_abort [OF a(1) d(2)]
  have "rem_ticks (fst (abort_timeout x s1)) z = rem_ticks s z" for z
    unfolding b(3) a(2) by (simp add: xq del: remaining_None)
  moreover have "0 \<le> delta s1 z \<and> delta s1 z < 2 ^ 31" if z: "z \<in> set (timeout_q s1)" for z
  proof -
    obtain n where n: "rem_ticks s1 z = Some n"
      using z remaining_None [of "delta s1" "timeout_q s1" z] by fastforce
    with a(1) remaining_ge_delta [OF n] z show ?thesis
      by (fastforce simp: tq_inv_def)
  qed
  ultimately show ?thesis
    unfolding Let_def s1_def [symmetric] using a b d by simp
qed

theorem add_abort_timeout_witness:
  "rem_ticks (add_timeout (\<lambda>_ _ s. s) None (TTimer 3) None 7 boot) (TTimer 3) = Some 7"
  using add_abort_timeout [of boot "TTimer 3" 7 "\<lambda>_ _ s. s" None None] kinvD(3) [OF kinv_boot]
  by (simp add: Let_def)

end
