(* ===== verification/Sys_Clock.thy ===== *)
theory Sys_Clock
  imports Kernel_Inv
begin

text \<open>
  kernel/sys_clock.c: the tick counter and the uptime functions, the expiry of timeouts
  (\<open>handle_timeouts\<close>), time slicing, and the announcement of a tick by the timer driver.
  A callback of an expired timer is a parameter; what the kernel relies on is the locale
  \<open>timeout_callback\<close>.
\<close>

section \<open>Uptime\<close>

text \<open>Values of type \<open>s64_t\<close> are kept as 64-bit words; the counter wraps.\<close>

definition tick_get_32 :: "kernel \<Rightarrow> u32" where
  "tick_get_32 s = ucast (sys_clock_tick_count s)"

definition k_uptime_get_32 :: "kernel \<Rightarrow> u32" where
  "k_uptime_get_32 s = ucast (ticks_to_ms_u64 (ucast (tick_get_32 s)))"

definition tick_get :: "kernel \<Rightarrow> u64" where
  "tick_get s = sys_clock_tick_count s"

definition k_uptime_get :: "kernel \<Rightarrow> u64" where
  "k_uptime_get s = ticks_to_ms_u64 (tick_get s)"

definition nano_tick_delta :: "u64 \<Rightarrow> kernel \<Rightarrow> u64 \<times> u64" where
  "nano_tick_delta reftime s =
     (let saved = sys_clock_tick_count s; delta = saved - reftime in (delta, saved))"

definition sys_tick_delta :: "u64 \<Rightarrow> kernel \<Rightarrow> u64 \<times> u64" where
  "sys_tick_delta reftime s = nano_tick_delta reftime s"

definition sys_tick_delta_32 :: "u64 \<Rightarrow> kernel \<Rightarrow> u32 \<times> u64" where
  "sys_tick_delta_32 reftime s = (case nano_tick_delta reftime s of (d, r) \<Rightarrow> (ucast d, r))"

definition k_uptime_delta :: "u64 \<Rightarrow> kernel \<Rightarrow> u64 \<times> u64" where
  "k_uptime_delta reftime s =
     (let uptime = k_uptime_get s; delta = uptime - reftime in (delta, uptime))"

definition k_uptime_delta_32 :: "u64 \<Rightarrow> kernel \<Rightarrow> u32 \<times> u64" where
  "k_uptime_delta_32 reftime s = (case k_uptime_delta reftime s of (d, r) \<Rightarrow> (ucast d, r))"

section \<open>Tick processing\<close>

fun dequeue_expired :: "toid list \<Rightarrow> toid list \<Rightarrow> kernel \<Rightarrow> kernel \<times> toid list" where
  "dequeue_expired [] expired s = (s, expired)"
| "dequeue_expired (x # rest) expired s =
     (if delta s x = 0 then
        dequeue_expired rest (x # expired) (set_delta x EXPIRED (s\<lparr>timeout_q := rest\<rparr>))
      else (s, expired))"

definition handle_timeouts ::
    "(fn_ptr \<Rightarrow> toid \<Rightarrow> kernel \<Rightarrow> kernel) \<Rightarrow> int \<Rightarrow> kernel \<Rightarrow> kernel" where
  "handle_timeouts call ticks s =
     (case timeout_q s of
        [] \<Rightarrow> s
      | head # _ \<Rightarrow>
          let s = set_delta head (delta s head - ticks) s;
              s = s\<lparr>handling_timeouts := True\<rparr>
          in case dequeue_expired (timeout_q s) [] s of (s, expired) \<Rightarrow>
               (handle_expired_timeouts call expired s)\<lparr>handling_timeouts := False\<rparr>)"

definition handle_time_slicing :: "int \<Rightarrow> kernel \<Rightarrow> kernel" where
  "handle_time_slicing ticks s =
     (if \<not> is_thread_time_slicing (current s) s then s
      else
        let s = s\<lparr>time_slice_elapsed := time_slice_elapsed s + ticks_to_ms ticks\<rparr>
        in if time_slice_elapsed s \<ge> time_slice_duration s then
             move_thread_to_end_of_prio_q (current s) (s\<lparr>time_slice_elapsed := 0\<rparr>)
           else s)"

definition nano_sys_clock_tick_announce ::
    "(fn_ptr \<Rightarrow> toid \<Rightarrow> kernel \<Rightarrow> kernel) \<Rightarrow> int \<Rightarrow> kernel \<Rightarrow> kernel" where
  "nano_sys_clock_tick_announce call ticks s =
     (let s = s\<lparr>sys_clock_tick_count := sys_clock_tick_count s + word_of_int ticks\<rparr>;
          s = handle_timeouts call ticks s
      in handle_time_slicing ticks s)"

lemma dequeue_expired_eq:
  assumes "distinct q"
  shows "dequeue_expired q expired (s\<lparr>timeout_q := q\<rparr>) =
    (s\<lparr>timeouts := (\<lambda>x. if x \<in> set (takeWhile (\<lambda>x. delta s x = 0) q)
                       then (timeouts s x)\<lparr>delta_ticks_from_prev := EXPIRED\<rparr> else timeouts s x),
       timeout_q := dropWhile (\<lambda>x. delta s x = 0) q\<rparr>,
     rev (takeWhile (\<lambda>x. delta s x = 0) q) @ expired)"
  using assms
proof (induction q arbitrary: s expired)
  case (Cons y q)
  show ?case
  proof (cases "delta s y = 0")
    case True
    let ?s = "set_delta y EXPIRED s"
    have eq: "(set_delta y EXPIRED (s\<lparr>timeout_q := q\<rparr>)) = ?s\<lparr>timeout_q := q\<rparr>"
      by (simp add: set_delta_def upd_timeout_def)
    have same: "takeWhile (\<lambda>x. delta ?s x = 0) q = takeWhile (\<lambda>x. delta s x = 0) q"
      "dropWhile (\<lambda>x. delta ?s x = 0) q = dropWhile (\<lambda>x. delta s x = 0) q"
      using Cons.prems by (auto intro!: takeWhile_cong dropWhile_cong)
    have "y \<notin> set (takeWhile (\<lambda>x. delta s x = 0) q)"
      using Cons.prems by (auto dest: set_takeWhileD)
    then show ?thesis
      using True Cons.prems Cons.IH [of "y # expired" ?s]
      by (simp del: set_delta_sel add: eq same)
        (auto simp: set_delta_def upd_timeout_def fun_eq_iff)
  qed simp
qed simp

section \<open>Expiry\<close>

lemma remaining_decr_head:
  assumes "h \<notin> set q"
  shows "remaining_ticks (d(h := d h - n)) (h # q) x =
    map_option (\<lambda>r. r - n) (remaining_ticks d (h # q) x)"
proof -
  have "remaining_ticks (d(h := d h - n)) q x = remaining_ticks d q x"
    using assms by (intro remaining_cong) auto
  then show ?thesis
    by (auto simp: option.map_comp comp_def fun_upd_def intro!: option.map_cong)
qed

lemma remaining_nonneg:
  "remaining_ticks d q x = Some r \<Longrightarrow> \<forall>y\<in>set q. 0 \<le> d y \<Longrightarrow> 0 \<le> r"
  by (induction q arbitrary: r) (fastforce split: if_splits)+

lemma zero_prefix:
  assumes "distinct q" and "\<forall>y\<in>set q. 0 \<le> d y"
  shows "x \<in> set (takeWhile (\<lambda>y. d y = 0) q) \<longleftrightarrow> remaining_ticks d q x = Some 0"
    and "remaining_ticks d (dropWhile (\<lambda>y. d y = 0) q) x =
      (if remaining_ticks d q x = Some 0 then None else remaining_ticks d q x)"
proof -
  have nz: "d y + r \<noteq> 0" if "0 \<le> d y" "d y \<noteq> 0" "remaining_ticks d q x = Some r" "\<forall>y\<in>set q. 0 \<le> d y" for y r q
    using remaining_nonneg [OF that(3,4)] that(1,2) by simp
  have z: "map_option ((+) (0 :: int)) m = m" for m
    by (cases m) auto
  show "x \<in> set (takeWhile (\<lambda>y. d y = 0) q) \<longleftrightarrow> remaining_ticks d q x = Some 0"
    using assms by (induction q) (auto dest: nz)
  show "remaining_ticks d (dropWhile (\<lambda>y. d y = 0) q) x =
      (if remaining_ticks d q x = Some 0 then None else remaining_ticks d q x)"
    using assms by (induction q) (auto dest: nz set_dropWhileD simp: z)
qed

text \<open>The state in which the expired timeouts are handled.\<close>

definition expire :: "int \<Rightarrow> kernel \<Rightarrow> kernel \<times> toid list" where
  "expire ticks s =
     (case timeout_q s of
        [] \<Rightarrow> (s\<lparr>handling_timeouts := True\<rparr>, [])
      | head # _ \<Rightarrow> dequeue_expired (timeout_q s) []
          ((set_delta head (delta s head - ticks) s)\<lparr>handling_timeouts := True\<rparr>))"

lemma handle_timeouts_expire:
  "handle_timeouts call ticks s =
     (if timeout_q s = [] then s
      else (handle_expired_timeouts call (snd (expire ticks s)) (fst (expire ticks s)))
             \<lparr>handling_timeouts := False\<rparr>)"
  by (auto simp: handle_timeouts_def expire_def Let_def split: list.split prod.split)

definition ticks_ahead :: "int \<Rightarrow> kernel \<Rightarrow> bool" where
  "ticks_ahead ticks s \<longleftrightarrow> 0 < ticks \<and> (\<forall>x r. rem_ticks s x = Some r \<longrightarrow> ticks \<le> r)"

lemma one_tick_ahead: "tq_inv s \<Longrightarrow> ticks_ahead 1 s"
  unfolding ticks_ahead_def tq_inv_def by (auto; fastforce)

definition left_ticks :: "int \<Rightarrow> kernel \<Rightarrow> toid \<Rightarrow> int" where
  "left_ticks ticks s =
     (case timeout_q s of [] \<Rightarrow> delta s | h # _ \<Rightarrow> (delta s)(h := delta s h - ticks))"

lemma expire_eq:
  assumes "tq_inv s"
  shows "expire ticks s =
    (s\<lparr>timeouts := (\<lambda>x. (timeouts s x)\<lparr>delta_ticks_from_prev :=
          if x \<in> set (takeWhile (\<lambda>x. left_ticks ticks s x = 0) (timeout_q s)) then EXPIRED
          else left_ticks ticks s x\<rparr>),
       timeout_q := dropWhile (\<lambda>x. left_ticks ticks s x = 0) (timeout_q s),
       handling_timeouts := True\<rparr>,
     rev (takeWhile (\<lambda>x. left_ticks ticks s x = 0) (timeout_q s)))"
proof (cases "timeout_q s")
  case Nil
  then show ?thesis
    by (auto simp: expire_def left_ticks_def intro!: kernel.equality)
next
  case (Cons h q)
  let ?s = "(set_delta h (delta s h - ticks) s)\<lparr>handling_timeouts := True\<rparr>"
  have d: "distinct (timeout_q s)"
    using assms by (simp add: tq_inv_def)
  have "?s = ?s\<lparr>timeout_q := timeout_q s\<rparr>"
    by (rule kernel.equality) auto
  then have "expire ticks s = dequeue_expired (timeout_q s) [] (?s\<lparr>timeout_q := timeout_q s\<rparr>)"
    using Cons by (simp add: expire_def)
  moreover have "delta ?s x = left_ticks ticks s x" for x
    using Cons by (simp add: left_ticks_def)
  ultimately show ?thesis
    unfolding dequeue_expired_eq [OF d] using Cons
    by (auto intro!: kernel.equality timeout.equality simp: fun_eq_iff left_ticks_def)
qed

lemma left_ticks_facts:
  assumes inv: "tq_inv s" and ahead: "ticks_ahead ticks s"
  shows "remaining_ticks (left_ticks ticks s) (timeout_q s) x = map_option (\<lambda>r. r - ticks) (rem_ticks s x)"
    and "x \<in> set (timeout_q s) \<Longrightarrow> 0 \<le> left_ticks ticks s x"
    and "x \<notin> set (timeout_q s) \<Longrightarrow> left_ticks ticks s x = delta s x"
proof -
  have d: "distinct (timeout_q s)" and pos: "\<And>x. x \<in> set (timeout_q s) \<Longrightarrow> 0 \<le> delta s x"
    using inv by (auto simp: tq_inv_def)
  show "remaining_ticks (left_ticks ticks s) (timeout_q s) x = map_option (\<lambda>r. r - ticks) (rem_ticks s x)"
    using d remaining_decr_head [of "hd (timeout_q s)" "tl (timeout_q s)" "delta s" ticks x]
    by (cases "timeout_q s") (simp_all add: left_ticks_def del: remaining_ticks.simps(2))
  have "ticks \<le> delta s h" if "timeout_q s = h # q" for h q
    using ahead that by (fastforce simp: ticks_ahead_def dest: spec [of _ h])
  then show "x \<in> set (timeout_q s) \<Longrightarrow> 0 \<le> left_ticks ticks s x"
    using pos [of x] by (cases "timeout_q s") (auto simp: left_ticks_def)
  show "x \<notin> set (timeout_q s) \<Longrightarrow> left_ticks ticks s x = delta s x"
    by (cases "timeout_q s") (auto simp: left_ticks_def)
qed

lemma expire_facts:
  assumes inv: "tq_inv s" and nh: "\<not> handling_timeouts s" and ahead: "ticks_ahead ticks s"
  shows "x \<in> set (snd (expire ticks s)) \<longleftrightarrow> rem_ticks s x = Some ticks"
    and "distinct (snd (expire ticks s))"
    and "delta (fst (expire ticks s)) x = EXPIRED \<longleftrightarrow> rem_ticks s x = Some ticks"
    and "rem_ticks (fst (expire ticks s)) x =
      (if rem_ticks s x = Some ticks then None else map_option (\<lambda>r. r - ticks) (rem_ticks s x))"
    and "delta (fst (expire ticks s)) x = INACTIVE \<longleftrightarrow> delta s x = INACTIVE"
    and "tq_inv (fst (expire ticks s))"
proof -
  note lt = left_ticks_facts [OF inv ahead]
  have d: "distinct (timeout_q s)" and pos: "\<forall>y\<in>set (timeout_q s). 0 \<le> left_ticks ticks s y"
    using inv lt(2) by (auto simp: tq_inv_def)
  note z = zero_prefix [OF d pos]
  let ?s = "fst (expire ticks s)" and ?Z = "takeWhile (\<lambda>x. left_ticks ticks s x = 0) (timeout_q s)"
  have zero: "x \<in> set ?Z \<longleftrightarrow> rem_ticks s x = Some ticks" for x
    using z(1) [of x] remaining_None [of "delta s" "timeout_q s" x]
    by (cases "rem_ticks s x") (auto simp: lt(1) simp del: remaining_None)
  have out: "delta s x = INACTIVE" if "x \<notin> set (timeout_q s)" for x
    using that inv nh by (auto simp: tq_inv_def)
  have dl: "delta ?s x = (if x \<in> set ?Z then EXPIRED else left_ticks ticks s x)" for x
    by (simp add: expire_eq [OF inv])
  have inq: "x \<in> set (timeout_q s) \<Longrightarrow> delta s x \<noteq> INACTIVE" for x
    using inv by (fastforce simp: tq_inv_def)
  have disj: "x \<notin> set ?Z" if "x \<in> set (dropWhile (\<lambda>x. left_ticks ticks s x = 0) (timeout_q s))" for x
    using that d distinct_append [of ?Z "dropWhile (\<lambda>x. left_ticks ticks s x = 0) (timeout_q s)"] by auto
  show "x \<in> set (snd (expire ticks s)) \<longleftrightarrow> rem_ticks s x = Some ticks" "distinct (snd (expire ticks s))"
    using d by (simp_all add: expire_eq [OF inv] zero)
  show ex: "delta ?s x = EXPIRED \<longleftrightarrow> rem_ticks s x = Some ticks" for x
    using lt(2,3) [of x] out [of x] by (cases "x \<in> set (timeout_q s)") (auto simp: dl zero)
  show rem: "rem_ticks ?s x =
      (if rem_ticks s x = Some ticks then None else map_option (\<lambda>r. r - ticks) (rem_ticks s x))" for x
  proof -
    have "rem_ticks ?s x = remaining_ticks (left_ticks ticks s)
        (dropWhile (\<lambda>x. left_ticks ticks s x = 0) (timeout_q s)) x"
      using disj by (simp add: expire_eq [OF inv]) (intro remaining_cong, auto)
    then show ?thesis
      using z(2) [of x] by (auto simp: lt(1))
  qed
  show ina: "delta ?s x = INACTIVE \<longleftrightarrow> delta s x = INACTIVE" for x
    using lt(2,3) [of x] inq [of x] zero [of x] set_takeWhileD [of x _ "timeout_q s"]
    by (cases "x \<in> set (timeout_q s)") (auto simp: dl)
  have "0 \<le> delta ?s x" if "x \<in> set (timeout_q ?s)" for x
    using that disj [of x] lt(2) [of x] set_dropWhileD [of x _ "timeout_q s"]
    by (auto simp: expire_eq [OF inv])
  moreover have "0 < r \<and> r < 2 ^ 31" if "rem_ticks ?s x = Some r" for x r
    using that ahead inv rem [of x] unfolding ticks_ahead_def tq_inv_def
    by (auto split: if_splits; fastforce)
  moreover have "delta ?s x = INACTIVE \<or> delta ?s x = EXPIRED \<and> handling_timeouts ?s"
    if "x \<notin> set (timeout_q ?s)" for x
    using that rem [of x] ex [of x] ina [of x] out [of x] remaining_None [of "delta ?s" "timeout_q ?s" x]
    by (auto simp: expire_eq [OF inv] split: if_splits)
  moreover have "distinct (timeout_q ?s)"
    using d by (simp add: expire_eq [OF inv])
  ultimately show "tq_inv ?s"
    unfolding tq_inv_def by blast
qed

lemma expire_sel:
  assumes "tq_inv s"
  shows "threads (fst (expire ticks s)) = threads s" "wait_qs (fst (expire ticks s)) = wait_qs s"
    "rq (fst (expire ticks s)) = rq s" "prio_bmap (fst (expire ticks s)) = prio_bmap s"
    "cache (fst (expire ticks s)) = cache s" "idle_thread (fst (expire ticks s)) = idle_thread s"
    "fault (fst (expire ticks s)) = fault s" "handling_timeouts (fst (expire ticks s))"
    "current (fst (expire ticks s)) = current s" "nested (fst (expire ticks s)) = nested s"
    "timers (fst (expire ticks s)) = timers s"
    "to_thread (timeouts (fst (expire ticks s)) x) = to_thread (timeouts s x)"
    "to_wait_q (timeouts (fst (expire ticks s)) x) = to_wait_q (timeouts s x)"
    "to_func (timeouts (fst (expire ticks s)) x) = to_func (timeouts s x)"
  by (simp_all add: expire_eq [OF assms])

lemma kinv_expire:
  assumes inv: "kinv {} s" and "\<not> handling_timeouts s" and "ticks_ahead ticks s"
  shows "kinv {} (fst (expire ticks s))"
proof (rule kinv_timeouts_change [OF inv])
  note f = expire_facts [OF kinvD(3) [OF inv] assms(2,3)]
  note sel = expire_sel [OF kinvD(3) [OF inv]]
  show "tq_inv (fst (expire ticks s))"
    by (rule f)
  show "link_inv {} (fst (expire ticks s))"
    using kinvD(4) [OF inv]
    by (rule link_inv_mono) (auto simp: f(5) sel waits_at_def is_thread_pending_def split: option.splits)
qed (simp_all add: expire_sel [OF kinvD(3) [OF inv]] expire_facts(5) [OF kinvD(3) [OF inv] assms(2,3)])

section \<open>Handling the expired timeouts\<close>

lemma and_not_pending_id:
  assumes "\<not> bit (w :: u8) 1"
  shows "w AND NOT THREAD_PENDING = w"
proof (rule bit_word_eqI)
  fix n
  have "bit (THREAD_PENDING :: u8) n \<longleftrightarrow> n = 1" if "n < LENGTH(8)"
    using that bit_exp_iff [of 1 n, where 'a = u8] by auto
  then show "bit (w AND NOT THREAD_PENDING) n \<longleftrightarrow> bit w n" if "n < LENGTH(8)"
    using that assms unfolding bit_and_iff bit_not_iff by auto
qed

lemma kinv_set_inactive:
  assumes inv: "kinv X s" and e: "delta s x = EXPIRED"
    and x: "\<And>t. x = TThread t \<Longrightarrow> t \<in> X \<or> is_thread_pending t s"
  shows "kinv X (set_delta x INACTIVE s)"
proof (rule kinvI)
  note tq = kinvD(3) [OF inv]
  let ?s = "set_delta x INACTIVE s"
  have nq: "x \<notin> set (timeout_q s)"
    using tq e by (fastforce simp: tq_inv_def)
  have pend: "is_thread_pending u ?s = is_thread_pending u s" for u
    by (simp add: is_thread_pending_def)
  show "rq_inv X ?s"
    using kinvD(1) [OF inv]
  proof (subst rq_inv_cong [where s = s])
    show "is_thread_ready u ?s = is_thread_ready u s" if "u \<notin> X" for u
      using x [of u] that not_ready_pending [of u s] not_ready_pending [of u ?s] pend [of u]
      by (cases "x = TThread u") (auto simp: is_thread_ready_bits)
  qed simp_all
  show "wq_inv X ?s"
    using kinvD(2) [OF inv] by (subst wq_inv_cong [where s = s]) (auto simp: pend)
  have rem: "rem_ticks ?s z = rem_ticks s z" for z
    using nq by (simp) (intro remaining_cong, auto)
  show "tq_inv ?s"
    using tq nq unfolding tq_inv_def rem by auto
  show "link_inv X ?s"
    using kinvD(4) [OF inv]
    by (rule link_inv_mono) (auto simp: waits_at_def pend split: option.splits if_splits)
qed (use kinvD(5) [OF inv] in simp)

lemma kinv_clear_wait_q:
  assumes inv: "kinv X s" and d: "delta s (TThread t) = INACTIVE"
  shows "kinv X (upd_timeout (TThread t) (\<lambda>o1. o1\<lparr>to_wait_q := None\<rparr>) s)"
proof (rule kinv_timeouts_change [OF inv])
  let ?s = "upd_timeout (TThread t) (\<lambda>o1. o1\<lparr>to_wait_q := None\<rparr>) s"
  have dl: "delta ?s x = delta s x" for x
    by simp
  show "tq_inv ?s"
    using kinvD(3) [OF inv] by (subst tq_inv_cong [where s = s]) (simp_all add: dl)
  have w: "waits_at u v ?s = waits_at u v s" for u v
    by (simp add: waits_at_def is_thread_pending_def split: option.split)
  show "link_inv X ?s"
    using kinvD(4) [OF inv] d unfolding link_inv_def w by auto
qed simp_all

definition timed_out :: "thread_base \<Rightarrow> thread_base" where
  "timed_out b = b\<lparr>thread_state := thread_state b AND NOT THREAD_PENDING AND NOT THREAD_PRESTART\<rparr>"

lemma timed_out_sel [simp]:
  "return_value (timed_out b) = return_value b"
  "prio (timed_out b) = prio b"
  "swap_data (timed_out b) = swap_data b"
  by (simp_all add: timed_out_def)

text \<open>An expired thread timeout: the thread leaves its wait queue and is readied.\<close>

lemma handle_one_thread:
  assumes inv: "kinv {} s" and e: "delta s (TThread t) = EXPIRED"
    and s': "s' = handle_one_expired_timeout call (TThread t) s"
  shows "kinv {} s'" "\<not> is_thread_pending t s'"
    "threads s' u = (if u = t then timed_out (threads s t) else threads s u)"
    "delta s' x = (if x = TThread t then INACTIVE else delta s x)"
    "timeout_q s' = timeout_q s" "handling_timeouts s' = handling_timeouts s"
    "wait_qs s' w = remove1 t (wait_qs s w)"
    "to_thread (timeouts s' x) = to_thread (timeouts s x)"
proof -
  have l: "to_thread (timeouts s (TThread t)) = Some t"
    "waits_at t (to_wait_q (timeouts s (TThread t))) s"
    using kinvD(4) [OF inv] e by (auto simp: link_inv_def)
  define s1 where "s1 = set_delta (TThread t) INACTIVE s"
  define s2 where "s2 = unpend_thread_timing_out t (TThread t) s1"
  have s'_eq: "s' = ready_thread t s2"
    using l(1) by (simp add: s' handle_one_expired_timeout_def s2_def s1_def)
  have "kinv {t} s2 \<and> \<not> is_thread_pending t s2 \<and> delta s2 (TThread t) = INACTIVE \<and>
    threads s2 = (threads s)(t := (threads s t)\<lparr>thread_state := thread_state (threads s t) AND NOT THREAD_PENDING\<rparr>) \<and>
    wait_qs s2 = (\<lambda>w. remove1 t (wait_qs s w)) \<and> timeout_q s2 = timeout_q s \<and>
    handling_timeouts s2 = handling_timeouts s \<and> (\<forall>x. x \<noteq> TThread t \<longrightarrow> delta s2 x = delta s x) \<and>
    (\<forall>x. to_thread (timeouts s2 x) = to_thread (timeouts s x))"
  proof (cases "to_wait_q (timeouts s (TThread t))")
    case None
    then have np: "\<not> is_thread_pending t s"
      using l(2) by (simp add: waits_at_def)
    have "kinv {t} s"
      using kinv_take [OF inv _ np] e by (simp add: is_thread_ready_bits)
    then have "kinv {t} s1"
      unfolding s1_def using e by (intro kinv_set_inactive) auto
    moreover have "remove1 t (wait_qs s w) = wait_qs s w" for w
      using kinv_not_waiting [OF inv] np by (simp add: remove1_idem)
    moreover have "thread_state (threads s t) AND NOT THREAD_PENDING = thread_state (threads s t)"
      using np by (intro and_not_pending_id) (simp add: is_thread_pending_bit)
    ultimately show ?thesis
      using None np by (simp add: s2_def s1_def unpend_thread_timing_out_def is_thread_pending_def)
  next
    case (Some w)
    then have tw: "t \<in> set (wait_qs s w)"
      using l(2) by (simp add: waits_at_def)
    have "is_thread_pending t s"
      using kinvD(2) [OF inv] tw by (auto simp: wq_inv_def)
    then have i1: "kinv {} s1"
      unfolding s1_def using e by (intro kinv_set_inactive [OF inv]) auto
    have tw1: "t \<in> set (wait_qs s1 w)"
      using tw by (simp add: s1_def)
    have rm: "(\<lambda>w. remove1 t (wait_qs s w)) = (wait_qs s)(w := remove1 t (wait_qs s w))"
      using kinvD(2) [OF inv] tw by (auto simp: fun_eq_iff wq_inv_def intro!: remove1_idem)
    have "to_wait_q (timeouts s1 (TThread t)) \<noteq> None"
      using Some by (simp add: s1_def)
    then have s2: "s2 = upd_timeout (TThread t) (\<lambda>o1. o1\<lparr>to_wait_q := None\<rparr>) (unpend_thread t s1)"
      by (simp add: s2_def unpend_thread_timing_out_def)
    have "delta (unpend_thread t s1) (TThread t) = INACTIVE"
      unfolding unpend_thread_eq [OF i1 tw1] by (simp add: s1_def)
    then have "kinv {t} s2"
      using kinv_clear_wait_q [OF kinv_unpend [OF i1 tw1]] by (simp add: s2)
    then show ?thesis
      unfolding rm s2 unpend_thread_eq [OF i1 tw1] by (simp add: is_thread_pending_bit s1_def)
  qed
  then show "kinv {} s'" "\<not> is_thread_pending t s'"
    "threads s' u = (if u = t then timed_out (threads s t) else threads s u)"
    "delta s' x = (if x = TThread t then INACTIVE else delta s x)"
    "timeout_q s' = timeout_q s" "handling_timeouts s' = handling_timeouts s"
    "wait_qs s' w = remove1 t (wait_qs s w)"
    "to_thread (timeouts s' x) = to_thread (timeouts s x)"
    using kinv_ready_thread [of t "{}" s2] by (simp_all add: s'_eq and.assoc timed_out_def)
qed

section \<open>The contract of a timeout callback\<close>

text \<open>
  What \<open>handle_timeouts\<close> relies on: a callback keeps the kernel invariant and the invariant
  \<open>I\<close> of the objects that own the callbacks, does not touch the flag, and neither creates
  nor removes expired timeouts. The steps of \<open>handle_timeouts\<close> itself keep \<open>I\<close>.
\<close>

locale timeout_callback =
  fixes call :: "fn_ptr \<Rightarrow> toid \<Rightarrow> kernel \<Rightarrow> kernel" and I :: "kernel \<Rightarrow> bool"
  assumes call_inv: "kinv {} s \<Longrightarrow> I s \<Longrightarrow> handling_timeouts s \<Longrightarrow> delta s (TTimer i) = INACTIVE \<Longrightarrow>
      kinv {} (call f (TTimer i) s) \<and> I (call f (TTimer i) s) \<and> handling_timeouts (call f (TTimer i) s) \<and>
      (\<forall>x. delta (call f (TTimer i) s) x = EXPIRED \<longleftrightarrow> delta s x = EXPIRED)"
    and I_thread: "kinv {} s \<Longrightarrow> I s \<Longrightarrow> delta s (TThread t) = EXPIRED \<Longrightarrow>
      I (handle_one_expired_timeout call (TThread t) s)"
    and I_inactive: "I s \<Longrightarrow> I (set_delta x INACTIVE s)"
    and I_expire: "kinv {} s \<Longrightarrow> I s \<Longrightarrow> \<not> handling_timeouts s \<Longrightarrow> ticks_ahead ticks s \<Longrightarrow>
      I (fst (expire ticks s))"
    and I_done: "I s \<Longrightarrow> I (s\<lparr>handling_timeouts := False\<rparr>)"
begin

lemma handle_one_kinv:
  assumes inv: "kinv {} s" "I s" and h: "handling_timeouts s" and e: "delta s y = EXPIRED"
  shows "kinv {} (handle_one_expired_timeout call y s) \<and> I (handle_one_expired_timeout call y s) \<and>
    handling_timeouts (handle_one_expired_timeout call y s) \<and>
    (\<forall>x. delta (handle_one_expired_timeout call y s) x = EXPIRED \<longleftrightarrow> x \<noteq> y \<and> delta s x = EXPIRED)"
proof (cases y)
  case (TThread t)
  then show ?thesis
    using handle_one_thread [OF inv(1) _ refl, where t = t and call = call] I_thread [OF inv, of t] e h by simp
next
  case (TTimer i)
  let ?s = "set_delta y INACTIVE s"
  have k: "kinv {} ?s" "I ?s"
    using inv e TTimer I_inactive by (auto intro: kinv_set_inactive)
  have th: "to_thread (timeouts s y) = None"
    using kinvD(4) [OF inv(1)] e TTimer by (auto simp: link_inv_def)
  show ?thesis
    using k th h call_inv [of ?s i] TTimer
    by (auto simp: handle_one_expired_timeout_def Let_def split: option.splits)
qed

lemma handle_expired_kinv:
  assumes "kinv {} s" "I s" and "handling_timeouts s" and "distinct ex"
    and "\<And>x. x \<in> set ex \<longleftrightarrow> delta s x = EXPIRED"
  shows "kinv {} (handle_expired_timeouts call ex s) \<and> I (handle_expired_timeouts call ex s) \<and>
    (\<forall>x. delta (handle_expired_timeouts call ex s) x \<noteq> EXPIRED)"
  using assms
proof (induction ex arbitrary: s)
  case (Cons y ex)
  let ?s = "handle_one_expired_timeout call y s"
  have "delta s y = EXPIRED"
    using Cons.prems(5) by auto
  note h = handle_one_kinv [OF Cons.prems(1-3) this]
  then have "x \<in> set ex \<longleftrightarrow> delta ?s x = EXPIRED" for x
    using Cons.prems(4) Cons.prems(5) [of x] by auto
  then show ?case
    using Cons.IH [of ?s] h Cons.prems(4) by simp
qed auto

lemma handle_timeouts_kinv:
  assumes inv: "kinv {} s" "I s" and nh: "\<not> handling_timeouts s" and a: "ticks_ahead ticks s"
  shows "kinv {} (handle_timeouts call ticks s) \<and> I (handle_timeouts call ticks s)"
proof (cases "timeout_q s = []")
  case False
  let ?e = "fst (expire ticks s)" and ?s = "handle_expired_timeouts call (snd (expire ticks s)) (fst (expire ticks s))"
  note f = expire_facts [OF kinvD(3) [OF inv(1)] nh a]
  have k: "kinv {} ?s" "I ?s" and ne: "\<And>x. delta ?s x \<noteq> EXPIRED"
    using handle_expired_kinv [OF kinv_expire [OF inv(1) nh a] I_expire [OF inv nh a]
        expire_sel(8) [OF kinvD(3) [OF inv(1)]] f(2)] f(1,3) by auto
  have "tq_inv (?s\<lparr>handling_timeouts := False\<rparr>)"
    using kinvD(3) [OF k(1)] ne unfolding tq_inv_def by simp
  moreover have "link_inv {} (?s\<lparr>handling_timeouts := False\<rparr>)"
    using kinvD(4) [OF k(1)] by (subst link_inv_cong [where s = ?s]) (simp_all add: is_thread_pending_def)
  ultimately have "kinv {} (?s\<lparr>handling_timeouts := False\<rparr>)"
    by (intro kinv_timeouts_change [OF k(1)]) simp_all
  with False show ?thesis
    using I_done [OF k(2)] by (simp add: handle_timeouts_expire)
qed (simp add: handle_timeouts_expire inv)

end

section \<open>Ticks when only threads wait\<close>

definition only_threads :: "kernel \<Rightarrow> bool" where
  "only_threads s \<longleftrightarrow> (\<forall>x\<in>set (timeout_q s). \<exists>t. x = TThread t)"

lemma handle_expired_threads:
  assumes "kinv {} s" and "distinct ex" and "\<And>x. x \<in> set ex \<Longrightarrow> delta s x = EXPIRED \<and> (\<exists>t. x = TThread t)"
    and "s' = handle_expired_timeouts call ex s"
  shows "kinv {} s' \<and> timeout_q s' = timeout_q s \<and> handling_timeouts s' = handling_timeouts s \<and>
    (\<forall>x. delta s' x = (if x \<in> set ex then INACTIVE else delta s x)) \<and>
    (\<forall>t. threads s' t = (if TThread t \<in> set ex then timed_out (threads s t) else threads s t))"
  using assms
proof (induction ex arbitrary: s)
  case (Cons y ex)
  obtain t where y: "y = TThread t" and e: "delta s (TThread t) = EXPIRED"
    using Cons.prems(3) by auto
  note h = handle_one_thread [OF Cons.prems(1) e refl, where call = call]
  have "delta (handle_one_expired_timeout call y s) x = EXPIRED \<and> (\<exists>t. x = TThread t)" if "x \<in> set ex" for x
    using that Cons.prems(2,3) h(4) [of x] y by auto
  note ih = Cons.IH [OF _ _ this]
  have d: "TThread t \<notin> set ex" "distinct ex" "s' = handle_expired_timeouts call ex (handle_one_expired_timeout call (TThread t) s)"
    using Cons.prems(2,4) y by auto
  show ?case
    using ih d h(1) by (auto simp: y h(3-6))
qed auto

lemma tick_threads:
  assumes inv: "kinv {} s" and nh: "\<not> handling_timeouts s" and ot: "only_threads s"
    and s': "s' = handle_timeouts call 1 s"
  shows "kinv {} s'" "\<not> handling_timeouts s'" "only_threads s'"
    "rem_ticks s' x = (if rem_ticks s x = Some 1 then None else map_option (\<lambda>r. r - 1) (rem_ticks s x))"
    "threads s' t =
       (if rem_ticks s (TThread t) = Some 1 then timed_out (threads s t) else threads s t)"
    "delta s' x = INACTIVE \<longleftrightarrow> delta s x = INACTIVE \<or> rem_ticks s x = Some 1"
proof -
  note tq = kinvD(3) [OF inv]
  note f = expire_facts [OF tq nh one_tick_ahead [OF tq]]
  note sel = expire_sel [OF tq, where ticks = 1]
  let ?e = "fst (expire 1 s)" and ?h = "handle_expired_timeouts call (snd (expire 1 s)) (fst (expire 1 s))"
  have thr: "\<exists>t. x = TThread t" if "rem_ticks s x \<noteq> None" for x
    using that ot by (auto simp: only_threads_def)
  have "kinv {} ?h \<and> timeout_q ?h = timeout_q ?e \<and> handling_timeouts ?h = handling_timeouts ?e \<and>
    (\<forall>x. delta ?h x = (if x \<in> set (snd (expire 1 s)) then INACTIVE else delta ?e x)) \<and>
    (\<forall>t. threads ?h t =
       (if TThread t \<in> set (snd (expire 1 s)) then timed_out (threads ?e t) else threads ?e t))"
  proof (rule handle_expired_threads [OF kinv_expire [OF inv nh one_tick_ahead [OF tq]] f(2) _ refl])
    show "delta ?e x = EXPIRED \<and> (\<exists>t. x = TThread t)" if "x \<in> set (snd (expire 1 s))" for x
      using that f(1,3) [of x] thr [of x] by simp
  qed
  then have h: "kinv {} ?h" "timeout_q ?h = timeout_q ?e"
    "\<And>x. delta ?h x = (if rem_ticks s x = Some 1 then INACTIVE else delta ?e x)"
    "\<And>t. threads ?h t =
       (if rem_ticks s (TThread t) = Some 1 then timed_out (threads s t) else threads s t)"
    by (simp_all add: f(1) sel)
  have remh: "rem_ticks ?h x = rem_ticks ?e x" for x
    unfolding h(2)
  proof (rule remaining_cong)
    fix y assume "y \<in> set (timeout_q ?e)"
    then have "rem_ticks ?e y \<noteq> None"
      by simp
    then show "delta ?h y = delta ?e y"
      unfolding h(3) using f(4) [of y] by (auto split: if_splits)
  qed
  have sub: "y \<in> set (timeout_q s)" if "y \<in> set (timeout_q ?e)" for y
    using that f(4) [of y] remaining_None [of "delta ?e" "timeout_q ?e" y]
      remaining_None [of "delta s" "timeout_q s" y] by (auto simp del: remaining_None split: if_splits)
  have "kinv {} s' \<and> \<not> handling_timeouts s' \<and> only_threads s' \<and>
     (\<forall>x. rem_ticks s' x = (if rem_ticks s x = Some 1 then None else map_option (\<lambda>r. r - 1) (rem_ticks s x))) \<and>
     (\<forall>t. threads s' t =
       (if rem_ticks s (TThread t) = Some 1 then timed_out (threads s t) else threads s t)) \<and>
     (\<forall>x. delta s' x = INACTIVE \<longleftrightarrow> delta s x = INACTIVE \<or> rem_ticks s x = Some 1)"
  proof (cases "timeout_q s = []")
    case True
    then show ?thesis
      using inv nh ot by (simp add: s' handle_timeouts_expire)
  next
    case False
    then have eq: "s' = ?h\<lparr>handling_timeouts := False\<rparr>"
      by (simp add: s' handle_timeouts_expire)
    have "tq_inv s'"
      using kinvD(3) [OF h(1)] h(3) f(3) unfolding tq_inv_def eq by (auto split: if_splits)
    moreover have "link_inv {} s'"
      using kinvD(4) [OF h(1)] by (subst link_inv_cong [where s = ?h]) (simp_all add: is_thread_pending_def eq)
    ultimately have "kinv {} s'"
      by (intro kinv_timeouts_change [OF h(1)]) (simp_all add: eq)
    moreover have "only_threads s'"
      using sub ot by (auto simp: only_threads_def eq h(2))
    ultimately show ?thesis
      using remh f(4,5) h(3,4) by (simp add: eq)
  qed
  then show "kinv {} s'" "\<not> handling_timeouts s'" "only_threads s'"
    "rem_ticks s' x = (if rem_ticks s x = Some 1 then None else map_option (\<lambda>r. r - 1) (rem_ticks s x))"
    "threads s' t =
       (if rem_ticks s (TThread t) = Some 1 then timed_out (threads s t) else threads s t)"
    "delta s' x = INACTIVE \<longleftrightarrow> delta s x = INACTIVE \<or> rem_ticks s x = Some 1"
    by blast+
qed

section \<open>Properties\<close>

lemma runnable_and_not: "runnable_state w \<Longrightarrow> runnable_state (w AND m)"
  by (simp add: runnable_state_def bit_and_iff)

lemma ticks_until:
  assumes inv: "kinv {} s" and nh: "\<not> handling_timeouts s" and ot: "only_threads s"
    and r: "rem_ticks s (TThread t) = Some r" and k: "int k < r"
    and s': "s' = (handle_timeouts call 1 ^^ k) s"
  shows "kinv {} s' \<and> \<not> handling_timeouts s' \<and> only_threads s' \<and>
    rem_ticks s' (TThread t) = Some (r - int k) \<and>
    threads s' t = threads s t"
  using k s'
proof (induction k arbitrary: s')
  case (Suc k)
  let ?s = "(handle_timeouts call 1 ^^ k) s"
  have ih: "kinv {} ?s" "\<not> handling_timeouts ?s" "only_threads ?s"
    "rem_ticks ?s (TThread t) = Some (r - int k)" "threads ?s t = threads s t"
    using Suc by auto
  have "s' = handle_timeouts call 1 ?s"
    using Suc.prems by simp
  note tk = tick_threads [OF ih(1-3) this]
  show ?case
    using tk(1-3) tk(4) [of "TThread t"] tk(5) [of t] ih(4,5) Suc.prems(1) by auto
qed (use assms in simp)

lemma wakes_at:
  assumes inv: "kinv {} s" and nh: "\<not> handling_timeouts s" and ot: "only_threads s"
    and r: "rem_ticks s (TThread t) = Some r" and run: "runnable_state (thread_state (timed_out (threads s t)))"
  shows "int k < r \<Longrightarrow> \<not> is_thread_ready t ((handle_timeouts call 1 ^^ k) s)"
    and "is_thread_ready t ((handle_timeouts call 1 ^^ nat r) s)"
    and "threads ((handle_timeouts call 1 ^^ nat r) s) t = timed_out (threads s t)"
    and "kinv {} ((handle_timeouts call 1 ^^ nat r) s)"
proof -
  have pos: "0 < r"
    using kinvD(3) [OF inv] r unfolding tq_inv_def by blast
  show "\<not> is_thread_ready t ((handle_timeouts call 1 ^^ k) s)" if k: "int k < r"
  proof -
    let ?s = "(handle_timeouts call 1 ^^ k) s"
    have "kinv {} ?s" "rem_ticks ?s (TThread t) \<noteq> None"
      using ticks_until [OF inv nh ot r k refl, of call] by (simp_all del: remaining_None)
    then have "tq_inv ?s" "TThread t \<in> set (timeout_q ?s)"
      using kinvD(3) by simp_all
    then have "0 \<le> delta ?s (TThread t)"
      by (simp add: tq_inv_def)
    then show ?thesis
      by (simp add: is_thread_ready_bits)
  qed
  define k where "k = nat (r - 1)"
  let ?s = "(handle_timeouts call 1 ^^ k) s"
  have s: "kinv {} ?s" "\<not> handling_timeouts ?s" "only_threads ?s" "rem_ticks ?s (TThread t) = Some 1"
    "threads ?s t = threads s t"
    using ticks_until [OF inv nh ot r _ refl, of k call] pos by (simp_all add: k_def)
  have "(handle_timeouts call 1 ^^ nat r) s = handle_timeouts call 1 ?s"
    using pos by (simp add: k_def nat_diff_distrib' flip: funpow.simps(2) [unfolded comp_def, THEN fun_cong])
  then show "is_thread_ready t ((handle_timeouts call 1 ^^ nat r) s)"
    "threads ((handle_timeouts call 1 ^^ nat r) s) t = timed_out (threads s t)"
    "kinv {} ((handle_timeouts call 1 ^^ nat r) s)"
    using tick_threads(1) [OF s(1-3) refl, where call = call] tick_threads(5) [OF s(1-3) refl, where call = call and t = t] tick_threads(6) [OF s(1-3) refl, where call = call and x = "TThread t"] s(4,5) run
    by (simp_all add: is_thread_ready_bits)
qed

text \<open>
  C2: A sleeping thread wakes exactly on time. After \<open>k_sleep\<close> of \<open>duration\<close>
  milliseconds the calling thread is not ready at any of the first \<open>1 + ceil(duration/2)\<close>
  ticks and is ready after the last of them (a tick is 2 ms, so it never wakes early), as
  long as every other timeout belongs to a thread.
\<close>

theorem k_sleep_wakes_on_time:
  assumes "kinv {} s" and "can_block s" and "\<not> is_in_isr s" and "\<not> handling_timeouts s"
    and "only_threads s" and "0 < duration" and "duration < 2 ^ 31"
    and "n = nat (1 + (duration + 1) div 2)"
  shows "(\<forall>k<n. \<not> is_thread_ready (current s) ((handle_timeouts call 1 ^^ k) (k_sleep call duration s))) \<and>
    is_thread_ready (current s) ((handle_timeouts call 1 ^^ n) (k_sleep call duration s)) \<and>
    duration \<le> MS_PER_TICK * (int n - 1)"
proof -
  let ?s = "k_sleep call duration s" and ?t = "current s"
  note k = kinv_k_sleep [OF assms(1-3,6,7), of call]
  have tk: "0 < TICK_ALIGN + ms_to_ticks duration"
    using ticks_ok [of duration] assms by simp
  have run: "runnable_state (thread_state (timed_out (threads ?s ?t)))" and nh: "\<not> handling_timeouts ?s"
    using assms by (auto simp: k_sleep_def Let_def add_thread_timeout_def add_timeout_sel [OF tk]
        can_block_def is_thread_ready_bits is_in_isr_def timed_out_def runnable_and_not)
  have "x \<in> set (timeout_q ?s) \<Longrightarrow> x = TThread ?t \<or> x \<in> set (timeout_q s)" for x
    using k(2) [of x] remaining_None [of "delta ?s" "timeout_q ?s" x]
      remaining_None [of "delta s" "timeout_q s" x] by (auto simp del: remaining_None split: if_splits)
  then have ot: "only_threads ?s"
    using assms(5) unfolding only_threads_def by blast
  have r: "rem_ticks ?s (TThread ?t) = Some (int n)"
    using k(2) [of "TThread ?t"] assms by simp
  show ?thesis
    using wakes_at [OF k(1) nh ot r run, where call = call] assms(6-8) by simp
qed

theorem k_sleep_wakes_on_time_witness:
  "is_thread_ready 1 ((handle_timeouts (\<lambda>_ _ s. s) 1 ^^ 6) (k_sleep (\<lambda>_ _ s. s) 10 boot))"
  using k_sleep_wakes_on_time [of boot 10 6 "\<lambda>_ _ s. s"]
  by (simp add: is_in_isr_def only_threads_def)



text \<open>
  \<open>k_uptime_get_32\<close> is the low word of \<open>k_uptime_get\<close>, although it multiplies the
  truncated tick counter: the truncation commutes with the conversion to milliseconds.
\<close>

theorem k_uptime_get_32_low_word: "k_uptime_get_32 s = ucast (k_uptime_get s)"
proof -
  have "ucast (ucast (ucast w :: u32) * 2 :: u64) = (ucast (w * 2) :: u32)" for w :: u64
    by transfer (simp add: take_bit_eq_mod mod_mult_left_eq mod_mod_cancel)
  then show ?thesis
    by (simp add: k_uptime_get_32_def k_uptime_get_def ticks_to_ms_u64_def tick_get_def tick_get_32_def)
qed

end
