(* ===== verification/Waitable.thy ===== *)
theory Waitable
  imports Sys_Clock
begin

text \<open>
  The contract the kernel objects share: an object hands out units of a resource (a count,
  a stacked word, a queued message, a free block), and threads that find none wait on its
  queue. A \<open>give\<close> serves the first waiter if there is one and stores the unit otherwise;
  a \<open>take\<close> takes a stored unit if there is one. The client lemma is that no wake-up is
  lost: units are available only while nobody waits.
\<close>

text \<open>The result of a call that may block: it returned, or its thread was switched out.\<close>

datatype 'a outcome = Returned 'a | Switched_out

datatype 'a object_op = Give 'a | Take int | Env "kernel \<Rightarrow> kernel"

fun run_ops :: "('o \<Rightarrow> 's \<Rightarrow> bool) \<Rightarrow> ('o \<Rightarrow> 's \<Rightarrow> 's) \<Rightarrow> 'o list \<Rightarrow> 's \<Rightarrow> 's option" where
  "run_ops ok step [] s = Some s"
| "run_ops ok step (o1 # os) s = (if ok o1 s then run_ops ok step os (step o1 s) else None)"

text \<open>
  A waiter has been served: it left wait queue \<open>w\<close>, its timeout is cancelled, and no
  other thread started or stopped waiting.
\<close>

definition served :: "tid \<Rightarrow> wqid \<Rightarrow> kernel \<Rightarrow> kernel \<Rightarrow> bool" where
  "served t w s s' \<longleftrightarrow>
     kinv {} s' \<and> wait_qs s' = (wait_qs s)(w := remove1 t (wait_qs s w)) \<and>
     \<not> is_thread_pending t s' \<and> delta s' (TThread t) = INACTIVE \<and>
     (\<forall>u. u \<noteq> t \<longrightarrow> is_thread_pending u s' = is_thread_pending u s)"

lemma served_frame [simp]:
  "served t w s (Swap s') = served t w s s'"
  "served t w s (reschedule_threads s') = served t w s s'"
  "served t w s (upd_thread u (\<lambda>b. b\<lparr>return_value := v\<rparr>) s') = served t w s s'"
  "served t w s (upd_thread u (\<lambda>b. b\<lparr>swap_data := d\<rparr>) s') = served t w s s'"
  by (simp_all add: served_def)

lemma served_wake:
  assumes inv: "kinv {} s" and f: "find_first_thread_to_unpend w None s = Some t"
  shows "served t w s (wake t s)"
proof -
  note tw = find_first_Some(1) [OF inv f]
  have "delta (wake t s) (TThread t) = INACTIVE"
    using transit_abort(2) [OF transit_unpend [OF inv f]] by (simp add: wake_def)
  then show ?thesis
    using kinv_wake [OF inv f] wake_sel [OF inv tw] wake_pending [OF inv tw] by (simp add: served_def)
qed

text \<open>
  The same hand-over when the return value is set before the timeout is aborted, as in
  \<open>k_mem_slab_free\<close> and the message queues.
\<close>

definition wake_upd :: "tid \<Rightarrow> (thread_base \<Rightarrow> thread_base) \<Rightarrow> kernel \<Rightarrow> kernel" where
  "wake_upd t f s = ready_thread t (fst (abort_thread_timeout t (upd_thread t f (unpend_thread t s))))"

lemma wake_upd:
  assumes inv: "kinv {} s" and ff: "find_first_thread_to_unpend w None s = Some t"
    and f: "\<And>b. prio (f b) = prio b" "\<And>b. thread_state (f b) = thread_state b"
  shows "served t w s (wake_upd t f s)"
    and "current (wake_upd t f s) = current s" "nested (wake_upd t f s) = nested s"
    "handling_timeouts (wake_upd t f s) = handling_timeouts s" "timers (wake_upd t f s) = timers s"
    "idle_thread (wake_upd t f s) = idle_thread s"
    "threads (wake_upd t f s) u =
      (if u = t then (f ((threads s t)\<lparr>thread_state := thread_state (threads s t) AND NOT THREAD_PENDING\<rparr>))
                       \<lparr>thread_state := (thread_state (threads s t) AND NOT THREAD_PENDING) AND NOT THREAD_PRESTART\<rparr>
       else threads s u)"
proof -
  note tw = find_first_Some(1) [OF inv ff]
  let ?s = "upd_thread t f (unpend_thread t s)"
  have "kinv X ?s = kinv X (unpend_thread t s)" for X
    by (rule kinv_cong) (simp_all add: f)
  then have tr: "transit t ?s"
    using transit_unpend [OF inv ff] by (simp add: transit_def is_thread_pending_def f)
  note a = transit_abort [OF tr]
  show "served t w s (wake_upd t f s)"
    using transit_ready [OF a] a(2)
    by (simp add: served_def wake_upd_def abort_thread_timeout_def unpend_thread_eq [OF inv tw]
        is_thread_pending_bit f)
  show "current (wake_upd t f s) = current s" "nested (wake_upd t f s) = nested s"
    "handling_timeouts (wake_upd t f s) = handling_timeouts s" "timers (wake_upd t f s) = timers s"
    "idle_thread (wake_upd t f s) = idle_thread s"
    "threads (wake_upd t f s) u =
      (if u = t then (f ((threads s t)\<lparr>thread_state := thread_state (threads s t) AND NOT THREAD_PENDING\<rparr>))
                       \<lparr>thread_state := (thread_state (threads s t) AND NOT THREAD_PENDING) AND NOT THREAD_PRESTART\<rparr>
       else threads s u)"
    by (simp_all add: wake_upd_def abort_thread_timeout_def unpend_thread_eq [OF inv tw] f)
qed

lemma wake_upd_delta:
  assumes inv: "kinv {} s" and ff: "find_first_thread_to_unpend w None s = Some t"
  shows "delta (wake_upd t f s) (TThread u) = INACTIVE \<longleftrightarrow> u = t \<or> delta s (TThread u) = INACTIVE"
proof -
  note tw = find_first_Some [OF inv ff]
  let ?s = "upd_thread t f (unpend_thread t s)"
  have d: "delta ?s x = delta s x" "timeout_q ?s = timeout_q s" "handling_timeouts ?s = handling_timeouts s" for x
    unfolding unpend_thread_eq [OF inv tw(1)] by simp_all
  have "tq_inv ?s"
    using kinvD(3) [OF inv] by (subst tq_inv_cong [where s = s]) (simp_all only: d)
  then show ?thesis
    using tq_inv_abort(4) [of ?s "TThread t"] tq_inv_abort(5) [of ?s "TThread t" "TThread u"] tw(2) d(1) [of "TThread t"] d(1) [of "TThread u"]
    by (cases "u = t") (simp_all add: wake_upd_def abort_thread_timeout_def)
qed

lemma wake_delta:
  assumes "kinv {} s" and "find_first_thread_to_unpend w None s = Some t"
  shows "delta (wake t s) (TThread u) = INACTIVE \<longleftrightarrow> u = t \<or> delta s (TThread u) = INACTIVE"
proof -
  have "wake t s = wake_upd t (\<lambda>b. b) s"
    by (simp add: wake_def wake_upd_def upd_thread_def)
  then show ?thesis
    using wake_upd_delta [OF assms, of "\<lambda>b. b" u] by simp
qed

lemma waiter_not_current:
  "kinv {} s \<Longrightarrow> is_thread_ready (current s) s \<Longrightarrow> t \<in> set (wait_qs s w) \<Longrightarrow> t \<noteq> current s"
  using kinv_not_waiting not_ready_pending by blast

text \<open>
  Conditions on the caller. A call that may block comes from a thread that is ready and not
  the idle thread, outside interrupts. A step of the rest of the system keeps the kernel
  invariant and adds no waiter to the object.
\<close>

definition env_ok :: "(kernel \<Rightarrow> kernel) \<Rightarrow> wqid \<Rightarrow> kernel \<Rightarrow> bool" where
  "env_ok f w s \<longleftrightarrow> kinv {} (f s) \<and> \<not> handling_timeouts (f s) \<and> set (wait_qs (f s) w) \<subseteq> set (wait_qs s w)"

definition take_ok :: "int \<Rightarrow> kernel \<Rightarrow> bool" where
  "take_ok timeout s \<longleftrightarrow> timeout_ok timeout \<and> (timeout \<noteq> K_NO_WAIT \<longrightarrow> can_block s \<and> \<not> is_in_isr s)"

locale waitable =
  fixes inv :: "'s \<Rightarrow> bool" and avail :: "'s \<Rightarrow> nat" and waiting :: "'s \<Rightarrow> tid list"
    and ok :: "'a object_op \<Rightarrow> 's \<Rightarrow> bool" and step :: "'a object_op \<Rightarrow> 's \<Rightarrow> 's"
  assumes step_inv: "inv s \<Longrightarrow> ok o1 s \<Longrightarrow> inv (step o1 s)"
    and give_serves: "inv s \<Longrightarrow> ok (Give a) s \<Longrightarrow> waiting s = t # ts \<Longrightarrow>
      waiting (step (Give a) s) = ts \<and> avail (step (Give a) s) = avail s"
    and give_stores: "inv s \<Longrightarrow> ok (Give a) s \<Longrightarrow> waiting s = [] \<Longrightarrow> waiting (step (Give a) s) = []"
    and take_unit: "inv s \<Longrightarrow> ok (Take k) s \<Longrightarrow> 0 < avail s \<Longrightarrow>
      avail (step (Take k) s) = avail s - 1 \<and> waiting (step (Take k) s) = waiting s"
    and take_none: "inv s \<Longrightarrow> ok (Take k) s \<Longrightarrow> avail s = 0 \<Longrightarrow> avail (step (Take k) s) = 0"
    and env_frame: "inv s \<Longrightarrow> ok (Env f) s \<Longrightarrow>
      avail (step (Env f) s) = avail s \<and> set (waiting (step (Env f) s)) \<subseteq> set (waiting s)"
begin

lemma step_no_lost_wakeup:
  assumes "inv s" and "ok o1 s" and "avail s = 0 \<or> waiting s = []"
  shows "avail (step o1 s) = 0 \<or> waiting (step o1 s) = []"
proof (cases o1)
  case (Give a)
  then show ?thesis
    using assms give_serves [of s a] give_stores [of s a] by (cases "waiting s") auto
next
  case (Take k)
  then show ?thesis
    using assms take_unit [of s k] take_none [of s k] by (cases "avail s = 0") auto
next
  case (Env f)
  then show ?thesis
    using assms env_frame [of s f] by auto
qed

lemma no_lost_wakeup:
  assumes "inv s" and "avail s = 0 \<or> waiting s = []" and "run_ops ok step os s = Some s'"
  shows "inv s' \<and> (avail s' = 0 \<or> waiting s' = [])"
  using assms
proof (induction os arbitrary: s)
  case (Cons o1 os)
  then have "ok o1 s" and "run_ops ok step os (step o1 s) = Some s'"
    by (auto split: if_splits)
  then show ?case
    using Cons.IH [OF step_inv step_no_lost_wakeup] Cons.prems by blast
qed simp

end

section \<open>A blocking call times out\<close>

lemma runnable_timed_out:
  "runnable_state (w :: u8) \<Longrightarrow> runnable_state ((w OR THREAD_PENDING) AND NOT THREAD_PENDING AND NOT THREAD_PRESTART)"
  unfolding runnable_state_def bit_and_iff bit_or_iff bit_not_iff by auto

lemma rem_ticks_pend_current:
  assumes inv: "kinv {} s" and b: "can_block s" and t: "0 \<le> timeout" "timeout < 2 ^ 31"
  shows "rem_ticks (pend_current_thread call w timeout s) x =
    (if x = TThread (current s) then Some (1 + (timeout + 1) div 2) else rem_ticks s x)"
proof -
  let ?t = "current s"
  let ?s = "mark_thread_as_pending ?t (insert_in_wait_q ?t w (remove_thread_from_ready_q ?t s))"
  have tk: "0 < TICK_ALIGN + ms_to_ticks timeout" "TICK_ALIGN + ms_to_ticks timeout < 2 ^ 31"
    using ticks_ok t by auto
  have same: "timeouts ?s = timeouts s" "timeout_q ?s = timeout_q s" "handling_timeouts ?s = handling_timeouts s"
    by (simp_all add: insert_in_wait_q_def)
  have "tq_inv ?s"
    using kinvD(3) [OF inv] by (subst tq_inv_cong [where s = s]) (simp_all add: same del: mark_sel)
  moreover have "delta ?s (TThread ?t) = INACTIVE"
    using b ready_delta by (simp add: same can_block_def del: mark_sel)
  ultimately have "rem_ticks (add_timeout call (Some ?t) (TThread ?t) (Some w) (TICK_ALIGN + ms_to_ticks timeout) ?s) x =
      (if x = TThread ?t then Some (TICK_ALIGN + ms_to_ticks timeout) else rem_ticks s x)"
    using tq_inv_add_timeout(2) [OF _ _ tk] by (simp add: same del: mark_sel)
  then show ?thesis
    using t ms_to_ticks_eq [OF t]
    by (simp add: pend_current_thread_def pend_thread_def Let_def add_thread_timeout_def del: mark_sel)
qed

lemma block_times_out:
  assumes inv: "kinv {} s" and b: "can_block s" and nh: "\<not> handling_timeouts s" and ot: "only_threads s"
    and t: "0 < timeout" "timeout < 2 ^ 31" and n: "n = nat (1 + (timeout + 1) div 2)"
    and s': "s' = Swap (pend_current_thread call w timeout s)"
    and tick: "tick = (\<lambda>k. (handle_timeouts call 1 ^^ k) s')"
  shows "(\<forall>k<n. \<not> is_thread_ready (current s) (tick k)) \<and>
    is_thread_ready (current s) (tick n) \<and> return_value (threads (tick n) (current s)) = - EAGAIN \<and>
    current s \<notin> set (wait_qs (tick n) w) \<and> kinv {} (tick n)"
proof -
  have ok: "timeout_ok timeout"
    using t by (simp add: timeout_ok_def)
  let ?p = "pend_current_thread call w timeout s" and ?t = "current s"
  note sel = pend_current_sel [OF ok, of call w s]
  have k: "kinv {} s'" and nh': "\<not> handling_timeouts s'"
    using kinv_pend_current(1) [OF inv b ok, of call w] nh by (simp_all add: s' sel)
  note rem = rem_ticks_pend_current [OF inv b, of timeout call w]
  have r: "rem_ticks s' (TThread ?t) = Some (int n)"
    using rem [of "TThread ?t"] t n by (simp add: s')
  have "x \<in> set (timeout_q s') \<Longrightarrow> x = TThread ?t \<or> x \<in> set (timeout_q s)" for x
    using rem [of x] t remaining_None [of "delta ?p" "timeout_q ?p" x]
      remaining_None [of "delta s" "timeout_q s" x] by (auto simp: s' simp del: remaining_None split: if_splits)
  then have ot': "only_threads s'"
    using ot unfolding only_threads_def by blast
  have "runnable_state (thread_state (threads s ?t))"
    using b by (simp add: can_block_def is_thread_ready_bits)
  then have run: "runnable_state (thread_state (timed_out (threads s' ?t)))"
    using runnable_timed_out by (simp add: s' sel timed_out_def)
  note w = wakes_at [OF k nh' ot' r run, where call = call]
  have "\<not> is_thread_pending ?t (tick n)"
    using w(2) not_ready_pending by (auto simp: tick)
  then have "?t \<notin> set (wait_qs (tick n) w)"
    using kinv_not_waiting w(4) by (simp add: tick)
  then show ?thesis
    using w by (simp add: tick s' sel)
qed

section \<open>A thread that waits\<close>

text \<open>The main thread of \<open>boot\<close> has blocked forever on a wait queue, and the idle thread runs.\<close>

definition boot_waiting :: "wqid \<Rightarrow> kernel" where
  "boot_waiting w = Swap (pend_current_thread (\<lambda>_ _ s. s) w K_FOREVER boot)"

lemma boot_waiting [simp]:
  "kinv {} (boot_waiting w)" "wait_qs (boot_waiting w) w = [1]" "\<not> handling_timeouts (boot_waiting w)"
  "is_thread_ready (current (boot_waiting w)) (boot_waiting w)" "\<not> is_in_isr (boot_waiting w)"
proof -
  have ok: "timeout_ok K_FOREVER"
    by (simp add: timeout_ok_def)
  note p = kinv_pend_current [OF kinv_boot can_block_boot ok, of "\<lambda>_ _ s. s" w]
  note sel = pend_current_sel [OF ok, of "\<lambda>_ _ s. s" w boot]
  show "kinv {} (boot_waiting w)"
    using p by (simp add: boot_waiting_def)
  then show "is_thread_ready (current (boot_waiting w)) (boot_waiting w)"
    using cache_ready [of "boot_waiting w"] by (simp add: boot_waiting_def)
  show "wait_qs (boot_waiting w) w = [1]" "\<not> handling_timeouts (boot_waiting w)" "\<not> is_in_isr (boot_waiting w)"
    using p sel by (simp_all add: boot_waiting_def is_in_isr_def)
qed

lemma kinv_boot2 [simp]: "kinv {} boot2"
proof (rule kinvI)
  show "wq_inv {} boot2"
    by (simp add: wq_inv_def is_thread_pending_bit thread0_def)
  show "tq_inv boot2"
    by (simp add: tq_inv_def timeout0_def)
  show "link_inv {} boot2"
    by (simp add: link_inv_def timeout0_def)
qed (simp, simp add: boot2_def boot_def)

text \<open>The same with a second thread of the main thread's priority, which runs.\<close>

definition boot2_waiting :: "wqid \<Rightarrow> kernel" where
  "boot2_waiting w = Swap (pend_current_thread (\<lambda>_ _ s. s) w K_FOREVER boot2)"

lemma boot2_waiting [simp]:
  "kinv {} (boot2_waiting w)" "wait_qs (boot2_waiting w) w = [1]" "\<not> handling_timeouts (boot2_waiting w)"
  "current (boot2_waiting w) = 2" "is_thread_ready 2 (boot2_waiting w)" "nested (boot2_waiting w) = 0"
  "idle_thread (boot2_waiting w) = 0" "sched_locked (threads (boot2_waiting w) 2) = 0"
proof -
  have ok: "timeout_ok K_FOREVER"
    by (simp add: timeout_ok_def)
  have cb: "can_block boot2"
    by (simp add: can_block_def is_thread_ready_bits runnable_state_def)
  note p = kinv_pend_current [OF kinv_boot2 cb ok, of "\<lambda>_ _ s. s" w]
  note sel = pend_current_sel [OF ok, of "\<lambda>_ _ s. s" w boot2]
  show k: "kinv {} (boot2_waiting w)"
    using p by (simp add: boot2_waiting_def)
  have rq: "rq (boot2_waiting w) = (\<lambda>_. [])(16 := [2], 31 := [0])"
    by (auto simp: boot2_waiting_def pend_current_thread_def pend_thread_def Let_def insert_in_wait_q_def
        fun_eq_iff)
  show "current (boot2_waiting w) = 2"
  proof -
    obtain i where i: "top_index (boot2_waiting w) i" "cache (boot2_waiting w) = hd (rq (boot2_waiting w) i)"
      using cache_on_top [OF kinvD(1) [OF k]] by metis
    moreover have "top_index (boot2_waiting w) 16"
      by (auto simp: top_index_def rq)
    ultimately show ?thesis
      using top_index_unique rq by (fastforce simp: boot2_waiting_def)
  qed
  then show "is_thread_ready 2 (boot2_waiting w)"
    using cache_ready [of "boot2_waiting w"] k by (simp add: boot2_waiting_def)
  show "wait_qs (boot2_waiting w) w = [1]" "\<not> handling_timeouts (boot2_waiting w)" "nested (boot2_waiting w) = 0"
    "idle_thread (boot2_waiting w) = 0" "sched_locked (threads (boot2_waiting w) 2) = 0"
    using p sel by (simp_all add: boot2_waiting_def thread0_def boot2_def boot_def)
qed

end
