(* ===== verification/Mutex.thy ===== *)
theory Mutex
  imports Waitable
begin

text \<open>
  Mutexes with priority inheritance: kernel/mutex.c. \<open>k_mutex_lock\<close> stops at \<open>_Swap\<close>;
  \<open>k_mutex_lock_resume\<close> is the rest of it, run when the calling thread is current again.
\<close>

record k_mutex =
  mutex_wait_q :: wqid
  owner :: "tid option"
  lock_count :: u32
  owner_orig_prio :: int


section \<open>Operations\<close>

definition k_mutex_init :: "k_mutex \<Rightarrow> kernel \<Rightarrow> kernel \<times> k_mutex" where
  "k_mutex_init m s =
     (s\<lparr>wait_qs := (wait_qs s)(mutex_wait_q m := [])\<rparr>, m\<lparr>owner := None, lock_count := 0\<rparr>)"

definition new_prio_for_inheritance :: "int \<Rightarrow> int \<Rightarrow> int" where
  "new_prio_for_inheritance target lim =
     (let new_prio = (if is_prio_higher target lim then target else lim)
      in get_new_prio_with_ceiling new_prio)"

text \<open>The owner is dereferenced: with no owner this is a null pointer access.\<close>

definition adjust_owner_prio :: "k_mutex \<Rightarrow> int \<Rightarrow> kernel \<Rightarrow> kernel" where
  "adjust_owner_prio m new_prio s =
     (case owner m of
        None \<Rightarrow> s\<lparr>fault := True\<rparr>
      | Some t \<Rightarrow> if prio (threads s t) \<noteq> new_prio then thread_priority_set t new_prio s else s)"

definition owner_prio :: "k_mutex \<Rightarrow> kernel \<Rightarrow> int" where
  "owner_prio m s = (case owner m of Some t \<Rightarrow> prio (threads s t) | None \<Rightarrow> 0)"

definition k_mutex_lock ::
    "(fn_ptr \<Rightarrow> toid \<Rightarrow> kernel \<Rightarrow> kernel) \<Rightarrow> k_mutex \<Rightarrow> int \<Rightarrow> kernel \<Rightarrow>
      kernel \<times> k_mutex \<times> int outcome" where
  "k_mutex_lock call m timeout s =
     (let s = sched_lock_internal s in
      if lock_count m = 0 \<or> owner m = Some (current s) then
        let m = m\<lparr>owner_orig_prio :=
                    if lock_count m = 0 then prio (threads s (current s)) else owner_orig_prio m\<rparr>;
            m = m\<lparr>lock_count := lock_count m + 1, owner := Some (current s)\<rparr>
        in (k_sched_unlock s, m, Returned 0)
      else if timeout = K_NO_WAIT then (k_sched_unlock s, m, Returned (- EBUSY))
      else
        let s = kassert (owner m \<noteq> None) s;
            new_prio = new_prio_for_inheritance (prio (threads s (current s))) (owner_prio m s);
            s = (if is_prio_higher new_prio (owner_prio m s) then adjust_owner_prio m new_prio s else s);
            s = pend_current_thread call (mutex_wait_q m) timeout s
        in (Swap s, m, Switched_out))"

definition k_mutex_lock_resume :: "k_mutex \<Rightarrow> kernel \<Rightarrow> kernel \<times> int" where
  "k_mutex_lock_resume m s =
     (if return_value (threads s (current s)) = 0 then (k_sched_unlock s, 0)
      else
        let new_prio = owner_orig_prio m;
            new_prio = (case wait_qs s (mutex_wait_q m) of
                          waiter # _ \<Rightarrow> new_prio_for_inheritance (prio (threads s waiter)) new_prio
                        | [] \<Rightarrow> new_prio);
            s = adjust_owner_prio m new_prio s
        in (k_sched_unlock s, - EAGAIN))"

definition k_mutex_unlock :: "k_mutex \<Rightarrow> kernel \<Rightarrow> kernel \<times> k_mutex" where
  "k_mutex_unlock m s =
     (let s = kassert (lock_count m > 0) s;
          s = kassert (owner m = Some (current s)) s;
          s = sched_lock_internal s;
          m = m\<lparr>lock_count := lock_count m - 1\<rparr>
      in if lock_count m \<noteq> 0 then (k_sched_unlock s, m)
         else
           let s = adjust_owner_prio m (owner_orig_prio m) s
           in case unpend_first_thread (mutex_wait_q m) s of
                (s, Some new_owner) \<Rightarrow>
                  let s = fst (abort_thread_timeout new_owner s);
                      s = ready_thread new_owner s;
                      s = set_thread_return_value new_owner 0 s;
                      m = m\<lparr>owner := Some new_owner, lock_count := lock_count m + 1,
                            owner_orig_prio := prio (threads s new_owner)\<rparr>
                  in (k_sched_unlock s, m)
              | (s, None) \<Rightarrow> (k_sched_unlock s, m\<lparr>owner := None\<rparr>))"

section \<open>Locking the scheduler\<close>

text \<open>The scheduler can be locked once more: the nesting counter counts down from 0.\<close>

definition can_sched_lock :: "kernel \<Rightarrow> bool" where
  "can_sched_lock s \<longleftrightarrow> \<not> is_in_isr s \<and> sched_locked (threads s (current s)) \<noteq> 1"

definition with_sched_lock :: "kernel \<Rightarrow> kernel" where
  "with_sched_lock s = upd_thread (current s) (\<lambda>b. b\<lparr>sched_locked := sched_locked b - 1\<rparr>) s"

lemma sched_lock_eq: "can_sched_lock s \<Longrightarrow> sched_lock_internal s = with_sched_lock s"
  by (simp add: sched_lock_internal_def with_sched_lock_def can_sched_lock_def Let_def is_in_isr_def)

lemma with_sched_lock_sel [simp]:
  "current (with_sched_lock s) = current s" "nested (with_sched_lock s) = nested s"
  "idle_thread (with_sched_lock s) = idle_thread s" "wait_qs (with_sched_lock s) = wait_qs s"
  "timeouts (with_sched_lock s) = timeouts s" "timeout_q (with_sched_lock s) = timeout_q s"
  "handling_timeouts (with_sched_lock s) = handling_timeouts s" "fault (with_sched_lock s) = fault s"
  "prio (threads (with_sched_lock s) t) = prio (threads s t)"
  "thread_state (threads (with_sched_lock s) t) = thread_state (threads s t)"
  "kinv X (with_sched_lock s) = kinv X s"
  "is_thread_ready t (with_sched_lock s) = is_thread_ready t s"
  "can_block (with_sched_lock s) = can_block s"
  by (simp_all add: with_sched_lock_def can_block_def)

lemma kinv_k_sched_unlock [simp]: "kinv X (k_sched_unlock s) = kinv X s"
  by (simp add: k_sched_unlock_def)

lemma k_sched_unlock_sel [simp]:
  "timeouts (k_sched_unlock s) = timeouts s" "timeout_q (k_sched_unlock s) = timeout_q s"
  "wait_qs (k_sched_unlock s) = wait_qs s" "nested (k_sched_unlock s) = nested s"
  "handling_timeouts (k_sched_unlock s) = handling_timeouts s" "fault (k_sched_unlock s) = fault s"
  "idle_thread (k_sched_unlock s) = idle_thread s"
  "prio (threads (k_sched_unlock s) t) = prio (threads s t)"
  "thread_state (threads (k_sched_unlock s) t) = thread_state (threads s t)"
  "t \<noteq> current s \<Longrightarrow> threads (k_sched_unlock s) t = threads s t"
  "is_thread_pending t (k_sched_unlock s) = is_thread_pending t s"
  by (simp_all add: k_sched_unlock_def reschedule_threads_def is_thread_pending_def)

text \<open>Locking and unlocking without a switch in between is the identity.\<close>

lemma unlock_lock:
  assumes "\<not> is_in_isr s"
  shows "k_sched_unlock (with_sched_lock s) = reschedule_threads s"
proof -
  have "upd_thread (current s) (\<lambda>b. b\<lparr>sched_locked := sched_locked b + 1\<rparr>) (with_sched_lock s) = s"
    by (simp add: with_sched_lock_def upd_thread_def)
  then show ?thesis
    using assms by (simp add: k_sched_unlock_def is_in_isr_def)
qed

section \<open>Inheritance\<close>

definition mutex_wf :: "k_mutex \<Rightarrow> kernel \<Rightarrow> bool" where
  "mutex_wf m s \<longleftrightarrow>
     (lock_count m = 0 \<longleftrightarrow> owner m = None) \<and>
     (\<forall>t. owner m = Some t \<longrightarrow> t \<noteq> idle_thread s \<and>
        K_HIGHEST_THREAD_PRIO \<le> owner_orig_prio m \<and> owner_orig_prio m < K_LOWEST_THREAD_PRIO)"

lemma adjust_owner_prio_sel [simp]:
  "current (adjust_owner_prio m p s) = current s" "nested (adjust_owner_prio m p s) = nested s"
  "idle_thread (adjust_owner_prio m p s) = idle_thread s" "timeouts (adjust_owner_prio m p s) = timeouts s"
  "timeout_q (adjust_owner_prio m p s) = timeout_q s"
  "handling_timeouts (adjust_owner_prio m p s) = handling_timeouts s"
  "thread_state (threads (adjust_owner_prio m p s) t) = thread_state (threads s t)"
  "return_value (threads (adjust_owner_prio m p s) t) = return_value (threads s t)"
  "sched_locked (threads (adjust_owner_prio m p s) t) = sched_locked (threads s t)"
  by (simp_all add: adjust_owner_prio_def split: option.split)

lemma adjust_owner_prio_prio:
  "owner m = Some t \<Longrightarrow> prio (threads (adjust_owner_prio m p s) u) = (if u = t then p else prio (threads s u))"
  by (simp add: adjust_owner_prio_def)

lemma kinv_adjust_owner_prio:
  assumes "kinv {} s" and "owner m = Some t" and "t \<noteq> idle_thread s"
    and "K_HIGHEST_THREAD_PRIO \<le> p" "p < K_LOWEST_THREAD_PRIO"
  shows "kinv {} (adjust_owner_prio m p s)" "wait_qs (adjust_owner_prio m p s) = wait_qs s"
  using kinv_thread_priority_set [OF assms(1,3-5)] assms(1,2) by (simp_all add: adjust_owner_prio_def)

lemma can_block_adjust [simp]: "can_block (adjust_owner_prio m p s) = can_block s"
  by (simp add: can_block_def is_thread_ready_bits)

lemma prio_range:
  assumes "kinv X s"
  shows "K_HIGHEST_THREAD_PRIO \<le> prio (threads s t)" "prio (threads s t) \<le> K_LOWEST_THREAD_PRIO"
    "t \<noteq> idle_thread s \<Longrightarrow> prio (threads s t) < K_LOWEST_THREAD_PRIO"
  using kinvD(6) [OF assms] unfolding prio_wf_def by (auto simp: order.strict_iff_order)

text \<open>What a blocking \<open>k_mutex_lock\<close> does before it pends: the owner inherits the priority.\<close>

lemma inherited_prio:
  "new_prio_for_inheritance target lim = max 0 (min target lim)"
  by (auto simp: new_prio_for_inheritance_def kernel_simps Let_def)

section \<open>The branches of the operations\<close>

lemma lock_free_eq:
  assumes "can_sched_lock s" and "lock_count m = 0 \<or> owner m = Some (current s)"
  shows "k_mutex_lock call m timeout s =
    (reschedule_threads s,
     m\<lparr>owner := Some (current s), lock_count := lock_count m + 1,
       owner_orig_prio := if lock_count m = 0 then prio (threads s (current s)) else owner_orig_prio m\<rparr>,
     Returned 0)"
  using assms by (auto simp: k_mutex_lock_def sched_lock_eq Let_def unlock_lock can_sched_lock_def)

lemma lock_busy_eq:
  assumes "can_sched_lock s" and "lock_count m \<noteq> 0" and "owner m \<noteq> Some (current s)"
  shows "k_mutex_lock call m K_NO_WAIT s = (reschedule_threads s, m, Returned (- EBUSY))"
  using assms by (auto simp: k_mutex_lock_def sched_lock_eq Let_def unlock_lock can_sched_lock_def)

definition inherit :: "k_mutex \<Rightarrow> kernel \<Rightarrow> kernel" where
  "inherit m s =
     (let p = max 0 (min (prio (threads s (current s))) (owner_prio m s))
      in if p < owner_prio m s then adjust_owner_prio m p s else s)"

lemma lock_block_eq:
  assumes "can_sched_lock s" and "lock_count m \<noteq> 0" and "owner m = Some t" and "t \<noteq> current s"
    and "timeout \<noteq> K_NO_WAIT"
  shows "k_mutex_lock call m timeout s =
    (Swap (pend_current_thread call (mutex_wait_q m) timeout (inherit m (with_sched_lock s))), m, Switched_out)"
  using assms
  by (auto simp: k_mutex_lock_def sched_lock_eq Let_def inherit_def inherited_prio kernel_simps
      owner_prio_def)

lemma inherit_sel [simp]:
  "current (inherit m s) = current s" "nested (inherit m s) = nested s"
  "idle_thread (inherit m s) = idle_thread s" "handling_timeouts (inherit m s) = handling_timeouts s"
  "can_block (inherit m s) = can_block s"
  by (simp_all add: inherit_def Let_def)

lemma kinv_inherit:
  assumes inv: "kinv {} s" and t: "owner m = Some t" "t \<noteq> idle_thread s"
  shows "kinv {} (inherit m s)" "wait_qs (inherit m s) = wait_qs s"
proof -
  let ?p = "max 0 (min (prio (threads s (current s))) (owner_prio m s))"
  have "K_HIGHEST_THREAD_PRIO \<le> ?p" "?p < owner_prio m s \<Longrightarrow> ?p < K_LOWEST_THREAD_PRIO"
    using prio_range [OF inv, of t] t by (auto simp: owner_prio_def)
  then show "kinv {} (inherit m s)" "wait_qs (inherit m s) = wait_qs s"
    using kinv_adjust_owner_prio [OF inv t] inv by (auto simp: inherit_def Let_def)
qed

lemma inherit_prio:
  assumes "owner m = Some t"
  shows "prio (threads (inherit m s) u) =
    (if u = t then min (prio (threads s t)) (max 0 (prio (threads s (current s)))) else prio (threads s u))"
  using assms by (auto simp: inherit_def Let_def owner_prio_def adjust_owner_prio_prio)

lemma unlock_nested_eq:
  assumes "can_sched_lock s" and "owner m = Some (current s)" and "1 < lock_count m"
  shows "k_mutex_unlock m s = (reschedule_threads s, m\<lparr>lock_count := lock_count m - 1\<rparr>)"
proof -
  have "lock_count m - 1 \<noteq> 0" "0 < lock_count m"
    using assms(3) by (auto simp: word_less_nat_alt)
  then show ?thesis
    using assms by (auto simp: k_mutex_unlock_def sched_lock_eq Let_def unlock_lock can_sched_lock_def)
qed

text \<open>The kernel after the owner's priority has been given back.\<close>

definition restored :: "k_mutex \<Rightarrow> kernel \<Rightarrow> kernel" where
  "restored m s = adjust_owner_prio m (owner_orig_prio m) (with_sched_lock s)"

lemma unlock_last_eq:
  assumes "can_sched_lock s" and "owner m = Some (current s)" and "lock_count m = 1"
  shows "k_mutex_unlock m s =
    (case find_first_thread_to_unpend (mutex_wait_q m) None (restored m s) of
       None \<Rightarrow> (k_sched_unlock (restored m s), m\<lparr>lock_count := 0, owner := None\<rparr>)
     | Some t \<Rightarrow>
        let s' = set_thread_return_value t 0 (wake t (restored m s))
        in (k_sched_unlock s', m\<lparr>owner := Some t, lock_count := 1, owner_orig_prio := prio (threads s' t)\<rparr>))"
proof -
  have "adjust_owner_prio (m\<lparr>lock_count := 0\<rparr>) = adjust_owner_prio m"
    by (simp add: adjust_owner_prio_def fun_eq_iff)
  then show ?thesis
    using assms
    by (simp add: k_mutex_unlock_def sched_lock_eq Let_def restored_def unpend_first_thread_def wake_def
        split: option.split)
qed

lemma restored_sel [simp]:
  "current (restored m s) = current s" "nested (restored m s) = nested s"
  "idle_thread (restored m s) = idle_thread s" "handling_timeouts (restored m s) = handling_timeouts s"
  "is_thread_pending t (restored m s) = is_thread_pending t s"
  by (simp_all add: restored_def is_thread_pending_def)

lemma kinv_restored:
  assumes "kinv {} s" and "mutex_wf m s" and "owner m = Some t"
  shows "kinv {} (restored m s)" "wait_qs (restored m s) = wait_qs s"
    "prio (threads (restored m s) u) = (if u = t then owner_orig_prio m else prio (threads s u))"
  using kinv_adjust_owner_prio [of "with_sched_lock s" m t "owner_orig_prio m"] assms
  by (auto simp: restored_def mutex_wf_def adjust_owner_prio_prio)

section \<open>Properties\<close>

text \<open>
  C17: Priority inheritance. A thread that blocks on a mutex held by another thread is put on
  the mutex's wait queue and switched out; the owner then has the higher of its own priority
  and the caller's, the latter cut off at the priority ceiling 0; no other thread's priority
  and nothing of the mutex changes, and the kernel invariant holds.
\<close>

theorem k_mutex_lock_inherits:
  assumes "kinv {} s" and "can_block s" and "can_sched_lock s" and "timeout_ok timeout" and "timeout \<noteq> K_NO_WAIT"
    and "lock_count m \<noteq> 0" and "owner m = Some t" and "t \<noteq> current s" and "t \<noteq> idle_thread s"
    and "k_mutex_lock call m timeout s = (s', m', r)"
  shows "kinv {} s' \<and> m' = m \<and> r = Switched_out \<and> current s \<in> set (wait_qs s' (mutex_wait_q m)) \<and>
    prio (threads s' t) = min (prio (threads s t)) (max 0 (prio (threads s (current s)))) \<and>
    (\<forall>u. u \<noteq> t \<longrightarrow> prio (threads s' u) = prio (threads s u))"
proof -
  let ?i = "inherit m (with_sched_lock s)"
  have s': "s' = Swap (pend_current_thread call (mutex_wait_q m) timeout ?i)" and "m' = m" "r = Switched_out"
    using lock_block_eq [OF assms(3,6,7,8,5), of call] assms(10) by auto
  moreover have i: "kinv {} ?i" "wait_qs ?i = wait_qs s" "can_block ?i"
    using kinv_inherit [of "with_sched_lock s" m t] assms(1,2,7,9) by auto
  ultimately show ?thesis
    using kinv_pend_current [OF i(1,3) assms(4), of call "mutex_wait_q m"] assms(4,7)
    by (auto simp: inherit_prio pend_current_sel)
qed

definition mutex9 :: k_mutex where
  "mutex9 = \<lparr>mutex_wait_q = 9, owner = None, lock_count = 0, owner_orig_prio = 0\<rparr>"

theorem k_mutex_lock_inherits_witness:
  "prio (threads (fst (k_mutex_lock (\<lambda>_ _ s. s) (mutex9\<lparr>owner := Some 3, lock_count := 1\<rparr>)
     K_FOREVER (thread_priority_set 3 14 boot))) 3) = 0"
proof -
  let ?s = "thread_priority_set 3 14 boot" and ?m = "mutex9\<lparr>owner := Some 3, lock_count := 1\<rparr>"
  have "kinv {} ?s" "can_block ?s" "can_sched_lock ?s"
    using kinv_thread_priority_set(1) [OF kinv_boot, of 3 14] can_block_boot
    by (simp_all add: can_block_def can_sched_lock_def is_in_isr_def thread0_def)
  then show ?thesis
    using k_mutex_lock_inherits [of ?s K_FOREVER ?m 3 "\<lambda>_ _ s. s"
        "fst (k_mutex_lock (\<lambda>_ _ s. s) ?m K_FOREVER ?s)" "fst (snd (k_mutex_lock (\<lambda>_ _ s. s) ?m K_FOREVER ?s))"
        "snd (snd (k_mutex_lock (\<lambda>_ _ s. s) ?m K_FOREVER ?s))"]
    by (simp add: timeout_ok_def mutex9_def thread0_def)
qed

text \<open>
  C18: Handing over. The last unlock of a mutex on which threads wait gives the unlocking
  thread its original priority back and makes the first waiter the owner: it leaves the
  wait queue with its timeout cancelled and return value 0, holds the mutex once, and its
  own current priority is what the next last unlock restores.
\<close>

theorem k_mutex_unlock_hands_over:
  assumes "kinv {} s" and "\<not> handling_timeouts s" and "can_sched_lock s" and "mutex_wf m s"
    and "is_thread_ready (current s) s"
    and "owner m = Some (current s)" and "lock_count m = 1" and "wait_qs s (mutex_wait_q m) = t # ts"
    and "k_mutex_unlock m s = (s', m')"
  shows "served t (mutex_wait_q m) s s' \<and> wait_qs s' (mutex_wait_q m) = ts \<and>
    owner m' = Some t \<and> lock_count m' = 1 \<and> owner_orig_prio m' = prio (threads s t) \<and>
    return_value (threads s' t) = 0 \<and> prio (threads s' (current s)) = owner_orig_prio m"
proof -
  let ?r = "restored m s"
  have r: "kinv {} ?r" "wait_qs ?r = wait_qs s" "t \<noteq> current s"
    and p: "prio (threads ?r u) = (if u = current s then owner_orig_prio m else prio (threads s u))" for u
    using kinv_restored [OF assms(1,4,6)] waiter_not_current [OF assms(1,5), of t "mutex_wait_q m"] assms(8)
    by simp_all
  have f: "find_first_thread_to_unpend (mutex_wait_q m) None ?r = Some t"
    and tw: "t \<in> set (wait_qs ?r (mutex_wait_q m))"
    using assms(2,8) r by simp_all
  define s1 where "s1 = set_thread_return_value t 0 (wake t ?r)"
  have s1: "served t (mutex_wait_q m) ?r s1" "return_value (threads s1 t) = 0" "current s1 = current s"
    "prio (threads s1 u) = prio (threads ?r u)" for u
    using served_wake [OF r(1) f] wake_sel [OF r(1) tw] by (simp_all add: s1_def)
  have "s' = k_sched_unlock s1"
      "m' = m\<lparr>owner := Some t, lock_count := 1, owner_orig_prio := prio (threads s1 t)\<rparr>"
    using assms(9) f by (simp_all add: unlock_last_eq [OF assms(3,6,7)] Let_def s1_def)
  then show ?thesis
    using s1 r p assms(8) by (simp add: served_def)
qed

theorem k_mutex_unlock_hands_over_witness:
  "owner (snd (k_mutex_unlock (mutex9\<lparr>owner := Some 2, lock_count := 1\<rparr>) (boot2_waiting 9))) = Some 1"
  using k_mutex_unlock_hands_over [of "boot2_waiting 9" "mutex9\<lparr>owner := Some 2, lock_count := 1\<rparr>" 1 "[]"
      "fst (k_mutex_unlock (mutex9\<lparr>owner := Some 2, lock_count := 1\<rparr>) (boot2_waiting 9))"
      "snd (k_mutex_unlock (mutex9\<lparr>owner := Some 2, lock_count := 1\<rparr>) (boot2_waiting 9))"]
  by (simp add: can_sched_lock_def is_in_isr_def mutex_wf_def mutex9_def)

inductive mutex_step ::
    "(fn_ptr \<Rightarrow> toid \<Rightarrow> kernel \<Rightarrow> kernel) \<Rightarrow> kernel \<times> k_mutex \<Rightarrow> kernel \<times> k_mutex \<Rightarrow> bool" for call where
  lock: "can_block s \<Longrightarrow> can_sched_lock s \<Longrightarrow> timeout_ok timeout \<Longrightarrow> lock_count m \<noteq> - 1 \<Longrightarrow>
    k_mutex_lock call m timeout s = (s', m', r) \<Longrightarrow> mutex_step call (s, m) (s', m')"
| unlock: "can_sched_lock s \<Longrightarrow> owner m = Some (current s) \<Longrightarrow>
    k_mutex_unlock m s = (s', m') \<Longrightarrow> mutex_step call (s, m) (s', m')"
| env: "kinv {} s' \<Longrightarrow> \<not> handling_timeouts s' \<Longrightarrow> idle_thread s' = idle_thread s \<Longrightarrow> mutex_step call (s, m) (s', m)"

definition mutex_inv :: "kernel \<times> k_mutex \<Rightarrow> bool" where
  "mutex_inv x \<longleftrightarrow> kinv {} (fst x) \<and> \<not> handling_timeouts (fst x) \<and> mutex_wf (snd x) (fst x)"

lemma mutex_inv_lock:
  assumes inv: "mutex_inv (s, m)" and ok: "can_block s" "can_sched_lock s" "timeout_ok timeout" "lock_count m \<noteq> - 1"
  shows "mutex_inv (fst (k_mutex_lock call m timeout s), fst (snd (k_mutex_lock call m timeout s)))"
proof -
  have i: "kinv {} s" "\<not> handling_timeouts s" "mutex_wf m s"
    using inv by (simp_all add: mutex_inv_def)
  consider (free) "lock_count m = 0 \<or> owner m = Some (current s)"
    | (other) t where "lock_count m \<noteq> 0" "owner m = Some t" "t \<noteq> current s" "t \<noteq> idle_thread s"
    using i(3) by (auto simp: mutex_wf_def)
  then show ?thesis
  proof cases
    case free
    have "lock_count m + 1 \<noteq> 0"
      using ok(4) by (simp add: add_eq_0_iff2)
    then show ?thesis
      using i prio_range [OF i(1), of "current s"] ok(1) free unfolding lock_free_eq [OF ok(2) free]
      by (auto simp: mutex_inv_def mutex_wf_def can_block_def)
  next
    case other
    let ?i = "inherit m (with_sched_lock s)"
    have k: "kinv {} ?i" "can_block ?i"
      using kinv_inherit [of "with_sched_lock s" m t] i(1) ok(1) other(2,4) by simp_all
    show ?thesis
    proof (cases "timeout = K_NO_WAIT")
      case True
      then show ?thesis
        using lock_busy_eq [OF ok(2) other(1), of call] other(2,3) i
        by (simp add: mutex_inv_def mutex_wf_def)
    next
      case False
      then show ?thesis
        using kinv_pend_current(1) [OF k ok(3), of call "mutex_wait_q m"] i(2,3)
        by (simp add: lock_block_eq [OF ok(2) other(1-3) False] mutex_inv_def pend_current_sel [OF ok(3)]
            mutex_wf_def)
    qed
  qed
qed

lemma mutex_inv_unlock:
  assumes inv: "mutex_inv (s, m)" and ok: "can_sched_lock s" "owner m = Some (current s)"
  shows "mutex_inv (k_mutex_unlock m s)"
proof -
  have i: "kinv {} s" "\<not> handling_timeouts s" "mutex_wf m s" "lock_count m \<noteq> 0"
    using inv ok(2) by (auto simp: mutex_inv_def mutex_wf_def)
  note r = kinv_restored [OF i(1,3) ok(2)]
  consider (more) "1 < lock_count m" | (last) "lock_count m = 1"
    using i(4) by (metis word_gt_0 word_less_1 linorder_neqE)
  then show ?thesis
  proof cases
    case more
    then have "lock_count m - 1 \<noteq> 0"
      by auto
    then show ?thesis
      using i ok(2) by (auto simp: unlock_nested_eq [OF ok more] mutex_inv_def mutex_wf_def)
  next
    case last
    show ?thesis
    proof (cases "wait_qs s (mutex_wait_q m)")
      case Nil
      then show ?thesis
        using i r by (simp add: unlock_last_eq [OF ok last] mutex_inv_def mutex_wf_def)
    next
      case (Cons t ts)
      have f: "find_first_thread_to_unpend (mutex_wait_q m) None (restored m s) = Some t"
        and tw: "t \<in> set (wait_qs (restored m s) (mutex_wait_q m))"
        using i r Cons by simp_all
      have "t \<noteq> idle_thread s"
        using tw kinv_not_waiting [OF r(1)] idle_not_transit [OF r(1)] not_ready_pending by fastforce
      then show ?thesis
        using i(2) kinv_wake [OF r(1) f] prio_range [OF r(1), of t] wake_sel [OF r(1) tw]
        by (simp add: unlock_last_eq [OF ok last] f Let_def mutex_inv_def mutex_wf_def)
    qed
  qed
qed

lemma mutex_step_inv: "mutex_step call x y \<Longrightarrow> mutex_inv x \<Longrightarrow> mutex_inv y"
proof (induction rule: mutex_step.induct)
  case (lock s timeout m s' m' r)
  then show ?case
    using mutex_inv_lock [of s m timeout call] by simp
next
  case (unlock s m s' m')
  then show ?case
    using mutex_inv_unlock [of s m] by simp
qed (simp add: mutex_inv_def mutex_wf_def)



text \<open>
  The time-out path of a lock on a mutex that has meanwhile been released. When the
  owner unlocks between the expiry of the waiter's timeout and the moment the waiter runs
  again, no waiter is left, so the mutex has no owner; the waiter then reads the priority of
  that missing owner: a null pointer access.
\<close>

theorem k_mutex_lock_timed_out_no_owner:
  assumes "kinv {} s" and "\<not> handling_timeouts s" and "can_sched_lock s" and "mutex_wf m s"
    and "owner m = Some (current s)" and "lock_count m = 1" and "wait_qs s (mutex_wait_q m) = []"
    and "k_mutex_unlock m s = (s', m')" and "return_value (threads s' (current s')) = - EAGAIN"
  shows "\<not> fault s' \<and> fault (fst (k_mutex_lock_resume m' s'))"
proof -
  note r = kinv_restored [OF assms(1,4,5)]
  have "find_first_thread_to_unpend (mutex_wait_q m) None (restored m s) = None"
    using assms(2,7) r by simp
  then have "s' = k_sched_unlock (restored m s)" and m': "m' = m\<lparr>lock_count := 0, owner := None\<rparr>"
    using assms(8) by (simp_all add: unlock_last_eq [OF assms(3,5,6)])
  then have "\<not> fault s'"
    using kinvD(5) [OF r(1)] by simp
  moreover have adj: "adjust_owner_prio m' p s' = s'\<lparr>fault := True\<rparr>" for p
    by (simp add: adjust_owner_prio_def m')
  have "return_value (threads s' (current s')) \<noteq> 0"
    unfolding assms(9) by simp
  then have "k_mutex_lock_resume m' s' = (k_sched_unlock (s'\<lparr>fault := True\<rparr>), - EAGAIN)"
    by (simp only: k_mutex_lock_resume_def Let_def adj if_False)
  ultimately show ?thesis
    by simp
qed


text \<open>
  A run that reaches it: the main thread owns the mutex at an inherited priority 0 and has
  priority 5 of its own; thread 2 has priority 0 and has timed out on the mutex. The unlock
  switches to thread 2.
\<close>

theorem k_mutex_lock_timed_out_no_owner_witness:
  "fault (fst (case k_mutex_unlock (mutex9\<lparr>owner := Some 1, lock_count := 1, owner_orig_prio := 5\<rparr>)
       (set_thread_return_value 2 (- EAGAIN) boot2) of (s, m) \<Rightarrow> k_mutex_lock_resume m s))"
proof -
  let ?s = "set_thread_return_value 2 (- EAGAIN) boot2"
    and ?m = "mutex9\<lparr>owner := Some 1, lock_count := 1, owner_orig_prio := 5\<rparr>"
  have "\<not> handling_timeouts boot2"
    by code_simp
  moreover have "current (fst (k_mutex_unlock ?m ?s)) = 2" "return_value (threads (fst (k_mutex_unlock ?m ?s)) 2) = - 11"
    by code_simp+
  ultimately show ?thesis
    using k_mutex_lock_timed_out_no_owner [of ?s ?m "fst (k_mutex_unlock ?m ?s)" "snd (k_mutex_unlock ?m ?s)"]
    by (simp add: can_sched_lock_def is_in_isr_def mutex_wf_def mutex9_def split_beta thread0_def)
qed

end
