(* ===== verification/Timer.thy ===== *)
theory Timer
  imports Waitable
begin

text \<open>
  Kernel timers: kernel/timer.c and the inline functions of include/kernel.h.

  The functions an application gives to a timer are parameters: \<open>expiry\<close> and \<open>stop\<close> map
  a function pointer and the timer to what the call does to the kernel. \<open>k_timer_init\<close>
  installs \<open>_timer_expiration_handler\<close> as the function of the timer's timeout, so
  \<open>timer_call\<close> is the meaning of that pointer. The handler arms a timer only with a
  positive period, and then \<open>_add_timeout\<close> calls no function.
\<close>

section \<open>Operations\<close>

abbreviation (input) TIMER_EXPIRATION_HANDLER :: fn_ptr where "TIMER_EXPIRATION_HANDLER \<equiv> 1"

definition timer_expiration_handler ::
    "(fn_ptr \<Rightarrow> toid \<Rightarrow> kernel \<Rightarrow> kernel) \<Rightarrow> (fn_ptr \<Rightarrow> timer_id \<Rightarrow> kernel \<Rightarrow> kernel) \<Rightarrow>
      timer_id \<Rightarrow> kernel \<Rightarrow> kernel" where
  "timer_expiration_handler call expiry i s =
     (let s = (if period (timers s i) > 0 then
                 add_timeout call None (TTimer i) (Some (timer_wait_q (timers s i))) (period (timers s i)) s
               else s);
          s = upd_timer i (\<lambda>t. t\<lparr>status := status t + 1\<rparr>) s;
          s = (case expiry_fn (timers s i) of Some f \<Rightarrow> expiry f i s | None \<Rightarrow> s)
      in case wait_qs s (timer_wait_q (timers s i)) of
           [] \<Rightarrow> s
         | thread # _ \<Rightarrow>
             let s = unpend_thread thread s;
                 s = ready_thread thread s
             in set_thread_return_value thread 0 s)"

definition timer_call ::
    "(fn_ptr \<Rightarrow> timer_id \<Rightarrow> kernel \<Rightarrow> kernel) \<Rightarrow> fn_ptr \<Rightarrow> toid \<Rightarrow> kernel \<Rightarrow> kernel" where
  "timer_call expiry f x s =
     (case x of
        TTimer i \<Rightarrow> timer_expiration_handler (\<lambda>_ _ s. s\<lparr>fault := True\<rparr>) expiry i s
      | TThread _ \<Rightarrow> s\<lparr>fault := True\<rparr>)"

definition k_timer_init :: "timer_id \<Rightarrow> fn_ptr option \<Rightarrow> fn_ptr option \<Rightarrow> kernel \<Rightarrow> kernel" where
  "k_timer_init i expiry_f stop_f s =
     (let s = upd_timer i (\<lambda>t. t\<lparr>expiry_fn := expiry_f, stop_fn := stop_f, status := 0\<rparr>) s;
          s = s\<lparr>wait_qs := (wait_qs s)(timer_wait_q (timers s i) := [])\<rparr>;
          s = init_timeout (TTimer i) (Some TIMER_EXPIRATION_HANDLER) s
      in upd_timer i (\<lambda>t. t\<lparr>user_data := 0\<rparr>) s)"

definition k_timer_start ::
    "(fn_ptr \<Rightarrow> toid \<Rightarrow> kernel \<Rightarrow> kernel) \<Rightarrow> timer_id \<Rightarrow> int \<Rightarrow> int \<Rightarrow> kernel \<Rightarrow> kernel" where
  "k_timer_start call i duration per s =
     (let s = kassert (duration \<ge> 0 \<and> per \<ge> 0 \<and> (duration \<noteq> 0 \<or> per \<noteq> 0)) s;
          period_in_ticks = ms_to_ticks per;
          duration_in_ticks = ms_to_ticks duration;
          s = (if delta s (TTimer i) \<noteq> INACTIVE then fst (abort_timeout (TTimer i) s) else s);
          s = upd_timer i (\<lambda>t. t\<lparr>period := period_in_ticks, status := 0\<rparr>) s
      in add_timeout call None (TTimer i) (Some (timer_wait_q (timers s i))) duration_in_ticks s)"

definition k_timer_stop ::
    "(fn_ptr \<Rightarrow> timer_id \<Rightarrow> kernel \<Rightarrow> kernel) \<Rightarrow> timer_id \<Rightarrow> kernel \<Rightarrow> kernel" where
  "k_timer_stop stop i s =
     (case abort_timeout (TTimer i) s of
        (s, r) \<Rightarrow>
          if r = INACTIVE then s
          else
            let s = (case stop_fn (timers s i) of Some f \<Rightarrow> stop f i s | None \<Rightarrow> s);
                s = (case unpend_first_thread (timer_wait_q (timers s i)) s of
                       (s, Some pending_thread) \<Rightarrow> ready_thread pending_thread s
                     | (s, None) \<Rightarrow> s)
            in if is_in_isr s then s else reschedule_threads s)"

definition k_timer_status_get :: "timer_id \<Rightarrow> kernel \<Rightarrow> kernel \<times> u32" where
  "k_timer_status_get i s = (upd_timer i (\<lambda>t. t\<lparr>status := 0\<rparr>) s, status (timers s i))"

definition k_timer_status_sync ::
    "(fn_ptr \<Rightarrow> toid \<Rightarrow> kernel \<Rightarrow> kernel) \<Rightarrow> timer_id \<Rightarrow> kernel \<Rightarrow> kernel \<times> u32 outcome" where
  "k_timer_status_sync call i s =
     (let s = kassert (\<not> is_in_isr s) s;
          result = status (timers s i)
      in if result = 0 \<and> delta s (TTimer i) \<noteq> INACTIVE then
           (Swap (pend_current_thread call (timer_wait_q (timers s i)) K_FOREVER s), Switched_out)
         else (upd_timer i (\<lambda>t. t\<lparr>status := 0\<rparr>) s, Returned result))"

definition k_timer_status_sync_resume :: "timer_id \<Rightarrow> kernel \<Rightarrow> kernel \<times> u32" where
  "k_timer_status_sync_resume i s = (upd_timer i (\<lambda>t. t\<lparr>status := 0\<rparr>) s, status (timers s i))"

definition k_timer_remaining_get :: "timer_id \<Rightarrow> kernel \<Rightarrow> int option" where
  "k_timer_remaining_get i s = timeout_remaining_get (TTimer i) s"

definition k_timer_user_data_set :: "timer_id \<Rightarrow> u32 \<Rightarrow> kernel \<Rightarrow> kernel" where
  "k_timer_user_data_set i d = upd_timer i (\<lambda>t. t\<lparr>user_data := d\<rparr>)"

definition k_timer_user_data_get :: "timer_id \<Rightarrow> kernel \<Rightarrow> u32" where
  "k_timer_user_data_get i s = user_data (timers s i)"

section \<open>The invariant of timers\<close>

text \<open>
  Periods fit in \<open>s32_t\<close>, and a thread waits on a timer without a timeout of its own (it
  waits \<open>K_FOREVER\<close>): the handler readies it without aborting one.
\<close>

definition timers_wf :: "kernel \<Rightarrow> bool" where
  "timers_wf s \<longleftrightarrow>
     (\<forall>i. 0 \<le> period (timers s i) \<and> period (timers s i) < 2 ^ 31 \<and>
        (\<forall>t\<in>set (wait_qs s (timer_wait_q (timers s i))). delta s (TThread t) = INACTIVE))"

lemma kinv_upd_timer [simp]: "kinv X (upd_timer i f s) = kinv X s"
  by (rule kinv_cong) simp_all

lemma upd_timer_frame [simp]:
  "is_in_isr (upd_timer i f s) = is_in_isr s" "is_thread_ready t (upd_timer i f s) = is_thread_ready t s"
  "is_thread_pending t (upd_timer i f s) = is_thread_pending t s"
  by (simp_all add: is_in_isr_def is_thread_ready_bits is_thread_pending_def)

lemma timers_wf_frame:
  assumes "timers_wf s"
    and "\<And>i. timer_wait_q (timers s' i) = timer_wait_q (timers s i)"
    and "\<And>i. 0 \<le> period (timers s' i) \<and> period (timers s' i) < 2 ^ 31"
    and "\<And>w. set (wait_qs s' w) \<subseteq> set (wait_qs s w)"
    and "\<And>t w. t \<in> set (wait_qs s' w) \<Longrightarrow> delta s (TThread t) = INACTIVE \<Longrightarrow> delta s' (TThread t) = INACTIVE"
  shows "timers_wf s'"
  using assms unfolding timers_wf_def by (metis subsetD)

lemma timers_wf_period: "timers_wf s \<Longrightarrow> 0 \<le> period (timers s i) \<and> period (timers s i) < 2 ^ 31"
  by (simp add: timers_wf_def)

lemma timers_wf_waiter:
  "timers_wf s \<Longrightarrow> t \<in> set (wait_qs s (timer_wait_q (timers s i))) \<Longrightarrow> delta s (TThread t) = INACTIVE"
  by (auto simp: timers_wf_def)

section \<open>Releasing the first waiter\<close>

definition release :: "tid \<Rightarrow> kernel \<Rightarrow> kernel" where
  "release t s = ready_thread t (unpend_thread t s)"

lemma release:
  assumes inv: "kinv {} s" and t: "t \<in> set (wait_qs s w)" and d: "delta s (TThread t) = INACTIVE"
  shows "kinv {} (release t s)" "wait_qs (release t s) = (wait_qs s)(w := remove1 t (wait_qs s w))"
    "timeouts (release t s) = timeouts s" "timers (release t s) = timers s"
    "timeout_q (release t s) = timeout_q s" "handling_timeouts (release t s) = handling_timeouts s"
    "nested (release t s) = nested s" "current (release t s) = current s"
    "\<not> is_thread_pending t (release t s)"
proof -
  have *: "kinv {t} (unpend_thread t s)"
    using kinv_unpend [OF inv t] by simp
  have np: "\<not> is_thread_pending t (unpend_thread t s)"
    by (simp add: unpend_thread_eq [OF inv t] is_thread_pending_bit)
  show "kinv {} (release t s)"
    using kinv_ready_thread [of t "{}" "unpend_thread t s"] * np d
    by (simp add: release_def unpend_thread_eq [OF inv t])
  show "wait_qs (release t s) = (wait_qs s)(w := remove1 t (wait_qs s w))"
    "timeouts (release t s) = timeouts s" "timers (release t s) = timers s"
    "timeout_q (release t s) = timeout_q s" "handling_timeouts (release t s) = handling_timeouts s"
    "nested (release t s) = nested s" "current (release t s) = current s"
    by (simp_all add: release_def unpend_thread_eq [OF inv t])
  show "\<not> is_thread_pending t (release t s)"
    using np by (simp add: release_def is_thread_pending_bit)
qed

lemma timers_wf_release:
  assumes "kinv {} s" and "timers_wf s" and "t \<in> set (wait_qs s w)" and "delta s (TThread t) = INACTIVE"
  shows "timers_wf (release t s)"
  using timers_wf_period [OF assms(2)]
  by (intro timers_wf_frame [OF assms(2)]) (auto simp: release [OF assms(1,3,4)] dest: set_remove1_subset [THEN subsetD] split: if_splits)


lemma expired_iff:
  assumes "tq_inv s"
  shows "delta s z = EXPIRED \<longleftrightarrow> rem_ticks s z = None \<and> delta s z \<noteq> INACTIVE"
  using assms unfolding tq_inv_def by (cases "z \<in> set (timeout_q s)") force+

lemma expired_add_timeout:
  assumes "tq_inv s" and "delta s x = INACTIVE" and "0 < ticks" and "ticks < 2 ^ 31"
  shows "delta (add_timeout call th x w ticks s) z = EXPIRED \<longleftrightarrow> delta s z = EXPIRED"
  using tq_inv_add_timeout [OF assms, of call th w] assms(2)
  by (simp add: expired_iff [OF tq_inv_add_timeout(1) [OF assms]] expired_iff [OF assms(1)] del: remaining_None)

lemma expired_abort:
  assumes "tq_inv s" and "delta s x \<noteq> EXPIRED"
  shows "delta (fst (abort_timeout x s)) z = EXPIRED \<longleftrightarrow> delta s z = EXPIRED"
  using tq_inv_abort [OF assms] assms(2)
  by (cases "z = x")
    (simp_all add: expired_iff [OF tq_inv_abort(1) [OF assms]] expired_iff [OF assms(1)] del: remaining_None)

section \<open>The handler\<close>

text \<open>What the handler does before the application's function runs, and after it.\<close>

definition rearm :: "timer_id \<Rightarrow> kernel \<Rightarrow> kernel" where
  "rearm i s =
     (if period (timers s i) > 0 then
        add_timeout (\<lambda>_ _ s. s\<lparr>fault := True\<rparr>) None (TTimer i) (Some (timer_wait_q (timers s i)))
          (period (timers s i)) s
      else s)"

definition release_first :: "timer_id \<Rightarrow> kernel \<Rightarrow> kernel" where
  "release_first i s =
     (case wait_qs s (timer_wait_q (timers s i)) of
        [] \<Rightarrow> s
      | t # _ \<Rightarrow> set_thread_return_value t 0 (release t s))"

lemma timer_call_eq:
  "timer_call expiry f (TTimer i) s =
     (let s = upd_timer i (\<lambda>t. t\<lparr>status := status t + 1\<rparr>) (rearm i s)
      in release_first i (case expiry_fn (timers s i) of Some g \<Rightarrow> expiry g i s | None \<Rightarrow> s))"
  unfolding timer_call_def timer_expiration_handler_def rearm_def release_first_def release_def Let_def
  by simp

lemma rearm:
  assumes "kinv {} s" and "timers_wf s" and "delta s (TTimer i) = INACTIVE"
  shows "kinv {} (rearm i s)" "timers_wf (rearm i s)" "delta (rearm i s) z = EXPIRED \<longleftrightarrow> delta s z = EXPIRED"
    "rem_ticks (rearm i s) (TTimer i) = (if period (timers s i) > 0 then Some (period (timers s i)) else None)"
    "z \<noteq> TTimer i \<Longrightarrow> rem_ticks (rearm i s) z = rem_ticks s z"
    "handling_timeouts (rearm i s) = handling_timeouts s" "timers (rearm i s) = timers s"
    "wait_qs (rearm i s) = wait_qs s" "threads (rearm i s) = threads s"
proof -
  let ?p = "period (timers s i)"
  have p: "0 \<le> ?p" "?p < 2 ^ 31" and tq: "tq_inv s"
    using timers_wf_period [OF assms(2), of i] kinvD(3) [OF assms(1)] by simp_all
  have xq: "rem_ticks s (TTimer i) = None"
    using tq assms(3) unfolding tq_inv_def by fastforce
  note sel = add_timeout_sel [of ?p]
  show "kinv {} (rearm i s)"
    using kinv_add_timeout [OF assms(1,3) _ p(2)] assms(1) by (auto simp: rearm_def)
  show "delta (rearm i s) z = EXPIRED \<longleftrightarrow> delta s z = EXPIRED"
    using expired_add_timeout [OF tq assms(3) _ p(2)] by (auto simp: rearm_def)
  show "rem_ticks (rearm i s) (TTimer i) = (if ?p > 0 then Some ?p else None)"
    "z \<noteq> TTimer i \<Longrightarrow> rem_ticks (rearm i s) z = rem_ticks s z"
    using tq_inv_add_timeout(2) [OF tq assms(3) _ p(2)] xq by (simp_all add: rearm_def del: remaining_None)
  show t: "timers (rearm i s) = timers s" and w: "wait_qs (rearm i s) = wait_qs s"
    and "handling_timeouts (rearm i s) = handling_timeouts s" "threads (rearm i s) = threads s"
    by (simp_all add: rearm_def sel)
  have "delta (rearm i s) (TThread u) = INACTIVE \<longleftrightarrow> delta s (TThread u) = INACTIVE" for u
    using tq_inv_add_timeout(3) [OF tq assms(3) _ p(2)] by (simp add: rearm_def)
  then show "timers_wf (rearm i s)"
    using assms(2) by (simp add: timers_wf_def t w)
qed

lemma release_first:
  assumes "kinv {} s" and "timers_wf s"
  shows "kinv {} (release_first i s)" "timers_wf (release_first i s)"
    "timeouts (release_first i s) = timeouts s" "timeout_q (release_first i s) = timeout_q s"
    "handling_timeouts (release_first i s) = handling_timeouts s" "timers (release_first i s) = timers s"
    "wait_qs (release_first i s) (timer_wait_q (timers s i)) = tl (wait_qs s (timer_wait_q (timers s i)))"
proof -
  have wf: "timers_wf (upd_thread t (\<lambda>b. b\<lparr>return_value := v\<rparr>) r) = timers_wf r" for t v r
    by (simp add: timers_wf_def)
  have "kinv {} (release_first i s) \<and> timers_wf (release_first i s) \<and>
    timeouts (release_first i s) = timeouts s \<and> timeout_q (release_first i s) = timeout_q s \<and>
    handling_timeouts (release_first i s) = handling_timeouts s \<and> timers (release_first i s) = timers s \<and>
    wait_qs (release_first i s) (timer_wait_q (timers s i)) = tl (wait_qs s (timer_wait_q (timers s i)))"
  proof (cases "wait_qs s (timer_wait_q (timers s i))")
    case (Cons t ts)
    then have t: "t \<in> set (wait_qs s (timer_wait_q (timers s i)))" and d: "delta s (TThread t) = INACTIVE"
      using timers_wf_waiter [OF assms(2), of t i] by simp_all
    show ?thesis
      using release [OF assms(1) t d] timers_wf_release [OF assms t d] Cons by (simp add: release_first_def wf)
  qed (use assms in \<open>simp add: release_first_def\<close>)
  then show "kinv {} (release_first i s)" "timers_wf (release_first i s)"
    "timeouts (release_first i s) = timeouts s" "timeout_q (release_first i s) = timeout_q s"
    "handling_timeouts (release_first i s) = handling_timeouts s" "timers (release_first i s) = timers s"
    "wait_qs (release_first i s) (timer_wait_q (timers s i)) = tl (wait_qs s (timer_wait_q (timers s i)))"
    by blast+
qed

lemma timers_wf_status [simp]:
  "timers_wf (upd_timer i (\<lambda>t. t\<lparr>status := g t\<rparr>) s) = timers_wf s"
  unfolding timers_wf_def by (intro iff_allI) simp

section \<open>The contract of an expiry function\<close>

text \<open>
  What the handler relies on: an expiry function keeps the kernel invariant and that of the
  timers, and neither creates nor removes expired timeouts.
\<close>

definition expiry_ok :: "(fn_ptr \<Rightarrow> timer_id \<Rightarrow> kernel \<Rightarrow> kernel) \<Rightarrow> bool" where
  "expiry_ok expiry \<longleftrightarrow>
     (\<forall>f i s. kinv {} s \<and> timers_wf s \<and> handling_timeouts s \<and> delta s (TTimer i) \<noteq> EXPIRED \<longrightarrow>
        kinv {} (expiry f i s) \<and> timers_wf (expiry f i s) \<and> handling_timeouts (expiry f i s) \<and>
        (\<forall>x. delta (expiry f i s) x = EXPIRED \<longleftrightarrow> delta s x = EXPIRED))"

locale timer_fns =
  fixes expiry :: "fn_ptr \<Rightarrow> timer_id \<Rightarrow> kernel \<Rightarrow> kernel"
  assumes expiry_ok: "expiry_ok expiry"
begin

lemma timer_call_inv:
  assumes inv: "kinv {} s" "timers_wf s" and h: "handling_timeouts s" and d: "delta s (TTimer i) = INACTIVE"
  shows "kinv {} (timer_call expiry f (TTimer i) s) \<and> timers_wf (timer_call expiry f (TTimer i) s) \<and>
    handling_timeouts (timer_call expiry f (TTimer i) s) \<and>
    (\<forall>x. delta (timer_call expiry f (TTimer i) s) x = EXPIRED \<longleftrightarrow> delta s x = EXPIRED)"
proof -
  define r where "r = upd_timer i (\<lambda>t. t\<lparr>status := status t + 1\<rparr>) (rearm i s)"
  have r: "kinv {} r" "timers_wf r" "handling_timeouts r" "\<And>x. delta r x = EXPIRED \<longleftrightarrow> delta s x = EXPIRED"
    using rearm [OF inv d] h by (simp_all add: r_def)
  define e where "e = (case expiry_fn (timers r i) of Some g \<Rightarrow> expiry g i r | None \<Rightarrow> r)"
  have "kinv {} e \<and> timers_wf e \<and> handling_timeouts e \<and> (\<forall>x. delta e x = EXPIRED \<longleftrightarrow> delta s x = EXPIRED)"
    using r d expiry_ok by (simp add: e_def expiry_ok_def split: option.split)
  moreover have "timer_call expiry f (TTimer i) s = release_first i e"
    by (simp only: timer_call_eq Let_def r_def e_def)
  ultimately show ?thesis
    using release_first [of e i] by simp
qed

end

lemma timers_handle_thread:
  assumes "kinv {} s" and "delta s (TThread t) = EXPIRED"
  shows "timers (handle_one_expired_timeout call (TThread t) s) = timers s"
proof -
  have "to_thread (timeouts s (TThread t)) = Some t"
    using kinvD(4) [OF assms(1)] assms(2) by (simp add: link_inv_def)
  then show ?thesis
    by (simp add: handle_one_expired_timeout_def unpend_thread_timing_out_def unpend_thread_def Let_def)
qed

sublocale timer_fns \<subseteq> timeout_callback "timer_call expiry" timers_wf
proof (unfold_locales, goal_cases)
  case (1 s i f)
  then show ?case
    by (rule timer_call_inv)
next
  case (2 s t)
  then show ?case
    using handle_one_thread [OF 2(1,3) refl, where call = "timer_call expiry"] timers_wf_period [OF 2(2)]
    by (intro timers_wf_frame [OF 2(2)])
      (auto simp: timers_handle_thread [OF 2(1,3)] dest: set_remove1_subset [THEN subsetD])
next
  case (3 s x)
  then show ?case
    by (simp add: timers_wf_def)
next
  case (4 s ticks)
  then show ?case
    using expire_facts(5) [OF kinvD(3) [OF 4(1)] 4(3,4)]
    by (simp add: timers_wf_def expire_sel [OF kinvD(3) [OF 4(1)]])
next
  case (5 s)
  then show ?case
    by (simp add: timers_wf_def)
qed


context timer_fns
begin

lemma tick_inv:
  assumes "kinv {} s" and "timers_wf s" and "\<not> handling_timeouts s"
  shows "kinv {} (handle_timeouts (timer_call expiry) 1 s) \<and> timers_wf (handle_timeouts (timer_call expiry) 1 s) \<and>
    \<not> handling_timeouts (handle_timeouts (timer_call expiry) 1 s)"
  using assms handle_timeouts_kinv [OF assms one_tick_ahead [OF kinvD(3) [OF assms(1)]]]
  by (auto simp: handle_timeouts_expire)

end

section \<open>Starting and stopping\<close>

lemma timer_start:
  assumes inv: "kinv {} s" "timers_wf s" and ne: "delta s (TTimer i) \<noteq> EXPIRED"
    and d: "0 < duration" "duration < 2 ^ 31" and p: "0 \<le> per" "per < 2 ^ 31"
    and s': "s' = k_timer_start call i duration per s"
  shows "kinv {} s'" "timers_wf s'" "rem_ticks s' (TTimer i) = Some ((duration + 1) div 2)"
    "z \<noteq> TTimer i \<Longrightarrow> rem_ticks s' z = rem_ticks s z"
    "timers s' = (timers s)(i := (timers s i)\<lparr>period := (per + 1) div 2, status := 0\<rparr>)"
    "wait_qs s' = wait_qs s" "threads s' = threads s" "handling_timeouts s' = handling_timeouts s"
    "to_func (timeouts s' x) = to_func (timeouts s x)"
    "timeout_q s = [] \<Longrightarrow> timeout_q s' = [TTimer i] \<and> delta s' (TTimer i) = (duration + 1) div 2"
proof -
  define a where "a = fst (abort_timeout (TTimer i) s)"
  define u where "u = upd_timer i (\<lambda>t. t\<lparr>period := (per + 1) div 2, status := 0\<rparr>) a"
  let ?n = "(duration + 1) div 2"
  have tk: "ms_to_ticks duration = ?n" "ms_to_ticks per = (per + 1) div 2" "0 < ?n" "?n < 2 ^ 31"
    using d p by (simp_all add: ms_to_ticks_eq)
  have eq: "s' = add_timeout call None (TTimer i) (Some (timer_wait_q (timers u i))) ?n u"
    using d p unfolding s' k_timer_start_def Let_def by (auto simp: tk u_def a_def abort_timeout_inactive)
  note t = tq_inv_abort [OF kinvD(3) [OF inv(1)] ne, folded a_def]
  have k: "kinv {} a"
    using kinv_abort_timeout [OF inv(1) ne] by (simp add: a_def)
  have u: "kinv {} u" "delta u (TTimer i) = INACTIVE" "tq_inv u"
    using k t by (simp_all add: u_def kinvD(3))
  note tq = tq_inv_add_timeout [OF u(3,2) tk(3,4), of call None]
  show "kinv {} s'"
    unfolding eq by (rule kinv_add_timeout [OF u(1,2) tk(3,4)]) simp
  show "rem_ticks s' (TTimer i) = Some ?n" "z \<noteq> TTimer i \<Longrightarrow> rem_ticks s' z = rem_ticks s z"
    unfolding eq tq(2) using t(3) by (simp_all add: u_def del: remaining_None)
  show tm: "timers s' = (timers s)(i := (timers s i)\<lparr>period := (per + 1) div 2, status := 0\<rparr>)"
    and w: "wait_qs s' = wait_qs s" and "threads s' = threads s"
    and "handling_timeouts s' = handling_timeouts s"
    by (simp_all add: eq add_timeout_sel [OF tk(3)] u_def a_def)
  have "delta s' (TThread v) = INACTIVE \<longleftrightarrow> delta s (TThread v) = INACTIVE" for v
    using tq(3) t(5) by (simp add: eq u_def)
  then show "timers_wf s'"
    using inv(2) p by (simp add: timers_wf_def tm w)
  show "to_func (timeouts s' x) = to_func (timeouts s x)"
    by (simp add: eq add_timeout_sel [OF tk(3)] u_def a_def)
  show "timeout_q s' = [TTimer i] \<and> delta s' (TTimer i) = ?n" if "timeout_q s = []"
    using that by (simp add: eq add_timeout_nonzero [OF tk(3)] u_def a_def abort_timeout_def Let_def split: option.split)
qed


text \<open>A function of the application that leaves the kernel's queues and timeouts alone.\<close>

definition hands_off :: "(kernel \<Rightarrow> kernel) \<Rightarrow> bool" where
  "hands_off g \<longleftrightarrow>
     (\<forall>s. (kinv {} s \<longrightarrow> kinv {} (g s)) \<and> timers (g s) = timers s \<and> wait_qs (g s) = wait_qs s \<and>
        timeouts (g s) = timeouts s \<and> timeout_q (g s) = timeout_q s \<and> handling_timeouts (g s) = handling_timeouts s)"

lemma find_first_timer:
  assumes "timers_wf s"
  shows "find_first_thread_to_unpend (timer_wait_q (timers s i)) None s =
    (case wait_qs s (timer_wait_q (timers s i)) of [] \<Rightarrow> None | t # _ \<Rightarrow> Some t)"
  using timers_wf_waiter [OF assms, of _ i]
  by (auto simp: find_first_thread_to_unpend_def is_thread_timeout_expired_def split: list.split)

lemma timer_stop:
  assumes inv: "kinv {} s" "timers_wf s" and ne: "delta s (TTimer i) \<noteq> EXPIRED" and st: "\<And>f. hands_off (stop f i)"
    and s': "s' = k_timer_stop stop i s"
  shows "kinv {} s'" "timers_wf s'" "handling_timeouts s' = handling_timeouts s"
    "delta s' x = EXPIRED \<longleftrightarrow> delta s x = EXPIRED" "delta s' (TTimer i) = INACTIVE"
    "rem_ticks s' x = (if x = TTimer i then None else rem_ticks s x)" "timers s' = timers s"
    "wait_qs s' (timer_wait_q (timers s i)) = (if delta s (TTimer i) = INACTIVE
        then wait_qs s (timer_wait_q (timers s i)) else tl (wait_qs s (timer_wait_q (timers s i))))"
proof -
  define a where "a = fst (abort_timeout (TTimer i) s)"
  note t = tq_inv_abort [OF kinvD(3) [OF inv(1)] ne, folded a_def]
  define p where "p = (case stop_fn (timers s i) of Some f \<Rightarrow> stop f i a | None \<Rightarrow> a)"
  have a: "kinv {} a" "timers_wf a" "timers a = timers s" "wait_qs a = wait_qs s"
    "handling_timeouts a = handling_timeouts s" "\<And>x. delta a x = EXPIRED \<longleftrightarrow> delta s x = EXPIRED"
    using kinv_abort_timeout [OF inv(1) ne] t(5) inv(2) expired_abort [OF kinvD(3) [OF inv(1)] ne]
    by (simp_all add: a_def timers_wf_def)
  then have p: "kinv {} p" "timers p = timers s" "wait_qs p = wait_qs s" "timeouts p = timeouts a"
      "timeout_q p = timeout_q a" "handling_timeouts p = handling_timeouts s"
    using st by (auto simp: p_def hands_off_def split: option.split)
  have wf: "timers_wf p"
    using a p by (simp add: timers_wf_def)
  define q where "q = (case wait_qs s (timer_wait_q (timers s i)) of [] \<Rightarrow> p | t # _ \<Rightarrow> release t p)"
  have eq: "s' = (if delta s (TTimer i) = INACTIVE then s else if is_in_isr q then q else reschedule_threads q)"
    using find_first_timer [OF wf, of i] p(2,3) st
    by (auto simp: s' k_timer_stop_def Let_def a_def p_def q_def release_def unpend_first_thread_def
        split_beta abort_timeout_inactive hands_off_def split: list.split option.split)
  have q: "kinv {} q \<and> timers_wf q \<and> timeouts q = timeouts p \<and> timeout_q q = timeout_q p \<and> timers q = timers s \<and>
    handling_timeouts q = handling_timeouts s \<and>
    wait_qs q (timer_wait_q (timers s i)) = tl (wait_qs s (timer_wait_q (timers s i)))"
  proof (cases "wait_qs s (timer_wait_q (timers s i))")
    case (Cons t ts)
    then have tw: "t \<in> set (wait_qs p (timer_wait_q (timers p i)))" and d: "delta p (TThread t) = INACTIVE"
      using timers_wf_waiter [OF wf, of t i] p(2,3) by simp_all
    show ?thesis
      using release [OF p(1) tw d] timers_wf_release [OF p(1) wf tw d] Cons p by (simp add: q_def)
  qed (use p wf in \<open>simp add: q_def\<close>)
  have rq: "timers_wf (reschedule_threads q) = timers_wf q"
    by (simp add: timers_wf_def)
  have rn: "delta s (TTimer i) = INACTIVE \<Longrightarrow> rem_ticks s (TTimer i) = None"
    using kinvD(3) [OF inv(1)] unfolding tq_inv_def by fastforce
  show "kinv {} s'" "timers_wf s'" "handling_timeouts s' = handling_timeouts s" "timers s' = timers s"
    "delta s' x = EXPIRED \<longleftrightarrow> delta s x = EXPIRED" "delta s' (TTimer i) = INACTIVE"
    "wait_qs s' (timer_wait_q (timers s i)) = (if delta s (TTimer i) = INACTIVE
        then wait_qs s (timer_wait_q (timers s i)) else tl (wait_qs s (timer_wait_q (timers s i))))"
    using q inv p(4) a(6) t(4) by (simp_all add: eq rq)
  show "rem_ticks s' x = (if x = TTimer i then None else rem_ticks s x)"
    using q p(4,5) t(3) [of x] rn by (cases "x = TTimer i") (simp_all add: eq del: remaining_None)
qed

section \<open>Expiry functions that use their own timer\<close>

text \<open>
  The contract on functions of the kernel: an expiry function may stop its timer
  (function 0), or read and clear its status (any other), as one-shot and counting timers
  do.
\<close>

definition own_timer :: "fn_ptr \<Rightarrow> timer_id \<Rightarrow> kernel \<Rightarrow> kernel" where
  "own_timer f i s = (if f = 0 then k_timer_stop (\<lambda>_ _ s. s) i s else fst (k_timer_status_get i s))"

lemma expiry_ok_own_timer: "expiry_ok own_timer"
  unfolding expiry_ok_def
proof (intro allI impI)
  fix f i s
  assume a: "kinv {} s \<and> timers_wf s \<and> handling_timeouts s \<and> delta s (TTimer i) \<noteq> EXPIRED"
  have "hands_off ((\<lambda>_ _ s. s) f i)" for f :: fn_ptr and i :: timer_id
    by (simp add: hands_off_def)
  note st = timer_stop [OF _ _ _ this refl, of s i]
  show "kinv {} (own_timer f i s) \<and> timers_wf (own_timer f i s) \<and> handling_timeouts (own_timer f i s) \<and>
      (\<forall>x. delta (own_timer f i s) x = EXPIRED \<longleftrightarrow> delta s x = EXPIRED)"
    using a st by (auto simp: own_timer_def k_timer_status_get_def)
qed

interpretation own: timer_fns own_timer
  by unfold_locales (rule expiry_ok_own_timer)


lemma timer_call_effect:
  assumes "kinv {} s" and "timers_wf s" and "delta s (TTimer i) = INACTIVE" and "\<forall>g. hands_off (expiry g i)"
    and "s' = timer_call expiry f (TTimer i) s"
  shows "kinv {} s' \<and> timers_wf s'" "status (timers s' i) = status (timers s i) + 1"
    "period (timers s' i) = period (timers s i)"
    "timeouts s' = timeouts (rearm i s)" "timeout_q s' = timeout_q (rearm i s)"
    "wait_qs s' (timer_wait_q (timers s i)) = tl (wait_qs s (timer_wait_q (timers s i)))"
    "wait_qs s (timer_wait_q (timers s i)) = t # ts \<Longrightarrow>
       return_value (threads s' t) = 0 \<and> \<not> is_thread_pending t s'"
proof -
  define r where "r = upd_timer i (\<lambda>t. t\<lparr>status := status t + 1\<rparr>) (rearm i s)"
  note ra = rearm [OF assms(1-3)]
  define e where "e = (case expiry_fn (timers r i) of Some g \<Rightarrow> expiry g i r | None \<Rightarrow> r)"
  have e: "kinv {} e" "timers e = timers r" "wait_qs e = wait_qs r" "timeouts e = timeouts r"
      "timeout_q e = timeout_q r"
    using ra(1) assms(4) by (auto simp: e_def r_def hands_off_def split: option.split)
  have "timers_wf r"
    using ra(2) by (simp add: r_def)
  then have wf: "timers_wf e"
    using e by (simp add: timers_wf_def)
  have s': "s' = release_first i e"
    unfolding assms(5) by (simp only: timer_call_eq Let_def r_def e_def)
  note rf = release_first [OF e(1) wf, of i]
  show "kinv {} s' \<and> timers_wf s'" "status (timers s' i) = status (timers s i) + 1"
    "period (timers s' i) = period (timers s i)"
    "timeouts s' = timeouts (rearm i s)" "timeout_q s' = timeout_q (rearm i s)"
    "wait_qs s' (timer_wait_q (timers s i)) = tl (wait_qs s (timer_wait_q (timers s i)))"
    using rf e(2-5) ra(7,8) by (simp_all add: s' r_def)
  show "return_value (threads s' t) = 0 \<and> \<not> is_thread_pending t s'"
    if w: "wait_qs s (timer_wait_q (timers s i)) = t # ts"
  proof -
    have we: "wait_qs e (timer_wait_q (timers e i)) = t # ts"
      using w e ra(7,8) by (simp add: r_def)
    then have t: "t \<in> set (wait_qs e (timer_wait_q (timers e i)))"
      by simp
    show ?thesis
      using release(9) [OF e(1) t timers_wf_waiter [OF wf t]] we by (simp add: s' release_first_def)
  qed
qed

section \<open>Properties\<close>

text \<open>
  The expiry of a timer. When the timeout of a timer expires, the timer's status grows
  by one, a periodic timer is armed again with exactly its period (and any other timer is
  left inactive), no other timeout's remaining time changes, and the first thread that
  waits on the timer is released with return value 0 while the others keep waiting in
  order; the kernel invariant holds afterwards.
\<close>

theorem timer_expiry_effect:
  assumes "kinv {} s" and "timers_wf s" and "delta s (TTimer i) = INACTIVE" and "\<forall>g. hands_off (expiry g i)"
    and "s' = timer_call expiry f (TTimer i) s"
  shows "kinv {} s' \<and> timers_wf s' \<and> status (timers s' i) = status (timers s i) + 1 \<and>
    rem_ticks s' (TTimer i) = (if period (timers s i) > 0 then Some (period (timers s i)) else None) \<and>
    (\<forall>z. z \<noteq> TTimer i \<longrightarrow> rem_ticks s' z = rem_ticks s z) \<and>
    wait_qs s' (timer_wait_q (timers s i)) = tl (wait_qs s (timer_wait_q (timers s i))) \<and>
    (\<forall>t ts. wait_qs s (timer_wait_q (timers s i)) = t # ts \<longrightarrow>
       return_value (threads s' t) = 0 \<and> \<not> is_thread_pending t s')"
  using timer_call_effect [OF assms] rearm(4,5) [OF assms(1-3)] by (simp del: remaining_None)

lemma boot_waiting_timers: "timers_wf (boot_waiting w)" "delta (boot_waiting w) x = INACTIVE" "timers (boot_waiting w) = timers boot"
proof -
  show d: "delta (boot_waiting w) x = INACTIVE" and t: "timers (boot_waiting w) = timers boot" for x
    by (simp_all add: boot_waiting_def pend_current_thread_def pend_thread_def Let_def insert_in_wait_q_def timeout0_def)
  show "timers_wf (boot_waiting w)"
    by (simp add: timers_wf_def d t boot_def timer0_def)
qed

theorem timer_expiry_effect_witness:
  "status (timers (timer_call (\<lambda>_ _ s. s) 1 (TTimer 3) (boot_waiting 0)) 3) = 1"
  using timer_expiry_effect [of "boot_waiting 0" 3 "\<lambda>_ _ s. s" _ 1, OF _ _ _ _ refl]
  by (simp add: boot_waiting_timers hands_off_def boot_def timer0_def)

text \<open>
  C13: Ticks with timers. Whatever timers are running, with expiry functions that keep the
  kernel's invariants, any number of ticks keeps the kernel invariant and that of the timers.
\<close>

theorem timer_ticks_invariant:
  assumes "expiry_ok expiry" and "kinv {} s" and "timers_wf s" and "\<not> handling_timeouts s"
  shows "kinv {} ((handle_timeouts (timer_call expiry) 1 ^^ n) s) \<and>
    timers_wf ((handle_timeouts (timer_call expiry) 1 ^^ n) s)"
proof -
  have "kinv {} ((handle_timeouts (timer_call expiry) 1 ^^ n) s) \<and>
    timers_wf ((handle_timeouts (timer_call expiry) 1 ^^ n) s) \<and>
    \<not> handling_timeouts ((handle_timeouts (timer_call expiry) 1 ^^ n) s)"
  proof (induction n)
    case (Suc n)
    then show ?case
      using timer_fns.tick_inv [OF timer_fns.intro [OF assms(1)]] by simp
  qed (use assms in simp)
  then show ?thesis
    by blast
qed


theorem timer_ticks_invariant_witness:
  "kinv {} ((handle_timeouts (timer_call own_timer) 1 ^^ 9) (boot_waiting 0))"
  using timer_ticks_invariant [OF expiry_ok_own_timer, of "boot_waiting 0" 9] by (simp add: boot_waiting_timers)

text \<open>
  Starting and stopping a timer. Started with a duration of 1 ms or more, a timer expires
  after \<open>ceil(duration/2)\<close> ticks and no other timeout moves; stopping it then leaves it
  inactive, puts every other timeout where it was, and releases the first waiting thread.
\<close>

theorem k_timer_start_stop:
  assumes "kinv {} s" and "timers_wf s" and "delta s (TTimer i) \<noteq> EXPIRED"
    and "0 < duration" "duration < 2 ^ 31" and "0 \<le> per" "per < 2 ^ 31" and "\<forall>f. hands_off (stop f i)"
    and "s1 = k_timer_start call i duration per s" and "s2 = k_timer_stop stop i s1"
  shows "kinv {} s1 \<and> kinv {} s2 \<and> timers_wf s2 \<and>
    rem_ticks s1 (TTimer i) = Some ((duration + 1) div 2) \<and> rem_ticks s2 (TTimer i) = None \<and>
    (\<forall>z. z \<noteq> TTimer i \<longrightarrow> rem_ticks s1 z = rem_ticks s z \<and> rem_ticks s2 z = rem_ticks s z) \<and>
    wait_qs s2 (timer_wait_q (timers s i)) = tl (wait_qs s (timer_wait_q (timers s i)))"
proof -
  note st = timer_start [OF assms(1-7,9)]
  have "TTimer i \<in> set (timeout_q s1)"
    using st(3) remaining_None [of "delta s1" "timeout_q s1" "TTimer i"] by fastforce
  then have d: "0 \<le> delta s1 (TTimer i)"
    using kinvD(3) [OF st(1)] by (simp add: tq_inv_def)
  have "hands_off (stop f i)" for f
    using assms(8) by blast
  note sp = timer_stop [OF st(1,2) _ this assms(10)]
  show ?thesis
    using st sp d by (simp del: remaining_None)
qed

theorem k_timer_start_stop_witness:
  "rem_ticks (k_timer_start (\<lambda>_ _ s. s) 3 7 0 (boot_waiting 0)) (TTimer 3) = Some 4"
  using k_timer_start_stop [of "boot_waiting 0" 3 7 0 "\<lambda>_ _ s. s", OF _ _ _ _ _ _ _ _ refl refl]
  by (simp add: boot_waiting_timers hands_off_def)

text \<open>The timer is the only timeout in the queue, \<open>r\<close> ticks from its expiry.\<close>

definition solo :: "timer_id \<Rightarrow> int \<Rightarrow> kernel \<Rightarrow> bool" where
  "solo i r s \<longleftrightarrow> kinv {} s \<and> timers_wf s \<and> \<not> handling_timeouts s \<and> timeout_q s = [TTimer i] \<and>
     delta s (TTimer i) = r \<and> to_func (timeouts s (TTimer i)) = Some TIMER_EXPIRATION_HANDLER"

lemma solo_tick:
  assumes "solo i r s" and "expiry_ok expiry" and "\<forall>g. hands_off (expiry g i)" and "period (timers s i) = p" and "0 < p"
    and s': "s' = handle_timeouts (timer_call expiry) 1 s"
  shows "solo i (if r = 1 then p else r - 1) s'" "period (timers s' i) = p"
    "status (timers s' i) = status (timers s i) + (if r = 1 then 1 else 0)"
proof -
  have k: "kinv {} s" "timers_wf s" "\<not> handling_timeouts s" and q: "timeout_q s = [TTimer i]"
    and d: "delta s (TTimer i) = r"
    using assms(1) by (simp_all add: solo_def)
  have tq: "tq_inv s" and n: "to_thread (timeouts s (TTimer i)) = None"
    and r: "0 < r" and f: "to_func (timeouts s (TTimer i)) = Some TIMER_EXPIRATION_HANDLER"
    using assms(1) kinvD(3,4) [OF k(1)] q d by (auto simp: tq_inv_def link_inv_def solo_def)
  note inv = timer_fns.tick_inv [OF timer_fns.intro [OF assms(2)] k, folded s']
  have "solo i (if r = 1 then p else r - 1) s' \<and> period (timers s' i) = p \<and>
    status (timers s' i) = status (timers s i) + (if r = 1 then 1 else 0)"
  proof (cases "r = 1")
    case False
    then have "s' = (set_delta (TTimer i) (r - 1) s)\<lparr>handling_timeouts := False\<rparr>"
      using d q by (simp add: s' handle_timeouts_def Let_def)
    then show ?thesis
      using False q f inv assms(4) by (simp_all add: solo_def)
  next
    case True
    define e where "e = set_delta (TTimer i) INACTIVE (fst (expire 1 s))"
    have ef: "timeout_q e = []" "delta e (TTimer i) = INACTIVE" "timers e = timers s"
      "to_func (timeouts e (TTimer i)) = Some TIMER_EXPIRATION_HANDLER"
      using q d True f by (simp_all add: expire_def e_def)
    have e: "kinv {} e" "timers_wf e"
      using kinv_expire [OF k(1,3) one_tick_ahead [OF tq]] expire_facts(3) [OF tq k(3) one_tick_ahead [OF tq]]
        k(2) q d True
      by (auto simp: e_def timers_wf_def expire_def intro!: kinv_set_inactive)
    define c where "c = timer_call expiry TIMER_EXPIRATION_HANDLER (TTimer i) e"
    have s'c: "s' = c\<lparr>handling_timeouts := False\<rparr>"
      using q d True n f
      by (simp add: s' handle_timeouts_expire expire_def handle_one_expired_timeout_def Let_def c_def e_def)
    note c = timer_call_effect [OF e ef(2) assms(3) c_def]
    have ra: "timeout_q (rearm i e) = [TTimer i]" "timeouts (rearm i e) (TTimer i) =
        \<lparr>to_thread = None, to_wait_q = Some (timer_wait_q (timers s i)), delta_ticks_from_prev = p,
         to_func = Some TIMER_EXPIRATION_HANDLER\<rparr>"
      using assms(4,5) ef by (simp_all add: rearm_def add_timeout_nonzero)
    have "solo i p s'"
      using inv ra unfolding solo_def s'c by (simp add: c(4,5))
    then show ?thesis
      using c(2,3) ef(3) True assms(4) by (simp add: s'c)
  qed
  then show "solo i (if r = 1 then p else r - 1) s'" "period (timers s' i) = p"
    "status (timers s' i) = status (timers s i) + (if r = 1 then 1 else 0)"
    by blast+
qed



lemma kinv_timer_init:
  assumes inv: "kinv {} s" and "wait_qs s (timer_wait_q (timers s i)) = []" and "delta s (TTimer i) = INACTIVE"
  shows "kinv {} (k_timer_init i e f s)"
proof (rule kinv_timeouts_change [OF inv])
  let ?s = "k_timer_init i e f s"
  have d: "delta ?s x = delta s x" for x
    using assms(3) by (simp add: k_timer_init_def Let_def init_timeout_def)
  have q: "timeout_q ?s = timeout_q s" "handling_timeouts ?s = handling_timeouts s"
    and w: "wait_qs ?s = wait_qs s" "threads ?s = threads s"
    using assms(2) by (auto simp: k_timer_init_def Let_def init_timeout_def)
  have th: "timeouts ?s (TThread t) = timeouts s (TThread t)"
    "to_thread (timeouts ?s (TTimer j)) = (if j = i then None else to_thread (timeouts s (TTimer j)))" for t j
    by (simp_all add: k_timer_init_def Let_def init_timeout_def)
  show "tq_inv ?s"
    using kinvD(3) [OF inv] by (subst tq_inv_cong [where s = s]) (simp_all add: d q)
  show "link_inv {} ?s"
    using kinvD(4) [OF inv] unfolding link_inv_def waits_at_def d th w is_thread_pending_def by auto
qed (use assms(2,3) in \<open>auto simp: k_timer_init_def Let_def init_timeout_def\<close>)


end
