(* ===== verification/Thread.thy ===== *)
theory Thread
  imports Waitable
begin

text \<open>
  Threads: creation, start, delayed start, suspension, termination and thread groups
  (kernel/thread.c, kernel/thread_abort.c, \<open>_new_thread_init\<close> of
  kernel/include/kernel_structs.h), in the configuration without
  \<open>CONFIG_THREAD_MONITOR\<close>. A thread's \<open>fn_abort\<close> is a parameter; stacks and register
  contexts are not part of the model.
\<close>

section \<open>Operations\<close>

abbreviation (input) K_ESSENTIAL :: u8 where "K_ESSENTIAL \<equiv> 1"

definition k_is_in_isr :: "kernel \<Rightarrow> bool" where
  "k_is_in_isr s = is_in_isr s"

definition thread_essential_set :: "kernel \<Rightarrow> kernel" where
  "thread_essential_set s = upd_thread (current s) (\<lambda>b. b\<lparr>user_options := user_options b OR K_ESSENTIAL\<rparr>) s"

definition thread_essential_clear :: "kernel \<Rightarrow> kernel" where
  "thread_essential_clear s =
     upd_thread (current s) (\<lambda>b. b\<lparr>user_options := user_options b AND NOT K_ESSENTIAL\<rparr>) s"

definition is_thread_essential :: "kernel \<Rightarrow> bool" where
  "is_thread_essential s \<longleftrightarrow> user_options (threads s (current s)) AND K_ESSENTIAL \<noteq> 0"

definition init_thread_base :: "tid \<Rightarrow> int \<Rightarrow> u32 \<Rightarrow> u32 \<Rightarrow> kernel \<Rightarrow> kernel" where
  "init_thread_base t priority initial_state options s =
     init_thread_timeout t
       (upd_thread t (\<lambda>b. b\<lparr>user_options := ucast options, thread_state := ucast initial_state,
                            prio := priority, sched_locked := 0\<rparr>) s)"

definition new_thread_init :: "tid \<Rightarrow> int \<Rightarrow> u32 \<Rightarrow> kernel \<Rightarrow> kernel" where
  "new_thread_init t priority options s = init_thread_base t priority (ucast THREAD_PRESTART) options s"

text \<open>\<open>_ASSERT_VALID_PRIO\<close> for an entry point other than the idle loop.\<close>

definition new_thread :: "tid \<Rightarrow> int \<Rightarrow> u32 \<Rightarrow> kernel \<Rightarrow> kernel" where
  "new_thread t priority options s =
     new_thread_init t priority options
       (kassert (is_prio_higher_or_equal priority (K_LOWEST_THREAD_PRIO - 1) \<and>
                 is_prio_lower_or_equal priority K_HIGHEST_THREAD_PRIO) s)"

definition start_thread :: "tid \<Rightarrow> kernel \<Rightarrow> kernel" where
  "start_thread t s =
     (let s = mark_thread_as_started t s
      in if is_thread_ready t s then
           let s = add_thread_to_ready_q t s in if must_switch_threads s then Swap s else s
         else s)"

definition schedule_new_thread ::
    "(fn_ptr \<Rightarrow> toid \<Rightarrow> kernel \<Rightarrow> kernel) \<Rightarrow> tid \<Rightarrow> int \<Rightarrow> kernel \<Rightarrow> kernel" where
  "schedule_new_thread call t delay s =
     (if delay = 0 then start_thread t s
      else let ticks = TICK_ALIGN + ms_to_ticks delay in add_thread_timeout call t None ticks s)"

definition k_thread_create ::
    "(fn_ptr \<Rightarrow> toid \<Rightarrow> kernel \<Rightarrow> kernel) \<Rightarrow> tid \<Rightarrow> int \<Rightarrow> u32 \<Rightarrow> int \<Rightarrow> kernel \<Rightarrow> kernel" where
  "k_thread_create call t priority options delay s =
     (let s = kassert (\<not> is_in_isr s) s;
          s = new_thread t priority options s
      in schedule_new_thread call t delay s)"

definition k_thread_cancel :: "tid \<Rightarrow> kernel \<Rightarrow> kernel \<times> int" where
  "k_thread_cancel t s =
     (if has_thread_started t s \<or> \<not> is_thread_timeout_active t s then (s, - EINVAL)
      else (fst (abort_thread_timeout t s), 0))"

definition k_thread_single_start :: "tid \<Rightarrow> kernel \<Rightarrow> kernel" where
  "k_thread_single_start t s =
     (let s = mark_thread_as_started t s in if is_thread_ready t s then add_thread_to_ready_q t s else s)"

definition k_thread_single_suspend :: "tid \<Rightarrow> kernel \<Rightarrow> kernel" where
  "k_thread_single_suspend t s =
     (let s = (if is_thread_ready t s then remove_thread_from_ready_q t s else s)
      in mark_thread_as_suspended t s)"

definition k_thread_suspend :: "tid \<Rightarrow> kernel \<Rightarrow> kernel" where
  "k_thread_suspend t s =
     (let s = k_thread_single_suspend t s in if t = current s then Swap s else s)"

definition k_thread_single_resume :: "tid \<Rightarrow> kernel \<Rightarrow> kernel" where
  "k_thread_single_resume t s =
     (let s = mark_thread_as_not_suspended t s
      in if is_thread_ready t s then add_thread_to_ready_q t s else s)"

definition k_thread_resume :: "tid \<Rightarrow> kernel \<Rightarrow> kernel" where
  "k_thread_resume t s = reschedule_threads (k_thread_single_resume t s)"

definition k_thread_single_abort :: "(tid \<Rightarrow> (kernel \<Rightarrow> kernel) option) \<Rightarrow> tid \<Rightarrow> kernel \<Rightarrow> kernel" where
  "k_thread_single_abort fn_abort t s =
     (let s = (case fn_abort t of Some f \<Rightarrow> f s | None \<Rightarrow> s);
          s = (if is_thread_ready t s then remove_thread_from_ready_q t s
               else
                 let s = (if is_thread_pending t s then unpend_thread t s else s)
                 in if is_thread_timeout_active t s then fst (abort_thread_timeout t s) else s)
      in mark_thread_as_dead t s)"

definition k_thread_abort :: "(tid \<Rightarrow> (kernel \<Rightarrow> kernel) option) \<Rightarrow> tid \<Rightarrow> kernel \<Rightarrow> kernel" where
  "k_thread_abort fn_abort t s =
     (let s = k_thread_single_abort fn_abort t s
      in if current s = t then Swap s else reschedule_threads s)"

subsection \<open>Static threads and groups\<close>

record static_thread_data =
  init_thread :: tid
  init_prio :: int
  init_options :: u32
  init_delay :: int
  init_groups :: u32

definition is_in_any_group :: "static_thread_data \<Rightarrow> u32 \<Rightarrow> bool" where
  "is_in_any_group d groups \<longleftrightarrow> init_groups d AND groups \<noteq> 0"

definition k_thread_group_op ::
    "static_thread_data list \<Rightarrow> u32 \<Rightarrow> (tid \<Rightarrow> kernel \<Rightarrow> kernel) \<Rightarrow> kernel \<Rightarrow> kernel" where
  "k_thread_group_op ds groups func s =
     (let s = kassert (\<not> is_in_isr s) s;
          s = sched_lock_internal s;
          s = fold (\<lambda>d s. if is_in_any_group d groups then func (init_thread d) s else s) ds s
      in if is_thread_ready (current s) s then k_sched_unlock s
         else Swap (sched_unlock_no_reschedule s))"

definition init_static_threads ::
    "(fn_ptr \<Rightarrow> toid \<Rightarrow> kernel \<Rightarrow> kernel) \<Rightarrow> static_thread_data list \<Rightarrow> kernel \<Rightarrow> kernel" where
  "init_static_threads call ds s =
     (let s = fold (\<lambda>d s. new_thread (init_thread d) (init_prio d) (init_options d) s) ds s;
          s = sched_lock_internal s;
          s = fold (\<lambda>d s. if init_delay d \<noteq> K_FOREVER then schedule_new_thread call (init_thread d) (init_delay d) s
                          else s) ds s
      in k_sched_unlock s)"

definition k_thread_group_mask_get :: "static_thread_data \<Rightarrow> u32" where
  "k_thread_group_mask_get d = init_groups d"

definition k_thread_group_join :: "u32 \<Rightarrow> static_thread_data \<Rightarrow> static_thread_data" where
  "k_thread_group_join groups d = d\<lparr>init_groups := init_groups d OR groups\<rparr>"

definition k_thread_group_leave :: "u32 \<Rightarrow> static_thread_data \<Rightarrow> static_thread_data" where
  "k_thread_group_leave groups d = d\<lparr>init_groups := init_groups d AND groups\<rparr>"

section \<open>The kernel invariant\<close>

lemma and_not_suspended_id:
  assumes "runnable_state w"
  shows "w AND - 17 = w"
proof -
  have "w AND NOT THREAD_SUSPENDED = w"
  proof (rule bit_word_eqI)
    fix n
    assume "n < LENGTH(8)"
    moreover have "bit (THREAD_SUSPENDED :: u8) n \<longleftrightarrow> n = 4"
      using bit_exp_iff [of 4 n, where 'a = u8] by auto
    ultimately show "bit (w AND NOT THREAD_SUSPENDED) n \<longleftrightarrow> bit w n"
      using assms unfolding bit_and_iff bit_not_iff by (auto simp: runnable_state_def)
  qed
  then show ?thesis
    by simp
qed

text \<open>A change of state bits that does not change on which queues a thread belongs.\<close>

lemma kinv_state:
  assumes inv: "kinv X s" and f: "\<And>b. prio (f b) = prio b"
    and p: "is_thread_pending t (upd_thread t f s) = is_thread_pending t s"
    and r: "is_thread_ready t (upd_thread t f s) = is_thread_ready t s"
  shows "kinv X (upd_thread t f s)"
proof -
  have p': "is_thread_pending u (upd_thread t f s) = is_thread_pending u s"
    and r': "is_thread_ready u (upd_thread t f s) = is_thread_ready u s" for u
    using p r by (cases "u = t"; simp add: is_thread_pending_def is_thread_ready_bits)+
  show ?thesis
  proof (rule kinvI)
    show "rq_inv X (upd_thread t f s)"
      using kinvD(1) [OF inv] f r' by (subst rq_inv_cong [where s = s]) auto
    show "wq_inv X (upd_thread t f s)"
      using kinvD(2) [OF inv] p' by (subst wq_inv_cong [where s = s]) auto
    show "tq_inv (upd_thread t f s)"
      using kinvD(3) [OF inv] by (subst tq_inv_cong [where s = s]) auto
    show "link_inv X (upd_thread t f s)"
      using kinvD(4) [OF inv] p' by (subst link_inv_cong [where s = s]) auto
  qed (use kinvD(5) [OF inv] in simp)
qed

lemma ready_thread_add:
  assumes "prio_wf s" and "is_thread_ready t s"
  shows "ready_thread t s = add_thread_to_ready_q t s"
proof -
  have "upd_thread t (\<lambda>b. b\<lparr>thread_state := thread_state b AND NOT THREAD_PRESTART\<rparr>) s = s"
    using assms(2) and_not_prestart_id [simplified, of "thread_state (threads s t)"]
    by (simp add: is_thread_ready_bits upd_thread_def)
  then show ?thesis
    using assms(2) prio_wf_asserts [OF assms(1), of t]
    by (simp add: ready_thread_def Let_def kernel_simps)
qed

text \<open>A thread in transit, off all queues, goes on the ready queue if it is ready.\<close>

lemma kinv_if_ready:
  assumes inv: "kinv {t} s" and "\<not> is_thread_pending t s"
    and "delta s (TThread t) \<noteq> INACTIVE \<longrightarrow> to_wait_q (timeouts s (TThread t)) = None"
  shows "kinv {} (if is_thread_ready t s then add_thread_to_ready_q t s else s)"
proof (cases "is_thread_ready t s")
  case True
  then show ?thesis
    using kinv_ready_thread [of t "{}" s] assms ready_thread_add [OF kinvD(6) [OF inv] True] ready_delta
    by simp
next
  case False
  then show ?thesis
    using kinv_settle [of t "{}" s] assms by simp
qed


lemma kinv_single_suspend:
  assumes inv: "kinv {} s" and ne: "t \<noteq> idle_thread s"
  shows "kinv {} (k_thread_single_suspend t s)" "\<not> is_thread_ready t (k_thread_single_suspend t s)"
proof -
  show "kinv {} (k_thread_single_suspend t s)"
  proof (cases "is_thread_ready t s")
    case True
    let ?s = "mark_thread_as_suspended t (remove_thread_from_ready_q t s)"
    have "kinv {t} ?s"
      using kinv_remove_thread(1) [OF inv True ne] by (auto intro: kinv_upd_transit)
    moreover have "\<not> is_thread_ready t ?s" "\<not> is_thread_pending t ?s" "delta ?s (TThread t) = INACTIVE"
      using True not_ready_pending [of t s] ready_delta [OF True]
      by (auto simp: is_thread_ready_bits is_thread_pending_bit bit_or_iff)
    ultimately show ?thesis
      using True kinv_settle [of t "{}" ?s] by (simp add: k_thread_single_suspend_def Let_def del: mark_sel)
  next
    case False
    have "kinv {} (mark_thread_as_suspended t s)"
      unfolding mark_sel using False
      by (intro kinv_state [OF inv]) (auto simp: is_thread_ready_bits is_thread_pending_bit bit_or_iff)
    then show ?thesis
      using False by (simp add: k_thread_single_suspend_def Let_def)
  qed
  show "\<not> is_thread_ready t (k_thread_single_suspend t s)"
    by (simp add: k_thread_single_suspend_def Let_def is_thread_ready_bits)
qed

lemma kinv_single_resume:
  assumes inv: "kinv {} s" and nr: "\<not> is_thread_ready t s"
  shows "kinv {} (k_thread_single_resume t s)"
proof -
  let ?s = "mark_thread_as_not_suspended t s"
  have p: "is_thread_pending t ?s = is_thread_pending t s"
    by (simp add: is_thread_pending_bit bit_and_iff)
  show ?thesis
  proof (cases "is_thread_ready t ?s")
    case True
    have np: "\<not> is_thread_pending t ?s" "\<not> is_thread_pending t s" and d: "delta ?s (TThread t) = INACTIVE"
      using True not_ready_pending p ready_delta [OF True] by auto
    have "kinv {t} ?s"
      using kinv_take [OF inv nr np(2)] by (auto intro: kinv_upd_transit)
    then show ?thesis
      using kinv_if_ready [of t ?s] np d by (simp add: k_thread_single_resume_def Let_def del: mark_sel)
  next
    case False
    then have "kinv {} ?s"
      unfolding mark_sel using p nr by (intro kinv_state [OF inv]) simp_all
    then show ?thesis
      using False by (simp add: k_thread_single_resume_def Let_def)
  qed
qed

lemma kinv_single_abort:
  assumes inv: "kinv {} s" and ne: "t \<noteq> idle_thread s" and x: "delta s (TThread t) \<noteq> EXPIRED"
    and s': "s' = k_thread_single_abort (\<lambda>_. None) t s"
  shows "kinv {} s'" "\<not> is_thread_ready t s'" "\<not> is_thread_pending t s'" "delta s' (TThread t) = INACTIVE"
proof -
  define r where "r = (if is_thread_ready t s then remove_thread_from_ready_q t s
      else let s = (if is_thread_pending t s then unpend_thread t s else s)
           in if is_thread_timeout_active t s then fst (abort_thread_timeout t s) else s)"
  have s'r: "s' = mark_thread_as_dead t r"
    by (simp add: s' k_thread_single_abort_def r_def Let_def)
  have r: "kinv {t} r \<and> \<not> is_thread_pending t r \<and> delta r (TThread t) = INACTIVE"
  proof (cases "is_thread_ready t s")
    case True
    then show ?thesis
      using kinv_remove_thread(1) [OF inv True ne] not_ready_pending [of t s] ready_delta [OF True]
      by (auto simp: r_def is_thread_pending_bit)
  next
    case False
    define u where "u = (if is_thread_pending t s then unpend_thread t s else s)"
    have u: "transit t u"
    proof (cases "is_thread_pending t s")
      case True
      then obtain w where w: "t \<in> set (wait_qs s w)"
        using kinvD(2) [OF inv] by (auto simp: wq_inv_def)
      show ?thesis
        using True kinv_unpend [OF inv w] x
        by (simp add: u_def transit_def unpend_thread_eq [OF inv w] is_thread_pending_bit)
    next
      case np: False
      then show ?thesis
        using kinv_take [OF inv False] x by (simp add: u_def transit_def)
    qed
    have "r = fst (abort_thread_timeout t u)"
      using False by (auto simp: r_def u_def [symmetric] Let_def is_thread_timeout_active_def
          abort_thread_timeout_def abort_timeout_inactive)
    then show ?thesis
      using transit_abort [OF u] by (auto simp: transit_def)
  qed
  show "\<not> is_thread_ready t s'" "\<not> is_thread_pending t s'" "delta s' (TThread t) = INACTIVE"
    using r by (simp_all add: s'r is_thread_ready_bits is_thread_pending_bit bit_or_iff)
  moreover have "kinv {t} s'"
    using r by (auto simp: s'r intro: kinv_upd_transit)
  ultimately show "kinv {} s'"
    using kinv_settle [of t "{}" s'] by simp
qed


section \<open>Creating threads\<close>

definition unused :: "tid \<Rightarrow> kernel \<Rightarrow> bool" where
  "unused t s \<longleftrightarrow> t \<noteq> idle_thread s \<and> \<not> is_thread_ready t s \<and> \<not> is_thread_pending t s \<and>
     delta s (TThread t) = INACTIVE"

lemma new_thread_sel [simp]:
  "timeout_q (new_thread t p opt s) = timeout_q s" "wait_qs (new_thread t p opt s) = wait_qs s"
  "rq (new_thread t p opt s) = rq s" "prio_bmap (new_thread t p opt s) = prio_bmap s"
  "cache (new_thread t p opt s) = cache s" "idle_thread (new_thread t p opt s) = idle_thread s"
  "current (new_thread t p opt s) = current s" "nested (new_thread t p opt s) = nested s"
  "handling_timeouts (new_thread t p opt s) = handling_timeouts s"
  "threads (new_thread t p opt s) u = (if u = t then (threads s t)\<lparr>user_options := ucast opt,
     thread_state := THREAD_PRESTART, prio := p, sched_locked := 0\<rparr> else threads s u)"
  "timeouts (new_thread t p opt s) x = (if x = TThread t then \<lparr>to_thread = None, to_wait_q = None,
     delta_ticks_from_prev = INACTIVE, to_func = None\<rparr> else timeouts s x)"
  by (simp_all add: new_thread_def new_thread_init_def init_thread_base_def init_thread_timeout_def init_timeout_def)

lemma kinv_new_thread:
  assumes inv: "kinv {} s" and t: "unused t s" and p: "K_HIGHEST_THREAD_PRIO \<le> p" "p < K_LOWEST_THREAD_PRIO"
  shows "kinv {t} (new_thread t p opt s)"
proof -
  let ?s = "new_thread t p opt s"
  have k: "kinv {t} s" and ne: "t \<noteq> idle_thread s"
    using kinv_take [OF inv] t by (auto simp: unused_def)
  note rq = rq_invD [OF kinvD(1) [OF k]]
  have d: "delta ?s x = delta s x" for x
    using t by (simp add: unused_def)
  have o1: "is_thread_ready u ?s = is_thread_ready u s" "is_thread_pending u ?s = is_thread_pending u s"
    if "u \<noteq> t" for u
    using that by (simp_all add: is_thread_ready_bits is_thread_pending_def)
  have nt: "t \<notin> set (rq s i)" for i
    using kinv_not_on_rq [OF k] by simp
  show ?thesis
  proof (rule kinvI)
    have "prio_wf ?s"
      using rq(1) p ne by (auto simp: prio_wf_def)
    moreover have "rq_wf ?s"
      using rq(2) nt by (auto simp: rq_wf_def)
    moreover have "cache_wf ?s"
      using rq(3) by (simp add: cache_wf_def top_index_def)
    moreover have "on_rq u ?s \<longleftrightarrow> u \<notin> {t} \<and> is_thread_ready u ?s" for u
      using rq(5) [of u] o1(1) [of u] nt by (cases "u = t") (auto simp: on_rq_def)
    ultimately show "rq_inv {t} ?s"
      using rq(4) by (simp add: rq_inv_def)
    show "wq_inv {t} ?s"
      using kinvD(2) [OF k] o1(2) by (auto simp: wq_inv_def; metis)
    show "tq_inv ?s"
      using kinvD(3) [OF k] d by (subst tq_inv_cong [where s = s]) auto
    show "link_inv {t} ?s"
      using kinvD(4) [OF k] by (auto simp: link_inv_def waits_at_def o1(2) split: option.splits; metis option.distinct(1))
  qed (use kinvD(5) [OF k] p in \<open>simp add: new_thread_def new_thread_init_def init_thread_base_def
      init_thread_timeout_def init_timeout_def kernel_simps\<close>)
qed

lemma kinv_create:
  assumes inv: "kinv {} s" and t: "unused t s" and p: "K_HIGHEST_THREAD_PRIO \<le> p" "p < K_LOWEST_THREAD_PRIO"
    and isr: "\<not> is_in_isr s" and d: "0 \<le> delay" "delay < 2 ^ 31" and s': "s' = k_thread_create call t p opt delay s"
  shows "kinv {} s'" "handling_timeouts s' = handling_timeouts s"
    "0 < delay \<Longrightarrow> rem_ticks s' x = (if x = TThread t then Some (1 + (delay + 1) div 2) else rem_ticks s x)"
    "0 < delay \<Longrightarrow> thread_state (threads s' t) = THREAD_PRESTART"
proof -
  define n where "n = new_thread t p opt s"
  have n: "kinv {t} n" "thread_state (threads n t) = THREAD_PRESTART" "delta n (TThread t) = INACTIVE"
    "timeout_q n = timeout_q s" "\<And>x. delta n x = delta s x" "handling_timeouts n = handling_timeouts s"
    using kinv_new_thread [OF inv t p] t by (simp_all add: n_def unused_def)
  have eq: "s' = schedule_new_thread call t delay n"
    using isr by (simp add: s' k_thread_create_def Let_def n_def)
  let ?ticks = "1 + ms_to_ticks delay"
  have tk: "0 < ?ticks" "?ticks < 2 ^ 31"
    using ticks_ok [OF d] by simp_all
  note a = tq_inv_add_timeout [OF kinvD(3) [OF n(1)] n(3) tk, of call "Some t" None]
  have del: "s' = add_timeout call (Some t) (TThread t) None ?ticks n" if "0 < delay"
    using that by (simp add: eq schedule_new_thread_def add_thread_timeout_def)
  show "kinv {} s'"
  proof (cases "delay = 0")
    case True
    let ?m = "mark_thread_as_started t n"
    have "kinv {t} ?m"
      using n(1) by (auto intro: kinv_upd_transit)
    then have "kinv {} (if is_thread_ready t ?m then add_thread_to_ready_q t ?m else ?m)"
      using n by (intro kinv_if_ready) (simp_all add: is_thread_pending_bit)
    then show ?thesis
      using True by (simp add: eq schedule_new_thread_def start_thread_def Let_def split: if_splits del: mark_sel)
  next
    case False
    have "kinv {t} s'"
      using del False d kinv_add_timeout [OF n(1,3) tk] by simp
    moreover have "\<not> is_thread_ready t s'" "\<not> is_thread_pending t s'" "to_wait_q (timeouts s' (TThread t)) = None"
      using del False d n(2) by (simp_all add: is_thread_ready_bits is_thread_pending_bit add_timeout_sel [OF tk(1)]
          runnable_state_def)
    ultimately show ?thesis
      using kinv_settle [of t "{}" s'] by simp
  qed
  show "handling_timeouts s' = handling_timeouts s"
    using del d n(6) by (cases "delay = 0")
      (simp_all add: eq schedule_new_thread_def start_thread_def Let_def add_timeout_sel [OF tk(1)])
  show "rem_ticks s' x = (if x = TThread t then Some (1 + (delay + 1) div 2) else rem_ticks s x)" if "0 < delay"
    unfolding del [OF that] a(2) using d by (simp add: n(4,5) ms_to_ticks_eq del: remaining_None)
  show "thread_state (threads s' t) = THREAD_PRESTART" if "0 < delay"
    by (simp add: del [OF that] add_timeout_sel [OF tk(1)] n(2))
qed

section \<open>Properties\<close>

text \<open>
  C21: A thread created with a delay starts on time. The new thread is not ready at any of
  the first \<open>1 + ceil(delay/2)\<close> ticks after \<open>k_thread_create\<close> and is ready after the last
  of them, as long as every other timeout belongs to a thread.
\<close>

theorem k_thread_create_starts_on_time:
  assumes "kinv {} s" and "unused t s" and "K_HIGHEST_THREAD_PRIO \<le> p" and "p < K_LOWEST_THREAD_PRIO"
    and "\<not> is_in_isr s" and "\<not> handling_timeouts s" and "only_threads s" and "0 < delay" and "delay < 2 ^ 31"
    and "n = nat (1 + (delay + 1) div 2)" and "s' = k_thread_create call t p opt delay s"
  shows "(\<forall>k<n. \<not> is_thread_ready t ((handle_timeouts call 1 ^^ k) s')) \<and>
    is_thread_ready t ((handle_timeouts call 1 ^^ n) s') \<and> kinv {} ((handle_timeouts call 1 ^^ n) s')"
proof -
  note c = kinv_create [OF assms(1-5) _ assms(9,11)]
  have c: "kinv {} s'" "\<not> handling_timeouts s'" "thread_state (threads s' t) = THREAD_PRESTART"
    and r: "rem_ticks s' x = (if x = TThread t then Some (int n) else rem_ticks s x)" for x
    using c assms(6,8,10) by (simp_all del: remaining_None)
  have "x \<in> set (timeout_q s') \<Longrightarrow> x = TThread t \<or> x \<in> set (timeout_q s)" for x
    using r [of x] remaining_None [of "delta s'" "timeout_q s'" x]
      remaining_None [of "delta s" "timeout_q s" x] by (auto simp del: remaining_None split: if_splits)
  then have ot: "only_threads s'"
    using assms(7) unfolding only_threads_def by blast
  have run: "runnable_state (thread_state (timed_out (threads s' t)))"
    by (simp add: timed_out_def c(3) runnable_state_def)
  have "rem_ticks s' (TThread t) = Some (int n)"
    using r [of "TThread t"] by simp
  then show ?thesis
    using wakes_at [OF c(1,2) ot _ run, where call = call] by simp
qed

theorem k_thread_create_starts_on_time_witness:
  "is_thread_ready 7 ((handle_timeouts (\<lambda>_ _ s. s) 1 ^^ 6) (k_thread_create (\<lambda>_ _ s. s) 7 3 0 10 boot))"
proof -
  have u: "unused 7 boot"
    by (simp add: unused_def is_thread_ready_bits is_thread_pending_bit thread0_def runnable_state_def timeout0_def)
  have q: "\<not> is_in_isr boot" "only_threads boot" "\<not> handling_timeouts boot"
    by (simp_all add: is_in_isr_def only_threads_def)
  have n: "6 = nat (1 + (10 + 1) div 2)"
    by simp
  show ?thesis
    using k_thread_create_starts_on_time [OF kinv_boot u _ _ q(1,3,2) _ _ n refl, of 3 "\<lambda>_ _ s. s" 0]
    by simp
qed

text \<open>
  C30: Cancelling a delayed start. \<open>k_thread_cancel\<close> of a thread that has started, or has no
  start pending, fails with \<open>-EINVAL\<close> and changes nothing; otherwise it returns 0, the
  thread's timeout is removed and every other timeout stays where it was.
\<close>

theorem k_thread_cancel_result:
  assumes "kinv {} s" and "\<not> handling_timeouts s" and "k_thread_cancel t s = (s', r)"
  shows "(has_thread_started t s \<or> delta s (TThread t) = INACTIVE \<longrightarrow> r = - EINVAL \<and> s' = s) \<and>
    (\<not> has_thread_started t s \<and> delta s (TThread t) \<noteq> INACTIVE \<longrightarrow>
       r = 0 \<and> rem_ticks s' (TThread t) = None \<and> tq_inv s' \<and> threads s' = threads s \<and>
       (\<forall>x. x \<noteq> TThread t \<longrightarrow> rem_ticks s' x = rem_ticks s x))"
proof -
  have "delta s (TThread t) \<noteq> EXPIRED"
    using kinvD(3) [OF assms(1)] assms(2) unfolding tq_inv_def
    by (cases "TThread t \<in> set (timeout_q s)") force+
  note a = tq_inv_abort [OF kinvD(3) [OF assms(1)] this]
  show ?thesis
    using assms(3) a by (auto simp: k_thread_cancel_def is_thread_timeout_active_def abort_thread_timeout_def
        simp del: remaining_None split: if_splits)
qed

theorem k_thread_cancel_result_witness: "k_thread_cancel 1 boot = (boot, - EINVAL)"
  using k_thread_cancel_result [of boot 1 "fst (k_thread_cancel 1 boot)" "snd (k_thread_cancel 1 boot)"]
  by (cases "k_thread_cancel 1 boot") (simp add: has_thread_started_def)

text \<open>
  C22: Aborting a thread. Whatever a thread other than the idle thread was doing (ready,
  waiting with or without a timeout, or sleeping), after \<open>k_thread_abort\<close> it is on no ready
  queue, no wait queue and not on the timeout queue, it is not the next thread to run, and
  the kernel invariant holds.
\<close>

theorem k_thread_abort_removes:
  assumes "kinv {} s" and "\<not> handling_timeouts s" and "t \<noteq> idle_thread s"
    and "s' = k_thread_abort (\<lambda>_. None) t s"
  shows "kinv {} s' \<and> t \<notin> set (rq s' i) \<and> t \<notin> set (wait_qs s' w) \<and> TThread t \<notin> set (timeout_q s') \<and>
    get_next_ready_thread s' \<noteq> t"
proof -
  have "delta s (TThread t) \<noteq> EXPIRED"
    using kinvD(3) [OF assms(1)] assms(2) unfolding tq_inv_def
    by (cases "TThread t \<in> set (timeout_q s)") force+
  note a = kinv_single_abort [OF assms(1,3) this refl]
  let ?a = "k_thread_single_abort (\<lambda>_. None) t s"
  have s': "s' = (if current ?a = t then Swap ?a else reschedule_threads ?a)"
    by (simp add: assms(4) k_thread_abort_def Let_def)
  have k: "kinv {} s'" "\<not> is_thread_ready t s'" "\<not> is_thread_pending t s'" "delta s' (TThread t) = INACTIVE"
    using a by (simp_all add: s')
  moreover have "TThread t \<notin> set (timeout_q s')"
    using kinvD(3) [OF k(1)] k(4) by (auto simp: tq_inv_def)
  ultimately show ?thesis
    using kinv_not_on_rq [OF k(1)] kinv_not_waiting [OF k(1)] cache_ready [OF k(1)]
    by (auto simp: get_next_ready_thread_def)
qed

theorem k_thread_abort_removes_witness:
  "1 \<notin> set (wait_qs (k_thread_abort (\<lambda>_. None) 1 (boot_waiting 5)) 5)"
proof -
  have "idle_thread (boot_waiting 5) = 0"
    by code_simp
  then show ?thesis
    using k_thread_abort_removes [of "boot_waiting 5" 1 "k_thread_abort (\<lambda>_. None) 1 (boot_waiting 5)" 0 5]
    by simp
qed

text \<open>
  C23: Suspending and resuming. A suspended thread is not ready and not the next to run;
  resuming it makes exactly the threads ready that were ready before, and the kernel
  invariant holds after both.
\<close>

theorem k_thread_suspend_resume:
  assumes "kinv {} s" and "t \<noteq> idle_thread s" and "is_thread_ready t s"
    and "s1 = k_thread_suspend t s" and "s2 = k_thread_resume t s1"
  shows "kinv {} s1 \<and> kinv {} s2 \<and> \<not> is_thread_ready t s1 \<and> get_next_ready_thread s1 \<noteq> t \<and>
    (\<forall>u. is_thread_ready u s2 = is_thread_ready u s)"
proof -
  let ?a = "k_thread_single_suspend t s"
  note a = kinv_single_suspend [OF assms(1,2)]
  have s1: "s1 = (if t = current ?a then Swap ?a else ?a)"
    by (simp add: assms(4) k_thread_suspend_def Let_def)
  have k1: "kinv {} s1" "\<not> is_thread_ready t s1"
    using a by (simp_all add: s1)
  have k2: "kinv {} s2"
    using kinv_single_resume [OF k1] by (simp add: assms(5) k_thread_resume_def)
  have st: "thread_state (threads s1 u) = (if u = t then thread_state (threads s t) OR THREAD_SUSPENDED
      else thread_state (threads s u))" "timeouts s1 = timeouts s" for u
    by (simp_all add: s1 k_thread_single_suspend_def Let_def)
  have "thread_state (threads s2 u) = (if u = t then thread_state (threads s1 t) AND NOT THREAD_SUSPENDED
      else thread_state (threads s1 u))" "timeouts s2 = timeouts s1" for u
    by (simp_all add: assms(5) k_thread_resume_def k_thread_single_resume_def Let_def reschedule_threads_def)
  moreover have "runnable_state ((w OR THREAD_SUSPENDED) AND NOT THREAD_SUSPENDED)" if "runnable_state w" for w
    using that by (simp add: runnable_state_def bit_and_iff bit_or_iff)
  ultimately have "is_thread_ready u s2 = is_thread_ready u s" for u
    using assms(3) by (simp add: is_thread_ready_bits st)
  then show ?thesis
    using k1 k2 cache_ready [OF k1(1)] by (auto simp: get_next_ready_thread_def)
qed

theorem k_thread_suspend_resume_witness:
  "is_thread_ready 1 (k_thread_resume 1 (k_thread_suspend 1 boot))"
  using k_thread_suspend_resume [of boot 1, OF _ _ _ refl refl] by simp

text \<open>
  \<open>k_thread_resume\<close> of a thread that is ready, hence not suspended, appends the thread to
  its ready queue a second time (the interface promises that the call has no effect): the
  ready queue is then not well formed.
\<close>

theorem k_thread_resume_ready_thread_duplicates:
  assumes "kinv {} s" and "is_thread_ready t s"
  shows "rq (k_thread_single_resume t s) (qidx s t) = rq s (qidx s t) @ [t] \<and>
    t \<in> set (rq s (qidx s t)) \<and> \<not> rq_inv {} (k_thread_resume t s)"
proof -
  have r: "runnable_state (thread_state (threads s t))"
    using assms(2) by (simp add: is_thread_ready_bits)
  have "mark_thread_as_not_suspended t s = s"
    using and_not_suspended_id [OF r] by (simp add: upd_thread_def)
  then have eq: "k_thread_single_resume t s = add_thread_to_ready_q t s"
    using assms(2) by (simp add: k_thread_single_resume_def Let_def del: mark_sel)
  have t: "t \<in> set (rq s (qidx s t))"
    using rq_invD(2,5) [OF kinvD(1) [OF assms(1)]] assms(2) by (auto simp: on_rq_qidx)
  then have "\<not> distinct (rq (k_thread_resume t s) (qidx s t))"
    by (simp add: k_thread_resume_def eq)
  then have "\<not> rq_inv {} (k_thread_resume t s)"
    by (auto simp: rq_inv_def rq_wf_def)
  then show ?thesis
    using t by (simp add: eq)
qed

theorem k_thread_resume_ready_thread_duplicates_witness:
  "\<not> rq_inv {} (k_thread_resume 1 boot)"
  using k_thread_resume_ready_thread_duplicates [of boot 1] by simp

text \<open>
  \<open>_k_thread_group_leave\<close> keeps exactly the groups that are left: after leaving, the
  thread is still in the groups it should have left, and in no other.
\<close>

theorem k_thread_group_leave_keeps:
  "is_in_any_group (k_thread_group_leave groups d) g \<longleftrightarrow> init_groups d AND groups AND g \<noteq> 0"
  by (simp add: is_in_any_group_def k_thread_group_leave_def and.assoc)

end
