(* ===== verification/Fifo.thy ===== *)
theory Fifo
  imports Prelude
begin

text \<open>
  The contract of a first-in first-out buffer, shared by the linked lists, the message
  queues and the ring buffers: a put appends to the contents, a get removes from the front.
  The client lemma is conservation: whatever the sequence of operations, what came out
  followed by what is left is what was there followed by what was put in.
\<close>

datatype 'a fifo_op = Put "'a list" | Get nat

fun fifo_input :: "'a fifo_op list \<Rightarrow> 'a list" where
  "fifo_input [] = []"
| "fifo_input (Put xs # os) = xs @ fifo_input os"
| "fifo_input (Get n # os) = fifo_input os"

fun run_fifo ::
    "('a fifo_op \<Rightarrow> 's \<Rightarrow> bool) \<Rightarrow> ('a list \<Rightarrow> 's \<Rightarrow> 's) \<Rightarrow> (nat \<Rightarrow> 's \<Rightarrow> 'a list \<times> 's) \<Rightarrow>
      'a fifo_op list \<Rightarrow> 's \<Rightarrow> ('a list \<times> 's) option" where
  "run_fifo ok put get [] s = Some ([], s)"
| "run_fifo ok put get (Put xs # os) s =
     (if ok (Put xs) s then run_fifo ok put get os (put xs s) else None)"
| "run_fifo ok put get (Get n # os) s =
     (if ok (Get n) s then
        case get n s of (ys, s') \<Rightarrow> map_option (\<lambda>(out, s''). (ys @ out, s'')) (run_fifo ok put get os s')
      else None)"

locale fifo =
  fixes inv :: "'s \<Rightarrow> bool" and contents :: "'s \<Rightarrow> 'a list" and ok :: "'a fifo_op \<Rightarrow> 's \<Rightarrow> bool"
    and put :: "'a list \<Rightarrow> 's \<Rightarrow> 's" and get :: "nat \<Rightarrow> 's \<Rightarrow> 'a list \<times> 's"
  assumes put_inv: "inv s \<Longrightarrow> ok (Put xs) s \<Longrightarrow> inv (put xs s)"
    and put_contents: "inv s \<Longrightarrow> ok (Put xs) s \<Longrightarrow> contents (put xs s) = contents s @ xs"
    and get_inv: "inv s \<Longrightarrow> ok (Get n) s \<Longrightarrow> inv (snd (get n s))"
    and get_contents: "inv s \<Longrightarrow> ok (Get n) s \<Longrightarrow> contents s = fst (get n s) @ contents (snd (get n s))"
begin

lemma conservation:
  assumes "inv s" and "run_fifo ok put get os s = Some (out, s')"
  shows "inv s' \<and> contents s @ fifo_input os = out @ contents s'"
  using assms
proof (induction os arbitrary: s out)
  case (Cons o1 os)
  show ?case
  proof (cases o1)
    case (Put xs)
    then have "ok (Put xs) s" "run_fifo ok put get os (put xs s) = Some (out, s')"
      using Cons.prems(2) by (auto split: if_splits)
    then show ?thesis
      using Cons.IH [of "put xs s" out] Cons.prems(1) put_inv [of s xs] put_contents [of s xs] Put by simp
  next
    case (Get n)
    obtain ys t where g: "get n s = (ys, t)"
      by fastforce
    obtain out' where "ok (Get n) s" "run_fifo ok put get os t = Some (out', s')" "out = ys @ out'"
      using Cons.prems(2) Get g by (auto split: if_splits)
    then show ?thesis
      using Cons.IH [of t out'] Cons.prems(1) get_inv [of s n] get_contents [of s n] Get g by simp
  qed
qed simp

end

end
