(* ===== verification/Ring.thy ===== *)
theory Ring
  imports Fifo
begin

text \<open>
  Byte memory and circular storage, shared by the message queues and the ring buffers.

  Memory is a function from addresses to bytes. \<open>memcpy\<close> reads all its bytes before it
  writes: for the disjoint areas C requires this is what the library function does.
  \<open>ring f sz h n\<close> is the sequence of the \<open>n\<close> slots that start at slot \<open>h\<close> of a circular
  store of \<open>sz\<close> slots.
\<close>

section \<open>Memory\<close>

type_synonym mem = "nat \<Rightarrow> u8"

definition mem_read :: "nat \<Rightarrow> nat \<Rightarrow> mem \<Rightarrow> u8 list" where
  "mem_read a n m = map (\<lambda>i. m (a + i)) [0..<n]"

definition mem_write :: "nat \<Rightarrow> u8 list \<Rightarrow> mem \<Rightarrow> mem" where
  "mem_write a bs m = (\<lambda>x. if a \<le> x \<and> x < a + length bs then bs ! (x - a) else m x)"

definition memcpy :: "nat \<Rightarrow> nat \<Rightarrow> nat \<Rightarrow> mem \<Rightarrow> mem" where
  "memcpy dst src n m = mem_write dst (mem_read src n m) m"

definition disjoint_areas :: "nat \<Rightarrow> nat \<Rightarrow> nat \<Rightarrow> nat \<Rightarrow> bool" where
  "disjoint_areas a n b k \<longleftrightarrow> a + n \<le> b \<or> b + k \<le> a"

lemma disjoint_areas_sym: "disjoint_areas a n b k \<longleftrightarrow> disjoint_areas b k a n"
  by (auto simp: disjoint_areas_def)

lemma length_mem_read [simp]: "length (mem_read a n m) = n"
  by (simp add: mem_read_def)

lemma mem_read_nth [simp]: "i < n \<Longrightarrow> mem_read a n m ! i = m (a + i)"
  by (simp add: mem_read_def)

lemma mem_read_0 [simp]: "mem_read a 0 m = []"
  by (simp add: mem_read_def)

lemma mem_write_Nil [simp]: "mem_write a [] m = m"
  by (rule ext) (auto simp: mem_write_def)

lemma mem_read_add: "mem_read a (n + k) m = mem_read a n m @ mem_read (a + n) k m"
  by (rule nth_equalityI) (auto simp: nth_append)

lemma mem_read_take: "k \<le> n \<Longrightarrow> take k (mem_read a n m) = mem_read a k m"
  by (rule nth_equalityI) auto

lemma mem_read_drop: "k \<le> n \<Longrightarrow> drop k (mem_read a n m) = mem_read (a + k) (n - k) m"
  by (rule nth_equalityI) (auto simp: add.assoc)

lemma mem_read_write_same [simp]: "n = length bs \<Longrightarrow> mem_read a n (mem_write a bs m) = bs"
  by (rule nth_equalityI) (auto simp: mem_write_def)

lemma mem_write_outside: "x < a \<or> a + length bs \<le> x \<Longrightarrow> mem_write a bs m x = m x"
  by (auto simp: mem_write_def)

lemma mem_read_write_disjoint:
  "disjoint_areas a n b (length bs) \<Longrightarrow> mem_read a n (mem_write b bs m) = mem_read a n m"
  by (rule nth_equalityI) (auto simp: mem_write_def disjoint_areas_def)

lemma mem_read_memcpy_same [simp]: "mem_read d n (memcpy d src n m) = mem_read src n m"
  by (simp add: memcpy_def)

lemma mem_read_memcpy_disjoint:
  "disjoint_areas a n d k \<Longrightarrow> mem_read a n (memcpy d src k m) = mem_read a n m"
  by (simp add: memcpy_def mem_read_write_disjoint)

lemma memcpy_0 [simp]: "memcpy d src 0 m = m"
  by (simp add: memcpy_def)

lemma memcpy_outside: "x < d \<or> d + n \<le> x \<Longrightarrow> memcpy d src n m x = m x"
  by (simp add: memcpy_def mem_write_outside)

section \<open>Circular storage\<close>

definition ring :: "(nat \<Rightarrow> 'a) \<Rightarrow> nat \<Rightarrow> nat \<Rightarrow> nat \<Rightarrow> 'a list" where
  "ring f sz h n = map (\<lambda>k. f ((h + k) mod sz)) [0..<n]"

lemma length_ring [simp]: "length (ring f sz h n) = n"
  by (simp add: ring_def)

lemma ring_nth [simp]: "k < n \<Longrightarrow> ring f sz h n ! k = f ((h + k) mod sz)"
  by (simp add: ring_def)

lemma ring_0 [simp]: "ring f sz h 0 = []"
  by (simp add: ring_def)

lemma ring_mod [simp]: "ring f sz (h mod sz) n = ring f sz h n"
  by (simp add: ring_def mod_add_left_eq)

lemma ring_cong_mod: "h mod sz = h' mod sz \<Longrightarrow> ring f sz h n = ring f sz h' n"
  by (metis ring_mod)

lemma ring_append: "ring f sz h (n + k) = ring f sz h n @ ring f sz (h + n) k"
  by (rule nth_equalityI) (auto simp: nth_append algebra_simps)

lemma ring_snoc: "ring f sz h (Suc n) = ring f sz h n @ [f ((h + n) mod sz)]"
  by (simp add: ring_def)

lemma ring_Cons: "0 < n \<Longrightarrow> ring f sz h n = f (h mod sz) # ring f sz (Suc h) (n - 1)"
  using ring_append [of f sz h 1 "n - 1"] by (simp add: ring_def)

lemma ring_drop: "k \<le> n \<Longrightarrow> drop k (ring f sz h n) = ring f sz (h + k) (n - k)"
  by (rule nth_equalityI) (auto simp: algebra_simps)

lemma ring_take: "k \<le> n \<Longrightarrow> take k (ring f sz h n) = ring f sz h k"
  by (rule nth_equalityI) auto

text \<open>Slots that are at most \<open>sz\<close> apart are different.\<close>

lemma ring_slot_neq:
  fixes h :: nat
  assumes "i < n" and "n \<le> k" and "k < i + sz"
  shows "(h + i) mod sz \<noteq> (h + k) mod sz"
proof
  assume "(h + i) mod sz = (h + k) mod sz"
  then have "(k - i) mod sz = 0"
    using assms mod_eq_dvd_iff_nat [of "h + i" "h + k" sz] by (simp add: dvd_eq_mod_eq_0)
  then show False
    using assms by simp
qed

text \<open>Writing behind the used slots does not change them.\<close>

lemma ring_update_free:
  assumes "n + k \<le> sz" and "\<And>j. j < sz \<Longrightarrow> (\<And>i. i < k \<Longrightarrow> j \<noteq> (h + n + i) mod sz) \<Longrightarrow> f' j = f j"
  shows "ring f' sz h n = ring f sz h n"
proof (rule nth_equalityI)
  fix i assume "i < length (ring f' sz h n)"
  then have i: "i < n"
    by simp
  have "(h + i) mod sz \<noteq> (h + n + j) mod sz" if "j < k" for j
    using ring_slot_neq [of i n "n + j" sz h] i that assms(1) by (simp add: add.assoc)
  moreover have "(h + i) mod sz < sz"
    using i assms(1) by simp
  ultimately show "ring f' sz h n ! i = ring f sz h n ! i"
    using i assms(2) by simp
qed simp

lemma ring_linear: "h + n \<le> sz \<Longrightarrow> ring f sz h n = map f [h..<h + n]"
  by (rule nth_equalityI) auto

text \<open>A run of bytes of a circular byte buffer, read in one or two pieces.\<close>

lemma ring_mem_linear:
  assumes "h + n \<le> sz"
  shows "ring (\<lambda>i. m (base + i)) sz h n = mem_read (base + h) n m"
  using assms by (intro nth_equalityI) (auto simp: add.assoc)

lemma ring_mem_split:
  assumes "h < sz" and "sz \<le> h + n" and "n \<le> sz"
  shows "ring (\<lambda>i. m (base + i)) sz h n = mem_read (base + h) (sz - h) m @ mem_read base (n - (sz - h)) m"
proof -
  have "ring (\<lambda>i. m (base + i)) sz h n =
      ring (\<lambda>i. m (base + i)) sz h (sz - h) @ ring (\<lambda>i. m (base + i)) sz sz (n - (sz - h))"
    using ring_append [of "\<lambda>i. m (base + i)" sz h "sz - h" "n - (sz - h)"] assms by simp
  moreover have "ring (\<lambda>i. m (base + i)) sz sz k = ring (\<lambda>i. m (base + i)) sz 0 k" for k
    by (rule ring_cong_mod) simp
  ultimately show ?thesis
    using assms ring_mem_linear [of h "sz - h" sz m base] ring_mem_linear [of 0 "n - (sz - h)" sz m base] by simp
qed


section \<open>Reading and writing a run of a circular byte buffer\<close>

definition ring_read :: "nat \<Rightarrow> nat \<Rightarrow> nat \<Rightarrow> nat \<Rightarrow> mem \<Rightarrow> u8 list" where
  "ring_read base sz off n m =
     (if off + n \<le> sz then mem_read (base + off) n m
      else mem_read (base + off) (sz - off) m @ mem_read base (n - (sz - off)) m)"

definition ring_write :: "nat \<Rightarrow> nat \<Rightarrow> nat \<Rightarrow> u8 list \<Rightarrow> mem \<Rightarrow> mem" where
  "ring_write base sz off bs m =
     (if off + length bs \<le> sz then mem_write (base + off) bs m
      else mem_write base (drop (sz - off) bs) (mem_write (base + off) (take (sz - off) bs) m))"

abbreviation bytes_at :: "nat \<Rightarrow> mem \<Rightarrow> nat \<Rightarrow> u8" where
  "bytes_at base m \<equiv> \<lambda>i. m (base + i)"

lemma ring_read_eq:
  assumes "off < sz" and "n \<le> sz"
  shows "ring_read base sz off n m = ring (bytes_at base m) sz off n"
  using assms ring_mem_linear [of off n sz m base] ring_mem_split [of off sz n m base] by (simp add: ring_read_def)

lemma ring_index:
  fixes off k sz :: nat
  assumes "off < sz" and "k \<le> sz"
  shows "(off + k) mod sz = (if off + k < sz then off + k else off + k - sz)"
proof (cases "off + k < sz")
  case False
  then show ?thesis
    using assms by (simp add: le_mod_geq)
qed simp

lemma ring_write_nth:
  assumes "off < sz" and "length bs \<le> sz" and "k < length bs"
  shows "ring_write base sz off bs m (base + (off + k) mod sz) = bs ! k"
  using assms ring_index [of off sz k] by (auto simp: ring_write_def mem_write_def nth_drop)

lemma ring_write_other:
  assumes "off < sz" and "length bs \<le> sz" and "j < sz" and "\<And>k. k < length bs \<Longrightarrow> j \<noteq> (off + k) mod sz"
  shows "ring_write base sz off bs m (base + j) = m (base + j)"
proof -
  have "\<not> (off \<le> j \<and> j < off + length bs)"
  proof
    assume j: "off \<le> j \<and> j < off + length bs"
    then show False
      using assms(4) [of "j - off"] assms(3) by (simp add: less_diff_conv2)
  qed
  moreover have "\<not> (j + sz < off + length bs)"
  proof
    assume j: "j + sz < off + length bs"
    then have "j + sz - off < length bs" "off + (j + sz - off) = j + sz"
      using assms(1) by auto
    then show False
      using assms(4) [of "j + sz - off"] assms(3) by simp
  qed
  ultimately show ?thesis
    using assms(1-3) by (auto simp: ring_write_def mem_write_def)
qed

lemma ring_write_outside:
  assumes "off < sz" and "length bs \<le> sz" and "x < base \<or> base + sz \<le> x"
  shows "ring_write base sz off bs m x = m x"
  using assms by (auto simp: ring_write_def mem_write_def)

lemma ring_write_append:
  assumes "n + length bs \<le> sz" and "0 < sz"
  shows "ring (bytes_at base (ring_write base sz ((h + n) mod sz) bs m)) sz h (n + length bs) =
    ring (bytes_at base m) sz h n @ bs"
proof -
  let ?m = "ring_write base sz ((h + n) mod sz) bs m"
  have off: "(h + n) mod sz < sz"
    using assms(2) by simp
  have "ring (bytes_at base ?m) sz h n = ring (bytes_at base m) sz h n"
  proof (rule ring_update_free [OF assms(1)])
    fix j assume j: "j < sz" "\<And>i. i < length bs \<Longrightarrow> j \<noteq> (h + n + i) mod sz"
    then show "?m (base + j) = m (base + j)"
      using assms(1) by (intro ring_write_other [OF off]) (simp_all add: mod_add_left_eq)
  qed
  moreover have "ring (bytes_at base ?m) sz (h + n) (length bs) = bs"
  proof (rule nth_equalityI)
    fix i assume "i < length (ring (bytes_at base ?m) sz (h + n) (length bs))"
    then show "ring (bytes_at base ?m) sz (h + n) (length bs) ! i = bs ! i"
      using ring_write_nth [OF off, of bs i base m] assms(1) by (simp add: mod_add_left_eq)
  qed simp
  ultimately show ?thesis
    by (simp add: ring_append)
qed

lemma ring_bytes_outside:
  assumes "\<And>x. base \<le> x \<Longrightarrow> x < base + sz \<Longrightarrow> m' x = m x" and "0 < sz"
  shows "ring (bytes_at base m') sz h n = ring (bytes_at base m) sz h n"
  using assms by (auto simp: ring_def)

section \<open>Copying in and out of a circular byte buffer\<close>

definition ring_copy_in :: "nat \<Rightarrow> nat \<Rightarrow> nat \<Rightarrow> nat \<Rightarrow> nat \<Rightarrow> mem \<Rightarrow> mem" where
  "ring_copy_in base sz off data n m =
     (if off + n \<le> sz then memcpy (base + off) data n m
      else memcpy base (data + (sz - off)) (n - (sz - off)) (memcpy (base + off) data (sz - off) m))"

definition ring_copy_out :: "nat \<Rightarrow> nat \<Rightarrow> nat \<Rightarrow> nat \<Rightarrow> nat \<Rightarrow> mem \<Rightarrow> mem" where
  "ring_copy_out base sz off data n m =
     (if off + n \<le> sz then memcpy data (base + off) n m
      else memcpy (data + (sz - off)) base (n - (sz - off)) (memcpy data (base + off) (sz - off) m))"

lemma ring_copy_in_eq:
  assumes "disjoint_areas base sz data n" and "off < sz"
  shows "ring_copy_in base sz off data n m = ring_write base sz off (mem_read data n m) m"
proof (cases "off + n \<le> sz")
  case True
  then show ?thesis
    by (simp add: ring_copy_in_def ring_write_def memcpy_def)
next
  case False
  then have "disjoint_areas (data + (sz - off)) (n - (sz - off)) (base + off) (length (mem_read data (sz - off) m))"
    using assms by (auto simp: disjoint_areas_def)
  then show ?thesis
    using False assms(2)
    by (simp add: ring_copy_in_def ring_write_def memcpy_def mem_read_write_disjoint mem_read_take mem_read_drop)
qed

lemma ring_copy_out_eq:
  assumes d: "disjoint_areas base sz data n" and off: "off < sz" and n: "n \<le> sz"
  shows "mem_read data n (ring_copy_out base sz off data n m) = ring (bytes_at base m) sz off n"
    and "x < data \<or> data + n \<le> x \<Longrightarrow> ring_copy_out base sz off data n m x = m x"
proof -
  have "mem_read data n (ring_copy_out base sz off data n m) = ring_read base sz off n m"
  proof (cases "off + n \<le> sz")
    case True
    then show ?thesis
      by (simp add: ring_copy_out_def ring_read_def)
  next
    case False
    let ?k = "sz - off"
    have dj: "disjoint_areas data ?k (data + ?k) (n - ?k)" "disjoint_areas base (n - ?k) data ?k"
      using d False n by (auto simp: disjoint_areas_def)
    have "n = ?k + (n - ?k)"
      using False by simp
    then have "mem_read data n (ring_copy_out base sz off data n m) =
        mem_read data (?k + (n - ?k)) (ring_copy_out base sz off data n m)"
      by simp
    also have "\<dots> = mem_read (base + off) ?k m @ mem_read base (n - ?k) m"
      unfolding mem_read_add ring_copy_out_def using False by (simp add: mem_read_memcpy_disjoint dj)
    finally show ?thesis
      using False by (simp add: ring_read_def)
  qed
  then show "mem_read data n (ring_copy_out base sz off data n m) = ring (bytes_at base m) sz off n"
    using ring_read_eq [OF off n] by simp
  show "ring_copy_out base sz off data n m x = m x" if "x < data \<or> data + n \<le> x"
    using that off by (auto simp: ring_copy_out_def memcpy_outside)
qed

lemma ring_copy_in_append:
  assumes "disjoint_areas base sz data n" and "k + n \<le> sz" and "0 < sz"
  shows "ring (bytes_at base (ring_copy_in base sz ((h + k) mod sz) data n m)) sz h (k + n) =
    ring (bytes_at base m) sz h k @ mem_read data n m"
  using ring_write_append [of k "mem_read data n m" sz base h m] ring_copy_in_eq [OF assms(1), of "(h + k) mod sz" m]
    assms(2,3) by simp

lemma ring_copy_out_ring:
  assumes "disjoint_areas base sz data n" and "off < sz" and "n \<le> sz"
  shows "ring (bytes_at base (ring_copy_out base sz off data n m)) sz h k = ring (bytes_at base m) sz h k"
  using assms by (intro ring_bytes_outside ring_copy_out_eq(2)) (auto simp: disjoint_areas_def)

lemma ring_copy_in_step:
  assumes "t < sz" and "n \<le> sz" and "a = min (sz - t) n"
  shows "ring_copy_in base sz t data n m =
    ring_copy_in base sz ((t + a) mod sz) (data + a) (n - a) (memcpy (base + t) data a m)"
proof (cases "t + n \<le> sz")
  case True
  then have "a = n"
    using assms by simp
  then show ?thesis
    using True assms(1) by (simp add: ring_copy_in_def mod_le_divisor)
next
  case False
  then have "a = sz - t" "n + t - sz \<le> sz"
    using assms by auto
  then show ?thesis
    using False assms(1,2) by (simp add: ring_copy_in_def)
qed

lemma ring_copy_out_step:
  assumes "t < sz" and "n \<le> sz" and "a = min (sz - t) n"
  shows "ring_copy_out base sz t data n m =
    ring_copy_out base sz ((t + a) mod sz) (data + a) (n - a) (memcpy data (base + t) a m)"
proof (cases "t + n \<le> sz")
  case True
  then have "a = n"
    using assms by simp
  then show ?thesis
    using True assms(1) by (simp add: ring_copy_out_def mod_le_divisor)
next
  case False
  then have "a = sz - t" "n + t - sz \<le> sz"
    using assms by auto
  then show ?thesis
    using False assms(1,2) by (simp add: ring_copy_out_def)
qed

lemma ring_copy_in_0 [simp]: "t < sz \<Longrightarrow> ring_copy_in base sz t data 0 m = m"
  by (simp add: ring_copy_in_def)

lemma ring_copy_out_0 [simp]: "t < sz \<Longrightarrow> ring_copy_out base sz t data 0 m = m"
  by (simp add: ring_copy_out_def)

section \<open>The fill level between two positions\<close>

definition ring_used :: "nat \<Rightarrow> nat \<Rightarrow> nat \<Rightarrow> nat" where
  "ring_used sz h t = nat ((int t - int h) mod int sz)"

lemma ring_used_less: "0 < sz \<Longrightarrow> ring_used sz h t < sz"
  by (simp add: ring_used_def nat_less_iff)

lemma ring_used_eq:
  assumes "h < sz" and "t < sz"
  shows "ring_used sz h t = (if t < h then t + sz - h else t - h)"
proof (cases "t < h")
  case True
  have "(int t - int h) mod int sz = (int t - int h + int sz) mod int sz"
    by simp
  also have "\<dots> = int t - int h + int sz"
    using True assms by (intro mod_pos_pos_trivial) auto
  finally show ?thesis
    using True assms by (simp add: ring_used_def nat_eq_iff)
qed (use assms in \<open>simp add: ring_used_def\<close>)

lemma ring_used_0: "h < sz \<Longrightarrow> t < sz \<Longrightarrow> ring_used sz h t = 0 \<longleftrightarrow> h = t"
  by (auto simp: ring_used_eq)

lemma ring_used_tail:
  assumes "t < sz"
  shows "(h + ring_used sz h t) mod sz = t"
proof -
  have "int ((h + ring_used sz h t) mod sz) = (int h + (int t - int h) mod int sz) mod int sz"
    using assms by (simp add: ring_used_def zmod_int)
  also have "\<dots> = int t"
    using assms by (simp add: mod_add_right_eq)
  finally show ?thesis
    by simp
qed

lemma ring_used_put:
  assumes "ring_used sz h t + a < sz"
  shows "ring_used sz h ((t + a) mod sz) = ring_used sz h t + a"
proof -
  have "(int ((t + a) mod sz) - int h) mod int sz = ((int t - int h) mod int sz + int a) mod int sz"
    by (simp add: zmod_int mod_diff_left_eq mod_add_left_eq add_diff_eq diff_add_eq)
  moreover have "(int t - int h) mod int sz = int (ring_used sz h t)"
    using assms by (simp add: ring_used_def)
  ultimately have "(int ((t + a) mod sz) - int h) mod int sz = int (ring_used sz h t + a)"
    using assms by simp
  then show ?thesis
    by (simp add: ring_used_def [of sz h "(t + a) mod sz"])
qed

lemma ring_used_get:
  assumes "a \<le> ring_used sz h t" and "0 < sz"
  shows "ring_used sz ((h + a) mod sz) t = ring_used sz h t - a"
proof -
  have u: "(int t - int h) mod int sz = int (ring_used sz h t)"
    using assms(2) by (simp add: ring_used_def)
  have "(int t - int ((h + a) mod sz)) mod int sz = ((int t - int h) mod int sz - int a) mod int sz"
    by (simp add: zmod_int mod_diff_right_eq mod_diff_left_eq algebra_simps)
  also have "\<dots> = int (ring_used sz h t - a)"
    unfolding u using assms ring_used_less [OF assms(2), of h t] by (simp add: of_nat_diff)
  finally show ?thesis
    by (simp add: ring_used_def [of sz "(h + a) mod sz"])
qed

section \<open>Sizes that are powers of two\<close>

text \<open>\<open>is_power_of_two\<close> of include/misc/util.h.\<close>

definition is_power_of_two :: "u32 \<Rightarrow> bool" where
  "is_power_of_two x \<longleftrightarrow> x \<noteq> 0 \<and> x AND (x - 1) = 0"

lemma nat_power_of_two:
  fixes x :: nat
  assumes "x \<noteq> 0" and "x AND (x - 1) = 0"
  shows "\<exists>k. x = 2 ^ k"
  using assms
proof (induction x rule: less_induct)
  case (less x)
  show ?case
  proof (cases "even x")
    case True
    then obtain y where y: "x = 2 * y" "y \<noteq> 0" "y < x"
      using less.prems(1) by auto
    have "(x - 1) div 2 = y - 1" "x div 2 = y"
      using y by auto
    then have "y AND (y - 1) = 0"
      using less.prems(2) and_rec [of x "x - 1"] by simp
    then obtain k where "y = 2 ^ k"
      using less.IH [OF y(3,2)] by blast
    then show ?thesis
      using y by (metis power_Suc)
  next
    case False
    then obtain y where y: "x = 2 * y + 1"
      by (elim oddE)
    then have "y = 0"
      using less.prems(2) and_rec [of x "x - 1"] by simp
    then have "x = 2 ^ 0"
      using y by simp
    then show ?thesis
      by blast
  qed
qed

lemma is_power_of_two_unat:
  assumes "is_power_of_two w"
  obtains k where "unat w = 2 ^ k" and "k < 32"
proof -
  have "unat w AND unat (w - 1) = unat (w AND (w - 1))"
    by (rule unsigned_and_eq [symmetric])
  then have "unat w AND (unat w - 1) = 0"
    using assms by (simp add: is_power_of_two_def unat_pred unat_gt_0)
  then obtain k where k: "unat w = 2 ^ k"
    using nat_power_of_two [of "unat w"] assms by (auto simp: is_power_of_two_def unat_eq_0)
  moreover have "(2 :: nat) ^ k < 2 ^ 32"
    using unsigned_less [of w, where 'a = nat] k by simp
  then have "k < 32"
    by (rule power_less_imp_less_exp [rotated]) simp
  ultimately show ?thesis
    using that by simp
qed

lemma power_of_two_dvd:
  assumes "is_power_of_two w"
  shows "unat w dvd 2 ^ 32"
proof -
  obtain k where k: "unat w = 2 ^ k" "k < 32"
    using assms by (rule is_power_of_two_unat)
  then show ?thesis
    using le_imp_power_dvd [of k 32 "2 :: nat"] by simp
qed

lemma and_mask_mod:
  assumes "is_power_of_two w"
  shows "unat (x AND (w - 1)) = unat x mod unat w"
proof -
  obtain k where k: "unat w = 2 ^ k" "k < 32"
    using assms by (rule is_power_of_two_unat)
  then have "unat (w - 1) = mask k"
    by (simp add: unat_pred mask_eq_exp_minus_1)
  then show ?thesis
    using k by (simp add: unsigned_and_eq take_bit_eq_mod flip: take_bit_eq_mask)
qed

end
