(* ===== verification/Msgq.thy ===== *)
theory Msgq
  imports Waitable Ring
begin

text \<open>
  Message queues: kernel/msg_q.c and the inline functions of include/kernel.h.

  Pointers are addresses of the byte memory; the message of a waiting thread is where its
  \<open>swap_data\<close> points. The two copies of the code that stores a message at \<open>write_ptr\<close> are
  \<open>msgq_store\<close>.
\<close>

record k_msgq =
  msgq_wait_q :: wqid
  msg_size :: nat
  max_msgs :: u32
  buffer_start :: nat
  buffer_end :: nat
  read_ptr :: nat
  write_ptr :: nat
  used_msgs :: u32

type_synonym msgq_state = "kernel \<times> mem \<times> k_msgq"

section \<open>Operations\<close>

definition k_msgq_init :: "k_msgq \<Rightarrow> nat \<Rightarrow> nat \<Rightarrow> u32 \<Rightarrow> kernel \<Rightarrow> kernel \<times> k_msgq" where
  "k_msgq_init q buf msz maxm s =
     (s\<lparr>wait_qs := (wait_qs s)(msgq_wait_q q := [])\<rparr>,
      q\<lparr>msg_size := msz, max_msgs := maxm, buffer_start := buf,
        buffer_end := buf + unat maxm * msz, read_ptr := buf, write_ptr := buf, used_msgs := 0\<rparr>)"

definition msgq_store :: "k_msgq \<Rightarrow> nat \<Rightarrow> mem \<Rightarrow> mem \<times> k_msgq" where
  "msgq_store q data mem =
     (let mem = memcpy (write_ptr q) data (msg_size q) mem;
          q = q\<lparr>write_ptr := write_ptr q + msg_size q\<rparr>;
          q = (if write_ptr q = buffer_end q then q\<lparr>write_ptr := buffer_start q\<rparr> else q)
      in (mem, q\<lparr>used_msgs := used_msgs q + 1\<rparr>))"

definition k_msgq_put ::
    "(fn_ptr \<Rightarrow> toid \<Rightarrow> kernel \<Rightarrow> kernel) \<Rightarrow> nat \<Rightarrow> int \<Rightarrow> msgq_state \<Rightarrow> msgq_state \<times> int outcome" where
  "k_msgq_put call data timeout x =
     (case x of (s, mem, q) \<Rightarrow>
        let s = kassert (\<not> is_in_isr s \<or> timeout = K_NO_WAIT) s in
        if used_msgs q < max_msgs q then
          (case unpend_first_thread (msgq_wait_q q) s of
             (s, Some t) \<Rightarrow>
               let mem = memcpy (unat (swap_data (threads s t))) data (msg_size q) mem;
                   s = set_thread_return_value t 0 s;
                   s = fst (abort_thread_timeout t s);
                   s = ready_thread t s
               in ((if \<not> is_in_isr s \<and> must_switch_threads s then Swap s else s, mem, q), Returned 0)
           | (s, None) \<Rightarrow> (case msgq_store q data mem of (mem, q) \<Rightarrow> ((s, mem, q), Returned 0)))
        else if timeout = K_NO_WAIT then ((s, mem, q), Returned (- ENOMSG))
        else
          let s = pend_current_thread call (msgq_wait_q q) timeout s;
              s = upd_thread (current s) (\<lambda>b. b\<lparr>swap_data := of_nat data\<rparr>) s
          in ((Swap s, mem, q), Switched_out))"

definition k_msgq_get ::
    "(fn_ptr \<Rightarrow> toid \<Rightarrow> kernel \<Rightarrow> kernel) \<Rightarrow> nat \<Rightarrow> int \<Rightarrow> msgq_state \<Rightarrow> msgq_state \<times> int outcome" where
  "k_msgq_get call data timeout x =
     (case x of (s, mem, q) \<Rightarrow>
        let s = kassert (\<not> is_in_isr s \<or> timeout = K_NO_WAIT) s in
        if used_msgs q > 0 then
          let mem = memcpy data (read_ptr q) (msg_size q) mem;
              q = q\<lparr>read_ptr := read_ptr q + msg_size q\<rparr>;
              q = (if read_ptr q = buffer_end q then q\<lparr>read_ptr := buffer_start q\<rparr> else q);
              q = q\<lparr>used_msgs := used_msgs q - 1\<rparr>
          in (case unpend_first_thread (msgq_wait_q q) s of
                (s, Some t) \<Rightarrow>
                  (case msgq_store q (unat (swap_data (threads s t))) mem of (mem, q) \<Rightarrow>
                     let s = set_thread_return_value t 0 s;
                         s = fst (abort_thread_timeout t s);
                         s = ready_thread t s
                     in ((if \<not> is_in_isr s \<and> must_switch_threads s then Swap s else s, mem, q), Returned 0))
              | (s, None) \<Rightarrow> ((s, mem, q), Returned 0))
        else if timeout = K_NO_WAIT then ((s, mem, q), Returned (- ENOMSG))
        else
          let s = pend_current_thread call (msgq_wait_q q) timeout s;
              s = upd_thread (current s) (\<lambda>b. b\<lparr>swap_data := of_nat data\<rparr>) s
          in ((Swap s, mem, q), Switched_out))"

function purge_loop :: "wqid \<Rightarrow> kernel \<Rightarrow> kernel" where
  "purge_loop w s =
     (case find_first_thread_to_unpend w None s of
        None \<Rightarrow> s
      | Some t \<Rightarrow>
          let s = unpend_thread t s;
              s = set_thread_return_value t (- ENOMSG) s;
              s = fst (abort_thread_timeout t s)
          in purge_loop w (ready_thread t s))"
  by auto

lemma find_first_in: "find_first_thread_to_unpend w None s = Some t \<Longrightarrow> t \<in> set (wait_qs s w)"
  by (auto simp: find_first_thread_to_unpend_def find_Some_iff split: if_splits list.splits)

termination purge_loop
proof (relation "measure (\<lambda>(w, s). length (wait_qs s w))", goal_cases)
  case (2 w s t)
  then show ?case
    using find_first_in [of w s t]
    by (auto simp: abort_thread_timeout_def unpend_thread_def dlist_remove_k_q_node_def Let_def length_remove1
        intro!: diff_less length_pos_if_in_set)
qed simp

declare purge_loop.simps [simp del]

definition k_msgq_purge :: "msgq_state \<Rightarrow> msgq_state" where
  "k_msgq_purge x =
     (case x of (s, mem, q) \<Rightarrow>
        let s = purge_loop (msgq_wait_q q) s;
            q = q\<lparr>used_msgs := 0\<rparr>;
            q = q\<lparr>read_ptr := write_ptr q\<rparr>
        in (reschedule_threads s, mem, q))"

definition k_msgq_num_free_get :: "k_msgq \<Rightarrow> u32" where
  "k_msgq_num_free_get q = max_msgs q - used_msgs q"

definition k_msgq_num_used_get :: "k_msgq \<Rightarrow> u32" where
  "k_msgq_num_used_get q = used_msgs q"

section \<open>The ring of messages\<close>

definition slot_addr :: "k_msgq \<Rightarrow> nat \<Rightarrow> nat" where
  "slot_addr q i = buffer_start q + i * msg_size q"

definition slot :: "k_msgq \<Rightarrow> mem \<Rightarrow> nat \<Rightarrow> u8 list" where
  "slot q m i = mem_read (slot_addr q i) (msg_size q) m"

definition read_slot :: "k_msgq \<Rightarrow> nat" where
  "read_slot q = (read_ptr q - buffer_start q) div msg_size q"

definition contents :: "k_msgq \<Rightarrow> mem \<Rightarrow> u8 list list" where
  "contents q m = ring (slot q m) (unat (max_msgs q)) (read_slot q) (unat (used_msgs q))"

text \<open>Both pointers are at slots, and the write pointer is \<open>used_msgs\<close> slots ahead.\<close>

definition msgq_wf :: "k_msgq \<Rightarrow> bool" where
  "msgq_wf q \<longleftrightarrow>
     0 < msg_size q \<and> 0 < max_msgs q \<and> used_msgs q \<le> max_msgs q \<and>
     buffer_end q = slot_addr q (unat (max_msgs q)) \<and>
     read_slot q < unat (max_msgs q) \<and> read_ptr q = slot_addr q (read_slot q) \<and>
     write_ptr q = slot_addr q ((read_slot q + unat (used_msgs q)) mod unat (max_msgs q))"

definition outside :: "k_msgq \<Rightarrow> nat \<Rightarrow> bool" where
  "outside q data \<longleftrightarrow> disjoint_areas data (msg_size q) (buffer_start q) (unat (max_msgs q) * msg_size q)"

lemma slot_addr_less:
  assumes "i < n"
  shows "slot_addr q i + msg_size q \<le> slot_addr q n"
proof -
  have "Suc i * msg_size q \<le> n * msg_size q"
    using assms by (intro mult_le_mono1) simp
  then show ?thesis
    by (simp add: slot_addr_def)
qed

lemma slot_memcpy:
  assumes "i < n" and "j < n" and "slot_addr q i = d"
  shows "slot q (memcpy d src (msg_size q) m) j = (if j = i then mem_read src (msg_size q) m else slot q m j)"
proof (cases "j = i")
  case False
  then have "disjoint_areas (slot_addr q j) (msg_size q) d (msg_size q)"
    using slot_addr_less [of i j q] slot_addr_less [of j i q] assms
    by (cases "j < i") (auto simp: disjoint_areas_def)
  then show ?thesis
    using False by (simp add: slot_def mem_read_memcpy_disjoint)
qed (use assms in \<open>simp add: slot_def\<close>)

lemma slot_write_outside:
  assumes "outside q d" and "i < unat (max_msgs q)" and "length bs = msg_size q"
  shows "slot q (mem_write d bs m) i = slot q m i"
proof -
  have "disjoint_areas (slot_addr q i) (msg_size q) d (msg_size q)"
    using assms slot_addr_less [OF assms(2), of q] slot_addr_less [of 0 "Suc i" q]
    by (auto simp: outside_def disjoint_areas_def slot_addr_def)
  then show ?thesis
    using assms(3) by (simp add: slot_def mem_read_write_disjoint)
qed

lemma slot_mod_less: "0 < n \<Longrightarrow> slot_addr q (i mod n) + msg_size q \<le> slot_addr q n"
  by (simp add: slot_addr_less)

lemma read_slot_addr [simp]: "0 < msg_size q \<Longrightarrow> (slot_addr q i - buffer_start q) div msg_size q = i"
  by (simp add: slot_addr_def)

text \<open>Advancing a pointer by one slot, with the wrap at the end of the buffer.\<close>

lemma advance:
  assumes "0 < msg_size q" and "i < n" and "buffer_end q = slot_addr q n"
  shows "(if slot_addr q i + msg_size q = buffer_end q then buffer_start q else slot_addr q i + msg_size q) =
    slot_addr q (Suc i mod n)"
proof (cases "Suc i = n")
  case False
  have "slot_addr q i + msg_size q = slot_addr q (Suc i)"
    by (simp add: slot_addr_def)
  moreover have "slot_addr q (Suc i) < slot_addr q n"
    using slot_addr_less [of "Suc i" n q] False assms by simp
  ultimately show ?thesis
    using False assms by simp
qed (use assms in \<open>auto simp: slot_addr_def\<close>)

lemma msgq_store:
  assumes wf: "msgq_wf q" and room: "used_msgs q < max_msgs q"
  shows "msgq_wf (snd (msgq_store q data m))"
    and "contents (snd (msgq_store q data m)) (fst (msgq_store q data m)) =
      contents q m @ [mem_read data (msg_size q) m]"
proof -
  let ?n = "unat (max_msgs q)" and ?u = "unat (used_msgs q)" and ?r = "read_slot q"
  let ?w = "(?r + ?u) mod ?n"
  define q' where "q' = snd (msgq_store q data m)"
  define m' where "m' = fst (msgq_store q data m)"
  have w: "?w < ?n" "write_ptr q = slot_addr q ?w" "?u < ?n" and s: "0 < msg_size q"
    and e: "buffer_end q = slot_addr q ?n"
    using wf room by (auto simp: msgq_wf_def word_less_nat_alt)
  have u: "unat (used_msgs q + 1) = Suc ?u"
    using room by (simp add: unat_succ_less word_less_nat_alt)
  have q': "q' = q\<lparr>write_ptr := slot_addr q (Suc ?w mod ?n), used_msgs := used_msgs q + 1\<rparr>"
    using advance [OF s w(1) e] by (auto simp: q'_def msgq_store_def Let_def w(2))
  have m': "m' = memcpy (slot_addr q ?w) data (msg_size q) m"
    by (simp add: m'_def msgq_store_def Let_def w(2))
  have rs: "read_slot q' = ?r" "slot q' = slot q" "slot_addr q' = slot_addr q"
    by (auto simp: q' read_slot_def slot_def slot_addr_def fun_eq_iff)
  show "msgq_wf (snd (msgq_store q data m))"
    using wf u w(3) unfolding q'_def [symmetric] msgq_wf_def rs
    by (simp add: q' word_le_nat_alt mod_Suc_eq)
  have f: "slot q m' j = (if j = ?w then mem_read data (msg_size q) m else slot q m j)" if "j < ?n" for j
    using slot_memcpy [OF w(1) that refl] by (simp add: m')
  have "ring (slot q m') ?n ?r ?u = ring (slot q m) ?n ?r ?u"
    using w(3) f by (intro ring_update_free [where k = 1]) auto
  moreover have "contents q' m' = ring (slot q m') ?n ?r (Suc ?u)"
    by (simp add: contents_def rs u) (simp add: q' u)
  ultimately show "contents (snd (msgq_store q data m)) (fst (msgq_store q data m)) =
      contents q m @ [mem_read data (msg_size q) m]"
    using f [OF w(1)] unfolding q'_def [symmetric] m'_def [symmetric] by (simp add: ring_snoc contents_def)
qed


lemma store_outside:
  assumes "msgq_wf q" and "outside q d"
  shows "mem_read d (msg_size q) (fst (msgq_store q data m)) = mem_read d (msg_size q) m"
proof -
  let ?n = "unat (max_msgs q)"
  let ?w = "(read_slot q + unat (used_msgs q)) mod ?n"
  have "write_ptr q = slot_addr q ?w" "?w < ?n"
    using assms(1) by (auto simp: msgq_wf_def word_less_nat_alt)
  then have "disjoint_areas d (msg_size q) (write_ptr q) (msg_size q)"
    using assms(2) slot_addr_less [of ?w ?n q] by (auto simp: outside_def disjoint_areas_def slot_addr_def)
  then show ?thesis
    by (simp add: msgq_store_def Let_def mem_read_memcpy_disjoint)
qed

text \<open>The first part of \<open>k_msgq_get\<close>: the oldest message is copied out.\<close>

definition msgq_load :: "k_msgq \<Rightarrow> nat \<Rightarrow> mem \<Rightarrow> mem \<times> k_msgq" where
  "msgq_load q data mem =
     (let mem = memcpy data (read_ptr q) (msg_size q) mem;
          q = q\<lparr>read_ptr := read_ptr q + msg_size q\<rparr>;
          q = (if read_ptr q = buffer_end q then q\<lparr>read_ptr := buffer_start q\<rparr> else q)
      in (mem, q\<lparr>used_msgs := used_msgs q - 1\<rparr>))"

lemma contents_outside:
  assumes "0 < max_msgs q" and "outside q d" and "length bs = msg_size q"
  shows "contents q (mem_write d bs m) = contents q m"
  using assms by (simp add: contents_def ring_def slot_write_outside word_less_nat_alt)

lemma msgq_load:
  fixes m :: mem
  assumes wf: "msgq_wf q" and ne: "0 < used_msgs q" and out: "outside q data"
  defines "q' \<equiv> snd (msgq_load q data m)" and "m' \<equiv> fst (msgq_load q data m)"
  shows "msgq_wf q'" "contents q m = mem_read data (msg_size q) m' # contents q' m'"
    "used_msgs q' < max_msgs q'" "msg_size q' = msg_size q" "max_msgs q' = max_msgs q"
    "buffer_start q' = buffer_start q" "msgq_wait_q q' = msgq_wait_q q"
    "unat (used_msgs q') = unat (used_msgs q) - 1" "m' = memcpy data (read_ptr q) (msg_size q) m"
    "used_msgs q' = used_msgs q - 1"
proof -
  let ?n = "unat (max_msgs q)" and ?u = "unat (used_msgs q)" and ?r = "read_slot q"
  have r: "?r < ?n" "read_ptr q = slot_addr q ?r" "0 < ?u" "?u \<le> ?n" and s: "0 < msg_size q"
    and e: "buffer_end q = slot_addr q ?n"
    using wf ne by (auto simp: msgq_wf_def word_less_nat_alt word_le_nat_alt)
  have u: "unat (used_msgs q - 1) = ?u - 1"
    using r(3) by (rule unat_pred)
  have q': "q' = q\<lparr>read_ptr := slot_addr q (Suc ?r mod ?n), used_msgs := used_msgs q - 1\<rparr>"
    using advance [OF s r(1) e] by (auto simp: q'_def msgq_load_def Let_def r(2))
  show m': "m' = memcpy data (read_ptr q) (msg_size q) m"
    by (simp add: m'_def msgq_load_def Let_def)
  have rs: "read_slot q' = Suc ?r mod ?n" "slot q' = slot q" "slot_addr q' = slot_addr q"
    using s by (auto simp: q' read_slot_def slot_def slot_addr_def fun_eq_iff)
  have "(Suc ?r mod ?n + (?u - 1)) mod ?n = (?r + ?u) mod ?n"
    using r(3) mod_add_left_eq [of "Suc ?r" ?n "?u - 1"] by simp
  then show "msgq_wf q'"
    using wf u r unfolding msgq_wf_def rs by (simp add: q' word_le_nat_alt)
  show "used_msgs q' < max_msgs q'" "msg_size q' = msg_size q" "max_msgs q' = max_msgs q"
    "buffer_start q' = buffer_start q" "msgq_wait_q q' = msgq_wait_q q" "unat (used_msgs q') = ?u - 1"
    "used_msgs q' = used_msgs q - 1"
    using u r by (simp_all add: q' word_less_nat_alt)
  have "contents q' m' = contents q' m"
    using contents_outside [of q' data] out r(1) by (simp add: m' memcpy_def outside_def q' word_less_nat_alt)
  moreover have "contents q' m = ring (slot q m) ?n (Suc ?r) (?u - 1)"
    by (simp add: contents_def rs) (simp add: q' u)
  moreover have "mem_read data (msg_size q) m' = slot q m ?r"
    by (simp add: m' slot_def r(2))
  ultimately show "contents q m = mem_read data (msg_size q) m' # contents q' m'"
    using ring_Cons [OF r(3), of "slot q m" ?n ?r] r(1) by (simp add: contents_def)
qed

section \<open>Branches\<close>

lemma put_store:
  assumes "used_msgs q < max_msgs q" and "\<not> is_in_isr s \<or> timeout = K_NO_WAIT"
    and "find_first_thread_to_unpend (msgq_wait_q q) None s = None"
  shows "k_msgq_put call data timeout (s, m, q) =
    ((s, fst (msgq_store q data m), snd (msgq_store q data m)), Returned 0)"
  using assms by (simp add: k_msgq_put_def Let_def unpend_first_thread_def split_beta)

lemma get_load:
  assumes "0 < used_msgs q" and "\<not> is_in_isr s \<or> timeout = K_NO_WAIT"
    and "find_first_thread_to_unpend (msgq_wait_q q) None s = None"
  shows "k_msgq_get call data timeout (s, m, q) =
    ((s, fst (msgq_load q data m), snd (msgq_load q data m)), Returned 0)"
  using assms by (simp add: k_msgq_get_def msgq_load_def Let_def unpend_first_thread_def)

lemma get_load_waiter:
  assumes "0 < used_msgs q" and "\<not> is_in_isr s \<or> timeout = K_NO_WAIT"
    and "find_first_thread_to_unpend (msgq_wait_q q) None s = Some t"
  shows "k_msgq_get call data timeout (s, m, q) =
    (let x = msgq_load q data m;
         y = msgq_store (snd x) (unat (swap_data (threads (unpend_thread t s) t))) (fst x);
         s = wake_upd t (\<lambda>b. b\<lparr>return_value := 0\<rparr>) s
     in ((if \<not> is_in_isr s \<and> must_switch_threads s then Swap s else s, fst y, snd y), Returned 0))"
  using assms
  by (simp add: k_msgq_get_def msgq_load_def Let_def unpend_first_thread_def split_beta wake_upd_def)

lemma put_waiter:
  assumes "used_msgs q < max_msgs q" and "\<not> is_in_isr s \<or> timeout = K_NO_WAIT"
    and "find_first_thread_to_unpend (msgq_wait_q q) None s = Some t"
  shows "k_msgq_put call data timeout (s, m, q) =
    (let m = memcpy (unat (swap_data (threads (unpend_thread t s) t))) data (msg_size q) m;
         s = wake_upd t (\<lambda>b. b\<lparr>return_value := 0\<rparr>) s
     in ((if \<not> is_in_isr s \<and> must_switch_threads s then Swap s else s, m, q), Returned 0))"
  using assms by (simp add: k_msgq_put_def Let_def unpend_first_thread_def wake_upd_def)


section \<open>The message queue as a first-in first-out buffer\<close>

text \<open>
  \<open>data\<close> is the caller's buffer: a put stores the message there first, a get reads it from
  there. The operations are the non-blocking ones on a queue nobody waits for.
\<close>

definition msgq_fifo_inv :: "nat \<Rightarrow> msgq_state \<Rightarrow> bool" where
  "msgq_fifo_inv data x \<longleftrightarrow> (case x of (s, m, q) \<Rightarrow>
     msgq_wf q \<and> outside q data \<and> find_first_thread_to_unpend (msgq_wait_q q) None s = None)"

definition msgq_contents :: "msgq_state \<Rightarrow> u8 list list" where
  "msgq_contents x = (case x of (s, m, q) \<Rightarrow> contents q m)"

fun msgq_ok :: "u8 list fifo_op \<Rightarrow> msgq_state \<Rightarrow> bool" where
  "msgq_ok (Put xs) (s, m, q) \<longleftrightarrow> map length xs = [msg_size q] \<and> used_msgs q < max_msgs q"
| "msgq_ok (Get n) (s, m, q) \<longleftrightarrow> 0 < used_msgs q"

definition msgq_put1 :: "nat \<Rightarrow> u8 list list \<Rightarrow> msgq_state \<Rightarrow> msgq_state" where
  "msgq_put1 data xs x = (case x of (s, m, q) \<Rightarrow>
     fst (k_msgq_put (\<lambda>_ _ s. s) data K_NO_WAIT (s, mem_write data (hd xs) m, q)))"

definition msgq_get1 :: "nat \<Rightarrow> nat \<Rightarrow> msgq_state \<Rightarrow> u8 list list \<times> msgq_state" where
  "msgq_get1 data n x =
     (case fst (k_msgq_get (\<lambda>_ _ s. s) data K_NO_WAIT x) of (s, m, q) \<Rightarrow>
        ([mem_read data (msg_size q) m], (s, m, q)))"

interpretation msgq: fifo "msgq_fifo_inv data" msgq_contents msgq_ok "msgq_put1 data" "msgq_get1 data" for data
proof (unfold_locales, goal_cases)
  case (1 x xs)
  obtain s m q where x: "x = (s, m, q)"
    by (cases x)
  show ?case
    using 1 put_store [of q s] msgq_store(1) [of q data]
    by (auto simp: x msgq_fifo_inv_def msgq_put1_def msgq_store_def Let_def outside_def)
next
  case (2 x xs)
  obtain s m q msg where x: "x = (s, m, q)" "xs = [msg]" "length msg = msg_size q"
    using 2(2) by (cases x) auto
  show ?case
    using 2 put_store [of q s] msgq_store(2) [of q data] contents_outside [of q data msg m] x(3)
    by (auto simp: x(1,2) msgq_fifo_inv_def msgq_put1_def msgq_contents_def msgq_wf_def split_beta)
next
  case (3 x n)
  obtain s m q where x: "x = (s, m, q)"
    by (cases x)
  show ?case
    using 3 get_load [of q s] msgq_load(1,4-7) [of q data m]
    by (simp add: x msgq_fifo_inv_def msgq_get1_def outside_def split_beta)
next
  case (4 x n)
  obtain s m q where x: "x = (s, m, q)"
    by (cases x)
  show ?case
    using 4 get_load [of q s] msgq_load(2,4) [of q data m]
    by (simp add: x msgq_fifo_inv_def msgq_get1_def msgq_contents_def split_beta)
qed

section \<open>Properties\<close>


definition msgq4 :: k_msgq where
  "msgq4 = snd (k_msgq_init \<lparr>msgq_wait_q = 4, msg_size = 0, max_msgs = 0, buffer_start = 0, buffer_end = 0,
                             read_ptr = 0, write_ptr = 0, used_msgs = 0\<rparr> 100 2 3 boot)"


text \<open>
  A get admits a waiting writer. When a message is taken from a full queue on which a
  thread waits to put, the caller gets the oldest message, the waiting thread's message is
  appended behind all others (order is kept although the writer never ran), the queue is
  full again, and the writer is made ready with return value 0.
\<close>

theorem k_msgq_get_admits_writer:
  assumes "kinv {} s" and "\<not> handling_timeouts s" and "is_thread_ready (current s) s"
    and "msgq_wf q" and "outside q data" and "used_msgs q = max_msgs q"
    and "wait_qs s (msgq_wait_q q) = t # ts" and "\<not> is_in_isr s"
    and "outside q (unat (swap_data (threads s t)))"
    and "disjoint_areas (unat (swap_data (threads s t))) (msg_size q) data (msg_size q)"
    and "k_msgq_get call data timeout (s, m, q) = ((s', m', q'), r)"
  shows "r = Returned 0 \<and> mem_read data (msg_size q) m' = hd (contents q m) \<and>
    contents q' m' = tl (contents q m) @ [mem_read (unat (swap_data (threads s t))) (msg_size q) m] \<and>
    used_msgs q' = max_msgs q' \<and> msgq_wf q' \<and>
    served t (msgq_wait_q q) s s' \<and> return_value (threads s' t) = 0"
proof -
  let ?d = "unat (swap_data (threads s t))"
  have ne: "0 < used_msgs q"
    using assms(4,6) by (simp add: msgq_wf_def)
  have f: "find_first_thread_to_unpend (msgq_wait_q q) None s = Some t"
    and tw: "t \<in> set (wait_qs s (msgq_wait_q q))"
    using assms(2,7) by simp_all
  define q1 m1 where "q1 = snd (msgq_load q data m)" and "m1 = fst (msgq_load q data m)"
  note l = msgq_load [OF assms(4) ne assms(5), of m, folded q1_def m1_def]
  note w = wake_upd [OF assms(1) f, of "\<lambda>b. b\<lparr>return_value := 0\<rparr>"]
  have sd: "swap_data (threads (unpend_thread t s) t) = swap_data (threads s t)"
    by (simp add: unpend_thread_eq [OF assms(1) tw])
  note st = msgq_store [OF l(1,3), of ?d m1]
  have eq: "m' = fst (msgq_store q1 ?d m1)" "q' = snd (msgq_store q1 ?d m1)" "r = Returned 0"
    "s' = (let s = wake_upd t (\<lambda>b. b\<lparr>return_value := 0\<rparr>) s in
       if \<not> is_in_isr s \<and> must_switch_threads s then Swap s else s)"
    using assms(11) get_load_waiter [OF ne _ f, of timeout call data m] assms(8)
    by (auto simp: Let_def sd q1_def m1_def)
  have "mem_read ?d (msg_size q) m1 = mem_read ?d (msg_size q) m"
    unfolding l(9) using assms(10) by (rule mem_read_memcpy_disjoint)
  then have c: "contents q' m' = tl (contents q m) @ [mem_read ?d (msg_size q) m]"
    using st(2) l(2,4) by (simp add: eq)
  have "mem_read data (msg_size q) m' = mem_read data (msg_size q) m1"
    using store_outside [OF l(1), of data ?d m1] assms(5) l(4-6) by (simp add: eq outside_def)
  then have h: "mem_read data (msg_size q) m' = hd (contents q m)"
    using l(2) by simp
  have "used_msgs q' = max_msgs q'"
    using l(5,10) assms(6) by (simp add: eq msgq_store_def Let_def)
  then show ?thesis
    using c h st(1) w waiter_not_current [OF assms(1,3) tw]
    by (auto simp: eq(2,3,4) Let_def)
qed

theorem k_msgq_get_admits_writer_witness:
  "contents (snd (snd (fst (k_msgq_get (\<lambda>_ _ s. s) 8 K_NO_WAIT (boot_waiting 4, (\<lambda>a. of_nat a), msgq4\<lparr>used_msgs := 3\<rparr>)))))
     (fst (snd (fst (k_msgq_get (\<lambda>_ _ s. s) 8 K_NO_WAIT (boot_waiting 4, (\<lambda>a. of_nat a), msgq4\<lparr>used_msgs := 3\<rparr>))))) =
     [[102, 103], [104, 105], [0, 1]]"
proof -
  let ?q = "msgq4\<lparr>used_msgs := 3\<rparr>" and ?m = "\<lambda>a. of_nat a :: u8"
  let ?r = "k_msgq_get (\<lambda>_ _ s. s) 8 K_NO_WAIT (boot_waiting 4, ?m, ?q)"
  have q: "msgq_wf ?q" "outside ?q 8" "used_msgs ?q = max_msgs ?q" "msgq_wait_q ?q = 4"
    "swap_data (threads (boot_waiting 4) 1) = 0" "outside ?q 0" "disjoint_areas 0 (msg_size ?q) 8 (msg_size ?q)"
    "tl (contents ?q ?m) @ [mem_read 0 (msg_size ?q) ?m] = [[102, 103], [104, 105], [0, 1]]"
    by code_simp+
  show ?thesis
    using k_msgq_get_admits_writer [of "boot_waiting 4" ?q 8 1 "[]" "\<lambda>_ _ s. s" K_NO_WAIT ?m "fst (fst ?r)"
        "fst (snd (fst ?r))" "snd (snd (fst ?r))" "snd ?r"] q
    by simp
qed

text \<open>
  Full and empty queues. A put without waiting on a full queue and a get without waiting
  on an empty one return \<open>-ENOMSG\<close> and change neither the kernel, the memory nor the queue.
\<close>

theorem k_msgq_no_wait_errors:
  "(used_msgs q = max_msgs q \<longrightarrow> k_msgq_put call data K_NO_WAIT (s, m, q) = ((s, m, q), Returned (- ENOMSG))) \<and>
   (used_msgs q = 0 \<longrightarrow> k_msgq_get call data K_NO_WAIT (s, m, q) = ((s, m, q), Returned (- ENOMSG)))"
  by (simp add: k_msgq_put_def k_msgq_get_def Let_def)

theorem k_msgq_no_wait_errors_witness:
  "k_msgq_get (\<lambda>_ _ s. s) 8 K_NO_WAIT (boot, (\<lambda>_. 0), msgq4) = ((boot, (\<lambda>_. 0), msgq4), Returned (- ENOMSG))"
proof -
  have "used_msgs msgq4 = 0"
    by code_simp
  then show ?thesis
    using k_msgq_no_wait_errors [of msgq4 "\<lambda>_ _ s. s" 8 boot "\<lambda>_. 0"] by simp
qed

lemma purge_loop_effect:
  assumes "kinv {} s" and "\<not> handling_timeouts s" and "s' = purge_loop w s"
  shows "kinv {} s' \<and> wait_qs s' = (wait_qs s)(w := []) \<and> current s' = current s \<and>
    (\<forall>t. (if t \<in> set (wait_qs s w) then return_value (threads s' t) = - ENOMSG \<and> \<not> is_thread_pending t s'
            \<and> delta s' (TThread t) = INACTIVE
          else return_value (threads s' t) = return_value (threads s t) \<and>
            (is_thread_pending t s' = is_thread_pending t s) \<and>
            (delta s' (TThread t) = INACTIVE \<longleftrightarrow> delta s (TThread t) = INACTIVE)))"
  using assms
proof (induction w s arbitrary: s' rule: purge_loop.induct)
  case (1 w s)
  show ?case
  proof (cases "wait_qs s w")
    case Nil
    then have "s' = s"
      using "1.prems" by (simp add: purge_loop.simps [of w s])
    then show ?thesis
      using "1.prems"(1) Nil by auto
  next
    case (Cons t ts)
    have f: "find_first_thread_to_unpend w None s = Some t"
      using "1.prems"(2) Cons by simp
    define r where "r = wake_upd t (\<lambda>b. b\<lparr>return_value := - ENOMSG\<rparr>) s"
    note w = wake_upd [OF "1.prems"(1) f, of "\<lambda>b. b\<lparr>return_value := - ENOMSG\<rparr>", folded r_def]
    note d = wake_upd_delta [OF "1.prems"(1) f, of "\<lambda>b. b\<lparr>return_value := - ENOMSG\<rparr>", folded r_def]
    have t: "t \<notin> set ts"
      using kinvD(2) [OF "1.prems"(1)] Cons unfolding wq_inv_def by (metis distinct.simps(2))
    have s': "s' = purge_loop w r"
      using "1.prems"(3) f by (simp add: purge_loop.simps [of w s] r_def wake_upd_def Let_def del: find_first_head)
    have r: "kinv {} r" "\<not> handling_timeouts r" "wait_qs r = (wait_qs s)(w := ts)"
      "\<And>u. is_thread_pending u r \<longleftrightarrow> u \<noteq> t \<and> is_thread_pending u s"
      using w(1) "1.prems"(2) w(4) Cons by (auto simp: served_def)
    have "ready_thread t (fst (abort_thread_timeout t (set_thread_return_value t (- ENOMSG) (unpend_thread t s)))) = r"
      by (simp add: r_def wake_upd_def)
    note ih = "1.IH" [OF f refl refl refl, unfolded this]
    show ?thesis
      using ih [OF r(1,2) s'] r(3,4) w(2,7) d t Cons by auto
  qed
qed

text \<open>
  C29: Purging. \<open>k_msgq_purge\<close> ends, empties the queue, leaves no thread waiting on it, and
  every thread that waited is woken with return value \<open>-ENOMSG\<close> and no timeout; the kernel
  invariant holds afterwards.
\<close>

theorem k_msgq_purge_wakes_all:
  assumes "kinv {} s" and "\<not> handling_timeouts s" and "is_thread_ready (current s) s" and "msgq_wf q"
    and "k_msgq_purge (s, m, q) = (s', m', q')"
  shows "kinv {} s' \<and> wait_qs s' (msgq_wait_q q) = [] \<and> contents q' m' = [] \<and> msgq_wf q' \<and> m' = m \<and>
    (\<forall>t\<in>set (wait_qs s (msgq_wait_q q)). return_value (threads s' t) = - ENOMSG \<and> \<not> is_thread_pending t s' \<and>
       delta s' (TThread t) = INACTIVE)"
proof -
  let ?r = "purge_loop (msgq_wait_q q) s"
  have e: "s' = reschedule_threads ?r" "m' = m" "q' = q\<lparr>used_msgs := 0, read_ptr := write_ptr q\<rparr>"
    using assms(5) by (auto simp: k_msgq_purge_def Let_def)
  have "read_slot q' = (read_slot q + unat (used_msgs q)) mod unat (max_msgs q)" "slot_addr q' = slot_addr q"
    using assms(4) by (auto simp: e read_slot_def msgq_wf_def slot_addr_def fun_eq_iff)
  then have "msgq_wf q'" "contents q' m' = []"
    using assms(4) by (simp_all add: e msgq_wf_def contents_def word_less_nat_alt)
  moreover have "t \<noteq> current s" if "t \<in> set (wait_qs s (msgq_wait_q q))" for t
    using waiter_not_current [OF assms(1,3) that] .
  moreover have "u \<noteq> current r \<Longrightarrow> threads (reschedule_threads r) u = threads r u" for u r
    by (simp add: reschedule_threads_def)
  ultimately show ?thesis
    using purge_loop_effect [OF assms(1,2) refl, of "msgq_wait_q q"] e(1,2) by auto
qed

theorem k_msgq_purge_wakes_all_witness:
  "return_value (threads (fst (k_msgq_purge (boot_waiting 4, (\<lambda>_. 0), msgq4))) 1) = - ENOMSG"
proof -
  have "msgq_wf msgq4" "msgq_wait_q msgq4 = 4"
    by code_simp+
  then show ?thesis
    using k_msgq_purge_wakes_all [of "boot_waiting 4" msgq4 "\<lambda>_. 0" "fst (k_msgq_purge (boot_waiting 4, (\<lambda>_. 0), msgq4))"
        "fst (snd (k_msgq_purge (boot_waiting 4, (\<lambda>_. 0), msgq4)))"
        "snd (snd (k_msgq_purge (boot_waiting 4, (\<lambda>_. 0), msgq4)))"]
    by simp
qed

end
