(* ===== verification/Sem.thy ===== *)
theory Sem
  imports Waitable
begin

text \<open>
  Counting semaphores: kernel/sem.c and the inline functions of include/kernel.h.
\<close>

record k_sem =
  sem_wait_q :: wqid
  count :: u32
  limit :: u32

section \<open>Operations\<close>

definition k_sem_init :: "u32 \<Rightarrow> u32 \<Rightarrow> k_sem \<Rightarrow> kernel \<Rightarrow> kernel \<times> k_sem" where
  "k_sem_init initial_count lim sem s =
     (let s = kassert (lim \<noteq> 0) s;
          sem = sem\<lparr>count := initial_count, limit := lim\<rparr>;
          s = s\<lparr>wait_qs := (wait_qs s)(sem_wait_q sem := [])\<rparr>
      in (s, sem))"

definition increment_count_up_to_limit :: "k_sem \<Rightarrow> k_sem" where
  "increment_count_up_to_limit sem =
     sem\<lparr>count := count sem + (if count sem \<noteq> limit sem then 1 else 0)\<rparr>"

definition do_sem_give :: "k_sem \<Rightarrow> kernel \<Rightarrow> kernel \<times> k_sem \<times> bool" where
  "do_sem_give sem s =
     (case unpend_first_thread (sem_wait_q sem) s of
        (s, None) \<Rightarrow> (s, increment_count_up_to_limit sem, False)
      | (s, Some t) \<Rightarrow>
          let s = fst (abort_thread_timeout t s);
              s = ready_thread t s;
              s = set_thread_return_value t 0 s
          in (s, sem, \<not> is_in_isr s \<and> must_switch_threads s))"

definition sem_give_non_preemptible :: "k_sem \<Rightarrow> kernel \<Rightarrow> kernel \<times> k_sem" where
  "sem_give_non_preemptible sem s =
     (case unpend_first_thread (sem_wait_q sem) s of
        (s, None) \<Rightarrow> (s, increment_count_up_to_limit sem)
      | (s, Some t) \<Rightarrow>
          let s = fst (abort_thread_timeout t s);
              s = ready_thread t s;
              s = set_thread_return_value t 0 s
          in (s, sem))"

definition k_sem_give :: "k_sem \<Rightarrow> kernel \<Rightarrow> kernel \<times> k_sem" where
  "k_sem_give sem s =
     (case do_sem_give sem s of (s, sem, swap) \<Rightarrow> (if swap then Swap s else s, sem))"

definition k_sem_take ::
    "(fn_ptr \<Rightarrow> toid \<Rightarrow> kernel \<Rightarrow> kernel) \<Rightarrow> k_sem \<Rightarrow> int \<Rightarrow> kernel \<Rightarrow>
      kernel \<times> k_sem \<times> int outcome" where
  "k_sem_take call sem timeout s =
     (let s = kassert (\<not> is_in_isr s \<or> timeout = K_NO_WAIT) s in
      if count sem > 0 then (s, sem\<lparr>count := count sem - 1\<rparr>, Returned 0)
      else if timeout = K_NO_WAIT then (s, sem, Returned (- EBUSY))
      else
        let s = pend_current_thread call (sem_wait_q sem) timeout s
        in (Swap s, sem, Switched_out))"

definition k_sem_reset :: "k_sem \<Rightarrow> k_sem" where
  "k_sem_reset sem = sem\<lparr>count := 0\<rparr>"

definition k_sem_count_get :: "k_sem \<Rightarrow> u32" where
  "k_sem_count_get sem = count sem"

section \<open>Behaviour\<close>

lemma do_sem_give_waiter:
  assumes "find_first_thread_to_unpend (sem_wait_q sem) None s = Some t"
  shows "k_sem_give sem s =
    (let s' = set_thread_return_value t 0 (wake t s)
     in if \<not> is_in_isr s' \<and> must_switch_threads s' then Swap s' else s', sem)"
  using assms by (simp add: k_sem_give_def do_sem_give_def unpend_first_thread_def wake_def Let_def)

lemma do_sem_give_none:
  assumes "find_first_thread_to_unpend (sem_wait_q sem) None s = None"
  shows "k_sem_give sem s = (s, increment_count_up_to_limit sem)"
  using assms by (simp add: k_sem_give_def do_sem_give_def unpend_first_thread_def)

lemma kinv_sem_give:
  assumes "kinv {} s"
  shows "kinv {} (fst (k_sem_give sem s))"
proof (cases "find_first_thread_to_unpend (sem_wait_q sem) None s")
  case None
  then show ?thesis
    using assms by (simp add: do_sem_give_none)
next
  case (Some t)
  then show ?thesis
    using kinv_wake [OF assms Some] by (simp add: do_sem_give_waiter Let_def)
qed

lemma sem_give_frame:
  assumes inv: "kinv {} s"
  shows "snd (k_sem_give sem s) =
       (case find_first_thread_to_unpend (sem_wait_q sem) None s of
          None \<Rightarrow> increment_count_up_to_limit sem | Some t \<Rightarrow> sem)"
    and "handling_timeouts (fst (k_sem_give sem s)) = handling_timeouts s"
    and "wait_qs (fst (k_sem_give sem s)) = (wait_qs s)(sem_wait_q sem :=
       (case find_first_thread_to_unpend (sem_wait_q sem) None s of
          None \<Rightarrow> wait_qs s (sem_wait_q sem) | Some t \<Rightarrow> remove1 t (wait_qs s (sem_wait_q sem))))"
proof -
  have "snd (k_sem_give sem s) = sem \<and> handling_timeouts (fst (k_sem_give sem s)) = handling_timeouts s \<and>
    wait_qs (fst (k_sem_give sem s)) = (wait_qs s)(sem_wait_q sem := remove1 t (wait_qs s (sem_wait_q sem)))"
    if "find_first_thread_to_unpend (sem_wait_q sem) None s = Some t" for t
    using wake_sel [OF inv find_first_Some(1) [OF inv that]] by (simp add: do_sem_give_waiter [OF that] Let_def)
  then show "snd (k_sem_give sem s) =
       (case find_first_thread_to_unpend (sem_wait_q sem) None s of
          None \<Rightarrow> increment_count_up_to_limit sem | Some t \<Rightarrow> sem)"
    and "handling_timeouts (fst (k_sem_give sem s)) = handling_timeouts s"
    and "wait_qs (fst (k_sem_give sem s)) = (wait_qs s)(sem_wait_q sem :=
       (case find_first_thread_to_unpend (sem_wait_q sem) None s of
          None \<Rightarrow> wait_qs s (sem_wait_q sem) | Some t \<Rightarrow> remove1 t (wait_qs s (sem_wait_q sem))))"
    by (cases "find_first_thread_to_unpend (sem_wait_q sem) None s"; simp add: do_sem_give_none)+
qed

lemma kinv_sem_take:
  assumes "kinv {} s" and "timeout_ok timeout"
    and "timeout \<noteq> K_NO_WAIT \<Longrightarrow> can_block s \<and> \<not> is_in_isr s"
  shows "kinv {} (fst (k_sem_take call sem timeout s))"
  using assms kinv_pend_current [of s timeout call "sem_wait_q sem"]
  by (auto simp: k_sem_take_def Let_def is_in_isr_def)

section \<open>The semaphore as a waitable object\<close>

definition sem_inv :: "kernel \<times> k_sem \<Rightarrow> bool" where
  "sem_inv x \<longleftrightarrow> kinv {} (fst x) \<and> \<not> handling_timeouts (fst x) \<and> count (snd x) \<le> limit (snd x)"

definition sem_avail :: "kernel \<times> k_sem \<Rightarrow> nat" where
  "sem_avail x = unat (count (snd x))"

definition sem_waiting :: "kernel \<times> k_sem \<Rightarrow> tid list" where
  "sem_waiting x = wait_qs (fst x) (sem_wait_q (snd x))"

fun sem_ok :: "unit object_op \<Rightarrow> kernel \<times> k_sem \<Rightarrow> bool" where
  "sem_ok (Give _) x = True"
| "sem_ok (Take timeout) x = take_ok timeout (fst x)"
| "sem_ok (Env f) x = env_ok f (sem_wait_q (snd x)) (fst x)"

fun sem_step ::
    "(fn_ptr \<Rightarrow> toid \<Rightarrow> kernel \<Rightarrow> kernel) \<Rightarrow> unit object_op \<Rightarrow> kernel \<times> k_sem \<Rightarrow> kernel \<times> k_sem" where
  "sem_step call (Give _) (s, sem) = k_sem_give sem s"
| "sem_step call (Take timeout) (s, sem) =
     (case k_sem_take call sem timeout s of (s, sem, _) \<Rightarrow> (s, sem))"
| "sem_step call (Env f) (s, sem) = (f s, sem)"

lemma count_up_to_limit:
  assumes "count sem \<le> limit sem"
  shows "count (increment_count_up_to_limit sem) \<le> limit sem"
    and "unat (count (increment_count_up_to_limit sem)) = min (Suc (unat (count sem))) (unat (limit sem))"
proof -
  have "unat (count sem + 1) = Suc (unat (count sem))" if "count sem < limit sem"
    using that by (simp add: unat_succ_less word_less_nat_alt)
  then show "unat (count (increment_count_up_to_limit sem)) = min (Suc (unat (count sem))) (unat (limit sem))"
    using assms
    by (cases "count sem < limit sem") (auto simp: increment_count_up_to_limit_def word_less_nat_alt)
  then show "count (increment_count_up_to_limit sem) \<le> limit sem"
    by (simp add: word_le_nat_alt)
qed

lemma sem_take_frame:
  assumes "timeout_ok timeout" and "count sem \<le> limit sem"
  shows "handling_timeouts (fst (k_sem_take call sem timeout s)) = handling_timeouts s"
    and "count (fst (snd (k_sem_take call sem timeout s))) \<le> limit (fst (snd (k_sem_take call sem timeout s)))"
  using assms
  by (auto simp: k_sem_take_def Let_def pend_current_sel word_le_nat_alt unat_pred word_less_nat_alt)

interpretation sem: waitable sem_inv sem_avail sem_waiting sem_ok "sem_step call" for call
proof (unfold_locales, goal_cases)
  case (1 x o1)
  obtain s sem where x: "x = (s, sem)"
    by fastforce
  have inv: "kinv {} s" "\<not> handling_timeouts s" "count sem \<le> limit sem"
    using 1 by (auto simp: x sem_inv_def)
  show ?case
  proof (cases o1)
    case (Give a)
    have "count (snd (k_sem_give sem s)) \<le> limit (snd (k_sem_give sem s))"
      using count_up_to_limit(1) [OF inv(3)] inv(3)
      by (auto simp: sem_give_frame [OF inv(1)] increment_count_up_to_limit_def split: option.split)
    with Give show ?thesis
      using kinv_sem_give [OF inv(1), of sem] inv(2) sem_give_frame(2) [OF inv(1), of sem]
      by (simp add: x sem_inv_def)
  next
    case (Take k)
    then show ?thesis
      using kinv_sem_take [OF inv(1), of k call sem] sem_take_frame [of k sem call s] 1(2) inv
      by (simp add: x sem_inv_def take_ok_def split_beta)
  next
    case (Env f)
    then show ?thesis
      using 1(2) inv by (simp add: x sem_inv_def env_ok_def)
  qed
next
  case (2 x a t ts)
  then show ?case
    by (cases x) (auto simp: sem_inv_def sem_waiting_def sem_avail_def sem_give_frame)
next
  case (3 x a)
  then show ?case
    by (cases x) (auto simp: sem_inv_def sem_waiting_def sem_give_frame increment_count_up_to_limit_def)
next
  case (4 x k)
  then show ?case
    by (cases x) (auto simp: sem_inv_def sem_waiting_def sem_avail_def k_sem_take_def Let_def
        word_less_nat_alt unat_pred)
next
  case (5 x k)
  then show ?case
    by (cases x) (auto simp: sem_inv_def sem_avail_def k_sem_take_def Let_def word_less_nat_alt)
next
  case (6 x f)
  then show ?case
    by (cases x) (auto simp: sem_avail_def sem_waiting_def env_ok_def)
qed

section \<open>Properties\<close>

text \<open>
  Giving a semaphore on which threads wait. The unit goes to the first waiter and not
  to the count: the waiter leaves the queue with its timeout cancelled and return value 0,
  the others keep waiting in order, and the kernel invariant holds afterwards.
\<close>

theorem k_sem_give_serves_first_waiter:
  assumes "kinv {} s" and "\<not> handling_timeouts s" and "wait_qs s (sem_wait_q sem) = t # ts"
    and "is_thread_ready (current s) s"
  shows "served t (sem_wait_q sem) s (fst (k_sem_give sem s)) \<and> snd (k_sem_give sem s) = sem \<and>
    return_value (threads (fst (k_sem_give sem s)) t) = 0 \<and>
    wait_qs (fst (k_sem_give sem s)) (sem_wait_q sem) = ts"
proof -
  have f: "find_first_thread_to_unpend (sem_wait_q sem) None s = Some t"
    and tw: "t \<in> set (wait_qs s (sem_wait_q sem))"
    using assms(2,3) by simp_all
  then show ?thesis
    using waiter_not_current [OF assms(1,4) tw] wake_sel [OF assms(1) tw] served_wake [OF assms(1) f] assms(3)
    by (simp add: do_sem_give_waiter [OF f] Let_def)
qed

definition sem5 :: k_sem where
  "sem5 = \<lparr>sem_wait_q = 5, count = 0, limit = 3\<rparr>"

theorem k_sem_give_serves_first_waiter_witness:
  "served 1 5 (boot_waiting 5) (fst (k_sem_give sem5 (boot_waiting 5)))"
  using k_sem_give_serves_first_waiter [of "boot_waiting 5" sem5 1 "[]"] by (simp add: sem5_def)

text \<open>
  C20: No wake-up is lost and the count stays in range. Starting from a semaphore that is
  well formed and has no waiters while its count is positive, after any sequence of gives,
  takes (blocking or not) and steps of the rest of the system the kernel invariant holds,
  the count is at most the limit, and nobody waits while the count is positive.
\<close>

theorem sem_no_lost_wakeup:
  assumes "sem_inv (s, sem)" and "count sem = 0 \<or> wait_qs s (sem_wait_q sem) = []"
    and "run_ops sem_ok (sem_step call) ops (s, sem) = Some (s', sem')"
  shows "kinv {} s' \<and> count sem' \<le> limit sem' \<and> (count sem' = 0 \<or> wait_qs s' (sem_wait_q sem') = [])"
  using sem.no_lost_wakeup [of "(s, sem)" call ops "(s', sem')"] assms
  by (simp add: sem_avail_def sem_waiting_def sem_inv_def unat_eq_0)

theorem sem_no_lost_wakeup_witness:
  "count (snd (sem_step (\<lambda>_ _ s. s) (Give ()) (sem_step (\<lambda>_ _ s. s) (Give ()) (boot, sem5)))) \<le> 3"
proof -
  let ?x = "sem_step (\<lambda>_ _ s. s) (Give ()) (sem_step (\<lambda>_ _ s. s) (Give ()) (boot, sem5))"
  have "find_first_thread_to_unpend w None boot = None" for w
    by simp
  then have "?x = (boot, increment_count_up_to_limit (increment_count_up_to_limit sem5))"
    by (simp add: do_sem_give_none)
  then show ?thesis
    using sem_no_lost_wakeup [of boot sem5 "\<lambda>_ _ s. s" "[Give (), Give ()]" boot
        "increment_count_up_to_limit (increment_count_up_to_limit sem5)"]
    by (simp add: sem_inv_def sem5_def increment_count_up_to_limit_def)
qed

text \<open>
  A semaphore take with a timeout on an empty semaphore. The caller is switched out and
  stays blocked for exactly \<open>1 + ceil(timeout/2)\<close> ticks if nobody gives; then it is ready
  again with return value \<open>-EAGAIN\<close> and no longer on the wait queue.
\<close>

theorem k_sem_take_times_out:
  assumes "kinv {} s" and "can_block s" and "\<not> is_in_isr s" and "\<not> handling_timeouts s" and "only_threads s"
    and "count sem = 0" and "0 < timeout" and "timeout < 2 ^ 31"
    and "k_sem_take call sem timeout s = (s', sem', r)" and "n = nat (1 + (timeout + 1) div 2)"
  shows "r = Switched_out \<and> sem' = sem \<and>
    (\<forall>k<n. \<not> is_thread_ready (current s) ((handle_timeouts call 1 ^^ k) s')) \<and>
    is_thread_ready (current s) ((handle_timeouts call 1 ^^ n) s') \<and>
    return_value (threads ((handle_timeouts call 1 ^^ n) s') (current s)) = - EAGAIN \<and>
    current s \<notin> set (wait_qs ((handle_timeouts call 1 ^^ n) s') (sem_wait_q sem))"
proof -
  have "s' = Swap (pend_current_thread call (sem_wait_q sem) timeout s)" "sem' = sem" "r = Switched_out"
    using assms(3,6,7,9) by (auto simp: k_sem_take_def Let_def)
  then show ?thesis
    using block_times_out [OF assms(1,2,4,5,7,8,10) _ refl, of s' call "sem_wait_q sem"] by simp
qed

theorem k_sem_take_times_out_witness:
  "return_value (threads ((handle_timeouts (\<lambda>_ _ s. s) 1 ^^ 6)
     (fst (k_sem_take (\<lambda>_ _ s. s) sem5 10 boot))) 1) = - EAGAIN"
  using k_sem_take_times_out [of boot sem5 10 "\<lambda>_ _ s. s" _ _ _ 6]
  by (cases "k_sem_take (\<lambda>_ _ s. s) sem5 10 boot")
    (auto simp: is_in_isr_def only_threads_def sem5_def)

end
