(* ===== verification/Stack.thy ===== *)
theory Stack
  imports Waitable
begin

text \<open>
  Stacks of words: kernel/stack.c. The pointers \<open>base\<close>, \<open>next\<close> and \<open>top\<close> are indices of
  32-bit cells of the memory \<open>cells\<close>. \<open>k_stack_pop\<close> stops at \<open>_Swap\<close>; what it does when its
  thread runs again is \<open>k_stack_pop_resume\<close>.
\<close>

record k_stack =
  stack_wait_q :: wqid
  base :: nat
  stack_next :: nat
  top :: nat
  cells :: "nat \<Rightarrow> u32"

section \<open>Operations\<close>

definition k_stack_init :: "nat \<Rightarrow> nat \<Rightarrow> k_stack \<Rightarrow> kernel \<Rightarrow> kernel \<times> k_stack" where
  "k_stack_init buffer num_entries st s =
     (let s = s\<lparr>wait_qs := (wait_qs s)(stack_wait_q st := [])\<rparr>;
          st = st\<lparr>stack_next := buffer, base := buffer\<rparr>
      in (s, st\<lparr>top := base st + num_entries\<rparr>))"

definition k_stack_push :: "k_stack \<Rightarrow> u32 \<Rightarrow> kernel \<Rightarrow> kernel \<times> k_stack" where
  "k_stack_push st data s =
     (let s = kassert (stack_next st \<noteq> top st) s in
      case unpend_first_thread (stack_wait_q st) s of
        (s, Some t) \<Rightarrow>
          let s = fst (abort_thread_timeout t s);
              s = ready_thread t s;
              s = set_thread_return_value_with_data t 0 data s
          in (if \<not> is_in_isr s \<and> must_switch_threads s then Swap s else s, st)
      | (s, None) \<Rightarrow>
          let st = st\<lparr>cells := (cells st)(stack_next st := data)\<rparr>
          in (s, st\<lparr>stack_next := stack_next st + 1\<rparr>))"

definition k_stack_pop ::
    "(fn_ptr \<Rightarrow> toid \<Rightarrow> kernel \<Rightarrow> kernel) \<Rightarrow> k_stack \<Rightarrow> int \<Rightarrow> kernel \<Rightarrow>
      kernel \<times> k_stack \<times> (int \<times> u32 option) outcome" where
  "k_stack_pop call st timeout s =
     (if stack_next st > base st then
        let st = st\<lparr>stack_next := stack_next st - 1\<rparr> in (s, st, Returned (0, Some (cells st (stack_next st))))
      else if timeout = K_NO_WAIT then (s, st, Returned (- EBUSY, None))
      else
        let s = pend_current_thread call (stack_wait_q st) timeout s
        in (Swap s, st, Switched_out))"

definition k_stack_pop_resume :: "tid \<Rightarrow> kernel \<Rightarrow> int \<times> u32 option" where
  "k_stack_pop_resume t s =
     (let result = return_value (threads s t)
      in (result, if result = 0 then Some (swap_data (threads s t)) else None))"

section \<open>The stack as a waitable object\<close>

text \<open>The words on the stack, the last pushed first.\<close>

definition stack_contents :: "k_stack \<Rightarrow> u32 list" where
  "stack_contents st = rev (map (cells st) [base st..<stack_next st])"

definition stack_wf :: "k_stack \<Rightarrow> bool" where
  "stack_wf st \<longleftrightarrow> base st \<le> stack_next st \<and> stack_next st \<le> top st"

lemma push_waiter:
  assumes "stack_next st \<noteq> top st" and "find_first_thread_to_unpend (stack_wait_q st) None s = Some t"
  shows "k_stack_push st data s =
    (let s' = set_thread_return_value_with_data t 0 data (wake t s)
     in if \<not> is_in_isr s' \<and> must_switch_threads s' then Swap s' else s', st)"
  using assms by (simp add: k_stack_push_def unpend_first_thread_def wake_def Let_def)

lemma push_none:
  assumes "stack_next st \<noteq> top st" and "find_first_thread_to_unpend (stack_wait_q st) None s = None"
  shows "k_stack_push st data s = (s, st\<lparr>cells := (cells st)(stack_next st := data), stack_next := stack_next st + 1\<rparr>)"
  using assms by (simp add: k_stack_push_def unpend_first_thread_def Let_def)

lemma stack_contents_push:
  "stack_wf st \<Longrightarrow> stack_contents (st\<lparr>cells := (cells st)(stack_next st := data), stack_next := stack_next st + 1\<rparr>) =
     data # stack_contents st"
  by (simp add: stack_contents_def stack_wf_def)

lemma stack_contents_pop:
  "stack_wf st \<Longrightarrow> base st < stack_next st \<Longrightarrow>
     stack_contents st = cells st (stack_next st - 1) # stack_contents (st\<lparr>stack_next := stack_next st - 1\<rparr>)"
  by (cases "stack_next st") (auto simp: stack_contents_def stack_wf_def)

definition stack_inv :: "kernel \<times> k_stack \<Rightarrow> bool" where
  "stack_inv x \<longleftrightarrow> kinv {} (fst x) \<and> \<not> handling_timeouts (fst x) \<and> stack_wf (snd x)"

definition stack_avail :: "kernel \<times> k_stack \<Rightarrow> nat" where
  "stack_avail x = length (stack_contents (snd x))"

definition stack_waiting :: "kernel \<times> k_stack \<Rightarrow> tid list" where
  "stack_waiting x = wait_qs (fst x) (stack_wait_q (snd x))"

fun stack_ok :: "u32 object_op \<Rightarrow> kernel \<times> k_stack \<Rightarrow> bool" where
  "stack_ok (Give data) x \<longleftrightarrow> stack_next (snd x) \<noteq> top (snd x)"
| "stack_ok (Take timeout) x = take_ok timeout (fst x)"
| "stack_ok (Env f) x = env_ok f (stack_wait_q (snd x)) (fst x)"

fun stack_step ::
    "(fn_ptr \<Rightarrow> toid \<Rightarrow> kernel \<Rightarrow> kernel) \<Rightarrow> u32 object_op \<Rightarrow> kernel \<times> k_stack \<Rightarrow> kernel \<times> k_stack" where
  "stack_step call (Give data) (s, st) = k_stack_push st data s"
| "stack_step call (Take timeout) (s, st) =
     (case k_stack_pop call st timeout s of (s, st, _) \<Rightarrow> (s, st))"
| "stack_step call (Env f) (s, st) = (f s, st)"

lemma push_facts:
  assumes inv: "kinv {} s" and nh: "\<not> handling_timeouts s" and ne: "stack_next st \<noteq> top st" and wf: "stack_wf st"
  shows "kinv {} (fst (k_stack_push st data s))" "\<not> handling_timeouts (fst (k_stack_push st data s))"
    "stack_wf (snd (k_stack_push st data s))"
    "stack_wait_q (snd (k_stack_push st data s)) = stack_wait_q st"
    "wait_qs (fst (k_stack_push st data s)) (stack_wait_q st) = tl (wait_qs s (stack_wait_q st))"
    "stack_contents (snd (k_stack_push st data s)) =
       (if wait_qs s (stack_wait_q st) = [] then data # stack_contents st else stack_contents st)"
proof -
  let ?w = "stack_wait_q st"
  have "kinv {} (fst (k_stack_push st data s)) \<and> \<not> handling_timeouts (fst (k_stack_push st data s)) \<and>
    stack_wf (snd (k_stack_push st data s)) \<and> stack_wait_q (snd (k_stack_push st data s)) = ?w \<and>
    wait_qs (fst (k_stack_push st data s)) ?w = tl (wait_qs s ?w) \<and>
    stack_contents (snd (k_stack_push st data s)) =
       (if wait_qs s ?w = [] then data # stack_contents st else stack_contents st)"
  proof (cases "wait_qs s ?w")
    case Nil
    then have f: "find_first_thread_to_unpend ?w None s = None"
      using nh by simp
    have "stack_wf (st\<lparr>cells := (cells st)(stack_next st := data), stack_next := stack_next st + 1\<rparr>)"
      using wf ne by (simp add: stack_wf_def)
    then show ?thesis
      unfolding push_none [OF ne f] using inv nh Nil stack_contents_push [OF wf] by simp
  next
    case (Cons t ts)
    then have f: "find_first_thread_to_unpend ?w None s = Some t"
      using nh by simp
    show ?thesis
      unfolding push_waiter [OF ne f]
      using kinv_wake [OF inv f] wake_sel [OF inv find_first_Some(1) [OF inv f]] nh wf Cons
      by (simp add: Let_def)
  qed
  then show "kinv {} (fst (k_stack_push st data s))" "\<not> handling_timeouts (fst (k_stack_push st data s))"
    "stack_wf (snd (k_stack_push st data s))" "stack_wait_q (snd (k_stack_push st data s)) = ?w"
    "wait_qs (fst (k_stack_push st data s)) ?w = tl (wait_qs s ?w)"
    "stack_contents (snd (k_stack_push st data s)) =
       (if wait_qs s ?w = [] then data # stack_contents st else stack_contents st)"
    by blast+
qed

lemma pop_facts:
  assumes "kinv {} s" and "\<not> handling_timeouts s" and wf: "stack_wf st" and ok: "take_ok timeout s"
  shows "kinv {} (fst (k_stack_pop call st timeout s))"
    "\<not> handling_timeouts (fst (k_stack_pop call st timeout s))"
    "stack_wf (fst (snd (k_stack_pop call st timeout s)))"
    "stack_wait_q (fst (snd (k_stack_pop call st timeout s))) = stack_wait_q st"
    "stack_contents (fst (snd (k_stack_pop call st timeout s))) = tl (stack_contents st)"
    "stack_contents st \<noteq> [] \<Longrightarrow> fst (k_stack_pop call st timeout s) = s"
proof -
  have len: "stack_contents st \<noteq> [] \<longleftrightarrow> base st < stack_next st"
    by (auto simp: stack_contents_def)
  have "kinv {} (fst (k_stack_pop call st timeout s)) \<and> \<not> handling_timeouts (fst (k_stack_pop call st timeout s))"
    using assms kinv_pend_current(1) [of s timeout call "stack_wait_q st"]
    by (auto simp: k_stack_pop_def Let_def take_ok_def pend_current_sel)
  then show "kinv {} (fst (k_stack_pop call st timeout s))"
    "\<not> handling_timeouts (fst (k_stack_pop call st timeout s))"
    by auto
  show "stack_wf (fst (snd (k_stack_pop call st timeout s)))"
    "stack_wait_q (fst (snd (k_stack_pop call st timeout s))) = stack_wait_q st"
    using wf by (auto simp: k_stack_pop_def Let_def stack_wf_def)
  show "stack_contents (fst (snd (k_stack_pop call st timeout s))) = tl (stack_contents st)"
    using stack_contents_pop [OF wf] len by (auto simp: k_stack_pop_def Let_def)
  show "stack_contents st \<noteq> [] \<Longrightarrow> fst (k_stack_pop call st timeout s) = s"
    using len by (simp add: k_stack_pop_def Let_def)
qed

interpretation stack: waitable stack_inv stack_avail stack_waiting stack_ok "stack_step call" for call
proof (unfold_locales, goal_cases)
  case (1 x o1)
  then show ?case
    by (cases x; cases o1) (auto simp: stack_inv_def push_facts pop_facts split_beta env_ok_def)
next
  case (2 x a t ts)
  then show ?case
    by (cases x) (simp add: stack_inv_def stack_waiting_def stack_avail_def push_facts)
next
  case (3 x a)
  then show ?case
    by (cases x) (simp add: stack_inv_def stack_waiting_def push_facts)
next
  case (4 x k)
  then show ?case
    by (cases x) (auto simp: stack_inv_def stack_waiting_def stack_avail_def pop_facts split_beta)
next
  case (5 x k)
  then show ?case
    by (cases x) (auto simp: stack_inv_def stack_avail_def pop_facts split_beta)
next
  case (6 x f)
  then show ?case
    by (cases x) (auto simp: stack_avail_def stack_waiting_def env_ok_def)
qed

section \<open>Properties\<close>

text \<open>
  A stack is last-in first-out: when no thread waits, pushing a word and popping
  returns 0 and that word, and leaves the stack's contents and the kernel as they were.
\<close>

theorem k_stack_push_pop:
  assumes "kinv {} s" and "\<not> handling_timeouts s" and "wait_qs s (stack_wait_q st) = []"
    and "stack_wf st" and "stack_next st < top st" and "k_stack_push st data s = (s1, st1)"
    and "k_stack_pop call st1 timeout s1 = (s2, st2, r)"
  shows "s2 = s \<and> r = Returned (0, Some data) \<and> stack_contents st1 = data # stack_contents st \<and>
    stack_contents st2 = stack_contents st \<and> stack_wf st2"
proof -
  have "s1 = s" "st1 = st\<lparr>cells := (cells st)(stack_next st := data), stack_next := stack_next st + 1\<rparr>"
    using assms(2,3,5,6) by (simp_all add: push_none)
  then show ?thesis
    using assms(4,5,7) by (auto simp: k_stack_pop_def Let_def stack_wf_def stack_contents_def)
qed

definition stack5 :: k_stack where
  "stack5 = \<lparr>stack_wait_q = 5, base = 10, stack_next = 10, top = 12, cells = (\<lambda>_. 0)\<rparr>"

theorem k_stack_push_pop_witness:
  "snd (snd (k_stack_pop (\<lambda>_ _ s. s) (snd (k_stack_push stack5 7 boot)) 0
     (fst (k_stack_push stack5 7 boot)))) = Returned (0, Some 7)"
  using k_stack_push_pop [of boot stack5 7 "fst (k_stack_push stack5 7 boot)"
      "snd (k_stack_push stack5 7 boot)" "\<lambda>_ _ s. s" 0]
  by (cases "k_stack_pop (\<lambda>_ _ s. s) (snd (k_stack_push stack5 7 boot)) 0 (fst (k_stack_push stack5 7 boot))")
    (simp add: stack5_def stack_wf_def)

text \<open>
  A word pushed while threads wait goes to the first of them: that thread leaves the
  wait queue, its pending pop returns 0 and the word, and the stack does not change.
\<close>

theorem k_stack_push_serves_first_waiter:
  assumes "kinv {} s" and "\<not> handling_timeouts s" and "wait_qs s (stack_wait_q st) = t # ts"
    and "is_thread_ready (current s) s" and "stack_next st \<noteq> top st" and "k_stack_push st data s = (s', st')"
  shows "served t (stack_wait_q st) s s' \<and> st' = st \<and> k_stack_pop_resume t s' = (0, Some data)"
proof -
  have f: "find_first_thread_to_unpend (stack_wait_q st) None s = Some t"
    and tw: "t \<in> set (wait_qs s (stack_wait_q st))"
    using assms(2,3) by simp_all
  show ?thesis
    using waiter_not_current [OF assms(1,4) tw] wake_sel [OF assms(1) tw] served_wake [OF assms(1) f] assms(6)
    by (auto simp: push_waiter [OF assms(5) f] Let_def k_stack_pop_resume_def)
qed

theorem k_stack_push_serves_first_waiter_witness:
  "k_stack_pop_resume 1 (fst (k_stack_push stack5 7 (boot_waiting 5))) = (0, Some 7)"
  using k_stack_push_serves_first_waiter [of "boot_waiting 5" stack5 1 "[]" 7
      "fst (k_stack_push stack5 7 (boot_waiting 5))" "snd (k_stack_push stack5 7 (boot_waiting 5))"]
  by (simp add: stack5_def)

text \<open>
  No pushed word waits in the stack while a thread waits for one, after any sequence of
  pushes onto a stack that is not full, pops and steps of the rest of the system; and the
  stack pointer stays between the bounds of the buffer.
\<close>

theorem stack_no_lost_wakeup:
  assumes "stack_inv (s, st)" and "stack_contents st = [] \<or> wait_qs s (stack_wait_q st) = []"
    and "run_ops stack_ok (stack_step call) ops (s, st) = Some (s', st')"
  shows "kinv {} s' \<and> base st' \<le> stack_next st' \<and> stack_next st' \<le> top st' \<and>
    (stack_contents st' = [] \<or> wait_qs s' (stack_wait_q st') = [])"
  using stack.no_lost_wakeup [of "(s, st)" call ops "(s', st')"] assms
  by (simp add: stack_avail_def stack_waiting_def stack_inv_def stack_wf_def)

theorem stack_no_lost_wakeup_witness:
  "stack_next (snd (stack_step (\<lambda>_ _ s. s) (Give 7) (boot, stack5))) \<le> 12"
  using stack_no_lost_wakeup [of boot stack5 "\<lambda>_ _ s. s" "[Give 7]" boot
      "snd (stack_step (\<lambda>_ _ s. s) (Give 7) (boot, stack5))"]
  by (simp add: stack_inv_def stack5_def stack_wf_def push_none)

end
