(* ===== verification/Slist.thy ===== *)
theory Slist
  imports Fifo
begin

text \<open>
  Singly-linked lists: include/misc/slist.h, with nodes as 32-bit addresses (NULL is 0) and
  the \<open>next\<close> fields as a heap. \<open>slist_rel h l xs\<close> relates a list header to the sequence
  of nodes it links; every operation refines the corresponding operation on sequences.
\<close>

type_synonym snode = u32
type_synonym sheap = "snode \<Rightarrow> snode"

record sys_slist =
  head :: snode
  tail :: snode

section \<open>Operations\<close>

definition sys_slist_init :: "sys_slist \<Rightarrow> sys_slist" where
  "sys_slist_init l = l\<lparr>head := 0, tail := 0\<rparr>"

definition sys_slist_is_empty :: "sys_slist \<Rightarrow> bool" where
  "sys_slist_is_empty l \<longleftrightarrow> head l = 0"

definition sys_slist_peek_head :: "sys_slist \<Rightarrow> snode" where
  "sys_slist_peek_head l = head l"

definition sys_slist_peek_tail :: "sys_slist \<Rightarrow> snode" where
  "sys_slist_peek_tail l = tail l"

definition sys_slist_peek_next_no_check :: "sheap \<Rightarrow> snode \<Rightarrow> snode" where
  "sys_slist_peek_next_no_check h node = h node"

definition sys_slist_peek_next :: "sheap \<Rightarrow> snode \<Rightarrow> snode" where
  "sys_slist_peek_next h node = (if node \<noteq> 0 then sys_slist_peek_next_no_check h node else 0)"

definition sys_slist_prepend :: "snode \<Rightarrow> sheap \<times> sys_slist \<Rightarrow> sheap \<times> sys_slist" where
  "sys_slist_prepend node x =
     (case x of (h, l) \<Rightarrow>
        let h = h(node := head l);
            l = l\<lparr>head := node\<rparr>
        in (h, if tail l = 0 then l\<lparr>tail := head l\<rparr> else l))"

definition sys_slist_append :: "snode \<Rightarrow> sheap \<times> sys_slist \<Rightarrow> sheap \<times> sys_slist" where
  "sys_slist_append node x =
     (case x of (h, l) \<Rightarrow>
        let h = h(node := 0)
        in if tail l = 0 then (h, l\<lparr>tail := node, head := node\<rparr>)
           else (h(tail l := node), l\<lparr>tail := node\<rparr>))"

definition sys_slist_append_list :: "snode \<Rightarrow> snode \<Rightarrow> sheap \<times> sys_slist \<Rightarrow> sheap \<times> sys_slist" where
  "sys_slist_append_list hd1 tl1 x =
     (case x of (h, l) \<Rightarrow>
        if tail l = 0 then (h, l\<lparr>head := hd1, tail := tl1\<rparr>)
        else (h(tail l := hd1), l\<lparr>tail := tl1\<rparr>))"

definition sys_slist_merge_slist ::
    "sys_slist \<Rightarrow> sheap \<times> sys_slist \<Rightarrow> (sheap \<times> sys_slist) \<times> sys_slist" where
  "sys_slist_merge_slist list_to_append x =
     (sys_slist_append_list (head list_to_append) (tail list_to_append) x,
      sys_slist_init list_to_append)"

definition sys_slist_insert :: "snode \<Rightarrow> snode \<Rightarrow> sheap \<times> sys_slist \<Rightarrow> sheap \<times> sys_slist" where
  "sys_slist_insert prev node x =
     (case x of (h, l) \<Rightarrow>
        if prev = 0 then sys_slist_prepend node (h, l)
        else if h prev = 0 then sys_slist_append node (h, l)
        else (let h = h(node := h prev) in (h(prev := node), l)))"

definition sys_slist_get_not_empty :: "sheap \<times> sys_slist \<Rightarrow> snode \<times> sheap \<times> sys_slist" where
  "sys_slist_get_not_empty x =
     (case x of (h, l) \<Rightarrow>
        let node = head l;
            l = l\<lparr>head := h node\<rparr>
        in (node, h, if tail l = node then l\<lparr>tail := head l\<rparr> else l))"

definition sys_slist_get :: "sheap \<times> sys_slist \<Rightarrow> snode \<times> sheap \<times> sys_slist" where
  "sys_slist_get x =
     (if sys_slist_is_empty (snd x) then (0, x) else sys_slist_get_not_empty x)"

definition sys_slist_remove :: "snode \<Rightarrow> snode \<Rightarrow> sheap \<times> sys_slist \<Rightarrow> sheap \<times> sys_slist" where
  "sys_slist_remove prev_node node x =
     (case x of (h, l) \<Rightarrow>
        let (h, l) =
          (if prev_node = 0 then
             let l = l\<lparr>head := h node\<rparr> in (h, if tail l = node then l\<lparr>tail := head l\<rparr> else l)
           else
             (h(prev_node := h node), if tail l = node then l\<lparr>tail := prev_node\<rparr> else l))
        in (h(node := 0), l))"

text \<open>The loop of \<open>sys_slist_find_and_remove\<close> and \<open>sys_slist_find\<close>; it need not end on a cyclic list.\<close>

partial_function (option) slist_search :: "sheap \<Rightarrow> snode \<Rightarrow> snode \<Rightarrow> snode \<Rightarrow> (bool \<times> snode) option" where
  "slist_search h node prev test =
     (if test = 0 then Some (False, prev)
      else if test = node then Some (True, prev)
      else slist_search h node test (sys_slist_peek_next h test))"

definition sys_slist_find_and_remove ::
    "snode \<Rightarrow> sheap \<times> sys_slist \<Rightarrow> (bool \<times> sheap \<times> sys_slist) option" where
  "sys_slist_find_and_remove node x =
     (case slist_search (fst x) node 0 (sys_slist_peek_head (snd x)) of
        None \<Rightarrow> None
      | Some (True, prev) \<Rightarrow> Some (True, sys_slist_remove prev node x)
      | Some (False, _) \<Rightarrow> Some (False, x))"

definition sys_slist_find :: "snode \<Rightarrow> sheap \<times> sys_slist \<Rightarrow> bool option" where
  "sys_slist_find node x =
     map_option fst (slist_search (fst x) node 0 (sys_slist_peek_head (snd x)))"

section \<open>Lists of nodes\<close>

fun seg :: "sheap \<Rightarrow> snode \<Rightarrow> snode list \<Rightarrow> snode \<Rightarrow> bool" where
  "seg h p [] q \<longleftrightarrow> p = q"
| "seg h p (x # xs) q \<longleftrightarrow> p = x \<and> x \<noteq> 0 \<and> seg h (h x) xs q"

definition slist_rel :: "sheap \<times> sys_slist \<Rightarrow> snode list \<Rightarrow> bool" where
  "slist_rel x xs \<longleftrightarrow>
     seg (fst x) (head (snd x)) xs 0 \<and> distinct xs \<and>
     tail (snd x) = (if xs = [] then 0 else last xs)"

lemma seg_append: "seg h p (xs @ ys) q \<longleftrightarrow> (\<exists>r. seg h p xs r \<and> seg h r ys q)"
  by (induction xs arbitrary: p) auto

lemma seg_upd [simp]: "x \<notin> set xs \<Longrightarrow> seg (h(x := v)) p xs q = seg h p xs q"
  by (induction xs arbitrary: p) auto

lemma seg_nonzero: "seg h p xs q \<Longrightarrow> x \<in> set xs \<Longrightarrow> x \<noteq> 0"
  by (induction xs arbitrary: p) auto

lemma seg_last_next: "seg h p xs q \<Longrightarrow> xs \<noteq> [] \<Longrightarrow> h (last xs) = q"
  by (induction xs arbitrary: p) (auto split: if_splits)

lemma seg_redirect:
  "seg h p xs q \<Longrightarrow> xs \<noteq> [] \<Longrightarrow> distinct xs \<Longrightarrow> seg (h(last xs := r)) p xs r"
  by (induction xs arbitrary: p) (auto split: if_splits)

lemma seg_empty [simp]: "seg h 0 xs 0 \<longleftrightarrow> xs = []"
  by (cases xs) auto

lemma slist_rel_init: "slist_rel (h, sys_slist_init l) []"
  by (simp add: slist_rel_def sys_slist_init_def)

lemma slist_rel_empty: "slist_rel x xs \<Longrightarrow> sys_slist_is_empty (snd x) \<longleftrightarrow> xs = []"
  by (cases xs) (auto simp: slist_rel_def sys_slist_is_empty_def)

lemma slist_rel_tail: "slist_rel x xs \<Longrightarrow> tail (snd x) = 0 \<longleftrightarrow> xs = []"
  by (auto simp: slist_rel_def dest: seg_nonzero [OF _ last_in_set])

lemma slist_prepend:
  assumes "slist_rel x xs" and "node \<noteq> 0" and "node \<notin> set xs"
  shows "slist_rel (sys_slist_prepend node x) (node # xs)"
  using assms slist_rel_tail [OF assms(1)]
  by (cases x) (auto simp: slist_rel_def sys_slist_prepend_def Let_def)

lemma slist_append_list:
  assumes x: "slist_rel x xs" and ys: "seg (fst x) hd1 ys 0" "ys \<noteq> []" "tl1 = last ys"
    and d: "distinct (xs @ ys)"
  shows "slist_rel (sys_slist_append_list hd1 tl1 x) (xs @ ys)"
proof (cases "xs = []")
  case True
  then show ?thesis
    using assms slist_rel_tail [OF x] by (cases x) (simp add: slist_rel_def sys_slist_append_list_def)
next
  case False
  obtain h l where x': "x = (h, l)"
    by fastforce
  have t: "tail l = last xs" "tail l \<noteq> 0"
    using x slist_rel_tail [OF x] False by (auto simp: slist_rel_def x')
  have "last xs \<notin> set ys"
    using d False by (auto dest: last_in_set)
  then have "seg (h(last xs := hd1)) hd1 ys 0"
    using ys by (simp add: x')
  moreover have "seg (h(last xs := hd1)) (head l) xs hd1"
    using x False by (intro seg_redirect) (auto simp: slist_rel_def x')
  ultimately show ?thesis
    using t ys d False by (auto simp: slist_rel_def sys_slist_append_list_def x' seg_append)
qed

lemma slist_append:
  assumes "slist_rel x xs" and "node \<noteq> 0" and "node \<notin> set xs"
  shows "slist_rel (sys_slist_append node x) (xs @ [node])"
proof -
  obtain h l where x: "x = (h, l)"
    by fastforce
  have "slist_rel (h(node := 0), l) xs"
    using assms by (simp add: slist_rel_def x)
  then have "slist_rel (sys_slist_append_list node node (h(node := 0), l)) (xs @ [node])"
    using assms by (intro slist_append_list) (auto simp: slist_rel_def x)
  moreover have "sys_slist_append node x = sys_slist_append_list node node (h(node := 0), l)"
    by (simp add: sys_slist_append_def sys_slist_append_list_def x Let_def)
  ultimately show ?thesis
    by simp
qed

lemma slist_insert_after:
  assumes rel: "slist_rel x (xs @ prev # ys)" and n: "node \<noteq> 0" "node \<notin> set (xs @ prev # ys)"
  shows "slist_rel (sys_slist_insert prev node x) (xs @ prev # node # ys)"
proof -
  obtain h l where x: "x = (h, l)"
    by fastforce
  have s: "seg h (head l) xs prev" "prev \<noteq> 0" "seg h (h prev) ys 0" "distinct (xs @ prev # ys)"
    using rel by (auto simp: slist_rel_def x seg_append)
  show ?thesis
  proof (cases "h prev = 0")
    case True
    then have "ys = []"
      using s(3) by simp
    then show ?thesis
      using slist_append [OF rel n] True s(2) by (simp add: sys_slist_insert_def x)
  next
    case False
    then have "ys \<noteq> []"
      using s(3) by (cases ys) auto
    then show ?thesis
      using False s n rel by (auto simp: sys_slist_insert_def x slist_rel_def seg_append Let_def)
  qed
qed

lemma slist_insert_front:
  assumes "slist_rel x xs" and "node \<noteq> 0" and "node \<notin> set xs"
  shows "slist_rel (sys_slist_insert 0 node x) (node # xs)"
  using slist_prepend [OF assms] by (cases x) (simp add: sys_slist_insert_def)

lemma slist_get:
  assumes "slist_rel x (node # xs)" and "sys_slist_get x = (n, x')"
  shows "n = node \<and> slist_rel x' xs \<and> fst x' = fst x"
proof -
  have "last xs \<noteq> node" if "xs \<noteq> []"
    using assms(1) last_in_set [OF that] unfolding slist_rel_def by (metis distinct.simps(2))
  then show ?thesis
    using assms by (cases x) (auto simp: slist_rel_def sys_slist_get_def sys_slist_is_empty_def
      sys_slist_get_not_empty_def Let_def)
qed

lemma slist_search_found:
  assumes "seg h p (xs @ node # ys) 0" and "node \<notin> set xs"
  shows "slist_search h node prev p = Some (True, if xs = [] then prev else last xs)"
  using assms
proof (induction xs arbitrary: p prev)
  case Nil
  then show ?case
    by (subst slist_search.simps) simp
next
  case (Cons y xs)
  then show ?case
    by (subst slist_search.simps) (auto simp: sys_slist_peek_next_def sys_slist_peek_next_no_check_def)
qed

lemma slist_search_absent:
  assumes "seg h p xs 0" and "node \<notin> set xs"
  shows "slist_search h node prev p = Some (False, if xs = [] then prev else last xs)"
  using assms
proof (induction xs arbitrary: p prev)
  case Nil
  then show ?case
    by (subst slist_search.simps) simp
next
  case (Cons y xs)
  then show ?case
    by (subst slist_search.simps) (auto simp: sys_slist_peek_next_def sys_slist_peek_next_no_check_def)
qed

lemma slist_remove:
  assumes rel: "slist_rel x (xs @ node # ys)" and prev: "prev = (if xs = [] then 0 else last xs)"
  shows "slist_rel (sys_slist_remove prev node x) (xs @ ys)"
proof -
  obtain h l where x: "x = (h, l)"
    by fastforce
  have s: "seg h (head l) xs node" "node \<noteq> 0" "seg h (h node) ys 0" "distinct (xs @ node # ys)"
    using rel by (auto simp: slist_rel_def x seg_append)
  have l: "last ys \<noteq> node" if "ys \<noteq> []"
    using s(4) last_in_set [OF that] by auto
  show ?thesis
  proof (cases "xs = []")
    case True
    then show ?thesis
      using rel s prev l by (auto simp: sys_slist_remove_def x slist_rel_def Let_def)
  next
    case False
    have "last xs \<in> set xs" "last xs \<noteq> 0"
      using False seg_nonzero [OF s(1)] last_in_set by blast+
    then have p: "prev = last xs" "prev \<noteq> 0" "prev \<noteq> node" "prev \<notin> set ys"
      using False prev s(4) by (simp_all, metis, metis IntI empty_iff)
    have "seg (h(last xs := h node)) (head l) xs (h node)"
      using s False by (intro seg_redirect) auto
    then show ?thesis
      using rel s p False
      by (auto simp: sys_slist_remove_def x slist_rel_def Let_def seg_append last_append)
  qed
qed

section \<open>The list as a first-in first-out buffer\<close>

lemma seg_unique: "seg h p xs 0 \<Longrightarrow> seg h p ys 0 \<Longrightarrow> xs = ys"
proof (induction xs arbitrary: p ys)
  case (Cons x xs)
  then show ?case
    by (cases ys) auto
qed simp

definition slist_abs :: "sheap \<times> sys_slist \<Rightarrow> snode list" where
  "slist_abs x = (THE xs. slist_rel x xs)"

lemma slist_abs_eq: "slist_rel x xs \<Longrightarrow> slist_abs x = xs"
  unfolding slist_abs_def by (rule the_equality) (auto simp: slist_rel_def intro: seg_unique)

definition slist_inv :: "sheap \<times> sys_slist \<Rightarrow> bool" where
  "slist_inv x \<longleftrightarrow> (\<exists>xs. slist_rel x xs)"

fun slist_ok :: "snode fifo_op \<Rightarrow> sheap \<times> sys_slist \<Rightarrow> bool" where
  "slist_ok (Put ns) x \<longleftrightarrow> (\<exists>n. ns = [n] \<and> n \<noteq> 0 \<and> n \<notin> set (slist_abs x))"
| "slist_ok (Get k) x \<longleftrightarrow> k = 1"

definition slist_put :: "snode list \<Rightarrow> sheap \<times> sys_slist \<Rightarrow> sheap \<times> sys_slist" where
  "slist_put ns x = sys_slist_append (hd ns) x"

definition slist_take :: "nat \<Rightarrow> sheap \<times> sys_slist \<Rightarrow> snode list \<times> sheap \<times> sys_slist" where
  "slist_take k x = (case sys_slist_get x of (n, x') \<Rightarrow> (if n = 0 then [] else [n], x'))"

lemma slist_take:
  assumes "slist_rel x xs"
  shows "fst (slist_take k x) = take 1 xs" "slist_rel (snd (slist_take k x)) (drop 1 xs)"
proof -
  have "fst (slist_take k x) = take 1 xs \<and> slist_rel (snd (slist_take k x)) (drop 1 xs)"
  proof (cases xs)
    case Nil
    then show ?thesis
      using assms slist_rel_empty [OF assms] by (simp add: slist_take_def sys_slist_get_def)
  next
    case (Cons n ns)
    then have "n \<noteq> 0"
      using assms seg_nonzero by (fastforce simp: slist_rel_def)
    then show ?thesis
      using slist_get [of x n ns] assms Cons by (auto simp: slist_take_def split: prod.split)
  qed
  then show "fst (slist_take k x) = take 1 xs" "slist_rel (snd (slist_take k x)) (drop 1 xs)"
    by auto
qed

interpretation slist: fifo slist_inv slist_abs slist_ok slist_put slist_take
proof (unfold_locales, goal_cases)
  case (1 x ns)
  then show ?case
    using slist_append by (fastforce simp: slist_inv_def slist_put_def slist_abs_eq)
next
  case (2 x ns)
  then show ?case
    using slist_append by (fastforce simp: slist_inv_def slist_put_def slist_abs_eq)
next
  case (3 x n)
  then show ?case
    using slist_take(2) by (fastforce simp: slist_inv_def)
next
  case (4 x n)
  then show ?case
    unfolding slist_inv_def by (metis append_take_drop_id slist_abs_eq slist_take)
qed

section \<open>Properties\<close>

text \<open>
  C16: The pointer operations implement operations on sequences. On a list that links the
  nodes \<open>xs\<close> in order, append, prepend, insert after a node and find-and-remove produce
  the lists that link \<open>xs @ [node]\<close>, \<open>node # xs\<close>, the sequence with the node after its
  predecessor, and the sequence without the node; the search ends on every such list and
  finds exactly the linked nodes.
\<close>

theorem slist_refines_sequences:
  assumes "slist_rel x xs" and "node \<noteq> 0"
  shows "(node \<notin> set xs \<longrightarrow> slist_rel (sys_slist_append node x) (xs @ [node])) \<and>
    (node \<notin> set xs \<longrightarrow> slist_rel (sys_slist_prepend node x) (node # xs)) \<and>
    (\<forall>ys prev zs. node \<notin> set xs \<longrightarrow> xs = ys @ prev # zs \<longrightarrow>
       slist_rel (sys_slist_insert prev node x) (ys @ prev # node # zs)) \<and>
    sys_slist_find node x = Some (node \<in> set xs) \<and>
    (\<exists>x'. sys_slist_find_and_remove node x = Some (node \<in> set xs, x') \<and> slist_rel x' (remove1 node xs))"
proof -
  have sg: "seg (fst x) (head (snd x)) xs 0"
    using assms(1) by (simp add: slist_rel_def)
  have "sys_slist_find node x = Some (node \<in> set xs) \<and>
    (\<exists>x'. sys_slist_find_and_remove node x = Some (node \<in> set xs, x') \<and> slist_rel x' (remove1 node xs))"
  proof (cases "node \<in> set xs")
    case True
    then obtain ys zs where xs: "xs = ys @ node # zs" and n: "node \<notin> set ys"
      by (meson split_list_first)
    note f = slist_search_found [of "fst x" "head (snd x)" ys node zs 0]
    show ?thesis
      using f sg xs n slist_remove [of x ys node zs] assms(1)
      by (simp add: sys_slist_find_def sys_slist_find_and_remove_def sys_slist_peek_head_def remove1_append)
  next
    case False
    show ?thesis
      using slist_search_absent [OF sg False, of 0] False assms(1)
      by (simp add: sys_slist_find_def sys_slist_find_and_remove_def sys_slist_peek_head_def remove1_idem)
  qed
  then show ?thesis
    using slist_append [OF assms] slist_prepend [OF assms] slist_insert_after [of x _ _ _ node] assms by auto
qed

definition slist12 :: "sheap \<times> sys_slist" where
  "slist12 = ((\<lambda>_. 0)(8 := 16), \<lparr>head = 8, tail = 16\<rparr>)"

lemma slist12: "slist_rel slist12 [8, 16]"
  by (simp add: slist12_def slist_rel_def)

theorem slist_refines_sequences_witness:
  "slist_rel (sys_slist_append 24 slist12) [8, 16, 24] \<and> sys_slist_find 16 slist12 = Some True"
  using slist_refines_sequences [OF slist12, of 24] slist_refines_sequences [OF slist12, of 16] by simp

text \<open>
  A linked list used as a queue neither loses, duplicates nor reorders nodes: for any
  sequence of appends of fresh nodes and gets, the nodes got followed by the nodes left are
  the nodes that were linked followed by the nodes appended.
\<close>

lemma slist_fifo:
  assumes "slist_rel x xs" and "run_fifo slist_ok slist_put slist_take ops x = Some (out, x')"
  shows "\<exists>ys. slist_rel x' ys \<and> xs @ fifo_input ops = out @ ys"
  using slist.conservation [of x ops out x'] assms slist_abs_eq by (fastforce simp: slist_inv_def)

end
