(* ===== verification/Queue.thy ===== *)
theory Queue
  imports Waitable Slist
begin

text \<open>
  Queues of linked data items: kernel/queue.c (without CONFIG_POLL). The first word of an
  item is its link, so the items are nodes of a singly-linked list of theory Slist.
  \<open>k_queue_get\<close> stops at \<open>_Swap\<close>; \<open>k_queue_get_resume\<close> is what it returns when its
  thread runs again.
\<close>

record k_queue =
  data_q :: sys_slist
  queue_wait_q :: wqid

type_synonym queue_state = "kernel \<times> sheap \<times> k_queue"

section \<open>Operations\<close>

definition k_queue_init :: "queue_state \<Rightarrow> queue_state" where
  "k_queue_init x =
     (case x of (s, h, q) \<Rightarrow>
        (s\<lparr>wait_qs := (wait_qs s)(queue_wait_q q := [])\<rparr>, h, q\<lparr>data_q := sys_slist_init (data_q q)\<rparr>))"

definition prepare_thread_to_run :: "tid \<Rightarrow> u32 \<Rightarrow> kernel \<Rightarrow> kernel" where
  "prepare_thread_to_run t data s =
     (let s = fst (abort_thread_timeout t s);
          s = ready_thread t s
      in set_thread_return_value_with_data t 0 data s)"

definition k_queue_cancel_wait :: "queue_state \<Rightarrow> queue_state" where
  "k_queue_cancel_wait x =
     (case x of (s, h, q) \<Rightarrow>
        case unpend_first_thread (queue_wait_q q) s of
          (s, Some t) \<Rightarrow>
            let s = prepare_thread_to_run t 0 s
            in (if \<not> is_in_isr s \<and> must_switch_threads s then Swap s else s, h, q)
        | (s, None) \<Rightarrow> (s, h, q))"

definition k_queue_insert :: "snode \<Rightarrow> snode \<Rightarrow> queue_state \<Rightarrow> queue_state" where
  "k_queue_insert prev data x =
     (case x of (s, h, q) \<Rightarrow>
        case unpend_first_thread (queue_wait_q q) s of
          (s, Some t) \<Rightarrow>
            let s = prepare_thread_to_run t data s
            in (if \<not> is_in_isr s \<and> must_switch_threads s then Swap s else s, h, q)
        | (s, None) \<Rightarrow>
            case sys_slist_insert prev data (h, data_q q) of (h, l) \<Rightarrow> (s, h, q\<lparr>data_q := l\<rparr>))"

definition k_queue_append :: "snode \<Rightarrow> queue_state \<Rightarrow> queue_state" where
  "k_queue_append data x = k_queue_insert (tail (data_q (snd (snd x)))) data x"

partial_function (option) cnt_loop :: "sheap \<Rightarrow> snode \<Rightarrow> snode \<Rightarrow> int \<Rightarrow> int option" where
  "cnt_loop h tl1 tmp cnt = (if tmp = tl1 then Some cnt else cnt_loop h tl1 (h tmp) (cnt + 1))"

definition k_queue_cnt_sum :: "queue_state \<Rightarrow> int option" where
  "k_queue_cnt_sum x =
     (case x of (s, h, q) \<Rightarrow> cnt_loop h (tail (data_q q)) (head (data_q q)) 0)"

definition k_queue_prepend :: "snode \<Rightarrow> queue_state \<Rightarrow> queue_state" where
  "k_queue_prepend data x = k_queue_insert 0 data x"

lemma find_first_member:
  "find_first_thread_to_unpend w None s = Some t \<Longrightarrow> t \<in> set (wait_qs s w)"
  by (auto simp: find_first_thread_to_unpend_def find_Some_iff split: if_splits list.splits)

lemma serve_shrinks:
  assumes "unpend_first_thread w s = (s', Some t)"
  shows "length (wait_qs (prepare_thread_to_run t d s') w) < length (wait_qs s w)"
proof -
  have t: "t \<in> set (wait_qs s w)" and s': "s' = unpend_thread t s"
    using assms by (auto simp: unpend_first_thread_def find_first_member split: option.splits)
  then have "wait_qs (prepare_thread_to_run t d s') w = remove1 t (wait_qs s w)"
    by (simp add: prepare_thread_to_run_def unpend_thread_def abort_thread_timeout_def Let_def)
  then show ?thesis
    using t length_pos_if_in_set [OF t] by (simp add: length_remove1)
qed

text \<open>The loop of \<open>k_queue_append_list\<close>: hand the items over to waiters while there are both.\<close>

function serve_list :: "wqid \<Rightarrow> sheap \<Rightarrow> snode \<Rightarrow> kernel \<Rightarrow> kernel \<times> snode" where
  "serve_list w h hd1 s =
     (if hd1 = 0 then (s, hd1)
      else case unpend_first_thread w s of
             (s', None) \<Rightarrow> (s', hd1)
           | (s', Some t) \<Rightarrow> serve_list w h (h hd1) (prepare_thread_to_run t hd1 s'))"
  by pat_completeness auto
termination
  by (relation "measure (\<lambda>(w, h, p, s). length (wait_qs s w))") (auto dest!: serve_shrinks [OF sym])

declare serve_list.simps [simp del]

definition k_queue_append_list :: "snode \<Rightarrow> snode \<Rightarrow> queue_state \<Rightarrow> queue_state" where
  "k_queue_append_list hd1 tl1 x =
     (case x of (s, h, q) \<Rightarrow>
        let s = kassert (hd1 \<noteq> 0 \<and> tl1 \<noteq> 0) s;
            first_thread = peek_first_pending_thread (queue_wait_q q) s;
            (s, hd1) = serve_list (queue_wait_q q) h hd1 s;
            (h, q) = (if hd1 \<noteq> 0 then
                        case sys_slist_append_list hd1 tl1 (h, data_q q) of (h, l) \<Rightarrow> (h, q\<lparr>data_q := l\<rparr>)
                      else (h, q))
        in (if first_thread \<noteq> None \<and> \<not> is_in_isr s \<and> must_switch_threads s then Swap s else s, h, q))"

definition k_queue_merge_slist :: "sys_slist \<Rightarrow> queue_state \<Rightarrow> queue_state \<times> sys_slist" where
  "k_queue_merge_slist l x =
     (case x of (s, h, q) \<Rightarrow>
        let s = kassert (\<not> sys_slist_is_empty l) s
        in (k_queue_append_list (head l) (tail l) (s, h, q), sys_slist_init l))"

definition k_queue_get ::
    "(fn_ptr \<Rightarrow> toid \<Rightarrow> kernel \<Rightarrow> kernel) \<Rightarrow> int \<Rightarrow> queue_state \<Rightarrow> queue_state \<times> u32 outcome" where
  "k_queue_get call timeout x =
     (case x of (s, h, q) \<Rightarrow>
        if \<not> sys_slist_is_empty (data_q q) then
          case sys_slist_get_not_empty (h, data_q q) of
            (data, h, l) \<Rightarrow> ((s, h, q\<lparr>data_q := l\<rparr>), Returned data)
        else if timeout = K_NO_WAIT then ((s, h, q), Returned 0)
        else
          let s = pend_current_thread call (queue_wait_q q) timeout s
          in ((Swap s, h, q), Switched_out))"

definition k_queue_get_resume :: "tid \<Rightarrow> kernel \<Rightarrow> u32" where
  "k_queue_get_resume t s =
     (if return_value (threads s t) \<noteq> 0 then 0 else swap_data (threads s t))"

section \<open>The queue as a waitable object\<close>

definition queue_items :: "queue_state \<Rightarrow> snode list" where
  "queue_items x = slist_abs (fst (snd x), data_q (snd (snd x)))"

definition queue_inv :: "queue_state \<Rightarrow> bool" where
  "queue_inv x \<longleftrightarrow> kinv {} (fst x) \<and> \<not> handling_timeouts (fst x) \<and>
     slist_rel (fst (snd x), data_q (snd (snd x))) (queue_items x)"

definition queue_avail :: "queue_state \<Rightarrow> nat" where
  "queue_avail x = length (queue_items x)"

definition queue_waiting :: "queue_state \<Rightarrow> tid list" where
  "queue_waiting x = wait_qs (fst x) (queue_wait_q (snd (snd x)))"

fun queue_ok :: "snode object_op \<Rightarrow> queue_state \<Rightarrow> bool" where
  "queue_ok (Give data) x \<longleftrightarrow> data \<noteq> 0 \<and> data \<notin> set (queue_items x)"
| "queue_ok (Take timeout) x = take_ok timeout (fst x)"
| "queue_ok (Env f) x = env_ok f (queue_wait_q (snd (snd x))) (fst x)"

fun queue_step ::
    "(fn_ptr \<Rightarrow> toid \<Rightarrow> kernel \<Rightarrow> kernel) \<Rightarrow> snode object_op \<Rightarrow> queue_state \<Rightarrow> queue_state" where
  "queue_step call (Give data) x = k_queue_append data x"
| "queue_step call (Take timeout) x = fst (k_queue_get call timeout x)"
| "queue_step call (Env f) x = (f (fst x), snd x)"

lemma queue_insert_waiter:
  assumes "find_first_thread_to_unpend (queue_wait_q q) None s = Some t"
  shows "k_queue_insert prev data (s, h, q) =
    (let s' = set_thread_return_value_with_data t 0 data (wake t s)
     in if \<not> is_in_isr s' \<and> must_switch_threads s' then Swap s' else s', h, q)"
  using assms by (simp add: k_queue_insert_def unpend_first_thread_def wake_def prepare_thread_to_run_def Let_def)

lemma queue_insert_none:
  assumes "find_first_thread_to_unpend (queue_wait_q q) None s = None"
  shows "k_queue_insert prev data (s, h, q) =
    (s, fst (sys_slist_insert prev data (h, data_q q)),
        q\<lparr>data_q := snd (sys_slist_insert prev data (h, data_q q))\<rparr>)"
  using assms by (simp add: k_queue_insert_def unpend_first_thread_def split_beta)

lemma slist_insert_tail:
  assumes "slist_rel (h, l) xs" and "node \<noteq> 0" and "node \<notin> set xs"
  shows "slist_rel (sys_slist_insert (tail l) node (h, l)) (xs @ [node])"
proof (cases xs rule: rev_cases)
  case Nil
  then show ?thesis
    using slist_insert_front [OF assms] assms(1) by (simp add: slist_rel_def)
next
  case (snoc ys y)
  then have "tail l = y"
    using assms(1) by (simp add: slist_rel_def)
  then show ?thesis
    using slist_insert_after [of "(h, l)" ys y "[]" node] assms snoc by simp
qed

lemma queue_invD:
  assumes "queue_inv (s, h, q)"
  shows "kinv {} s" "\<not> handling_timeouts s" "slist_rel (h, data_q q) (queue_items (s, h, q))"
  using assms by (simp_all add: queue_inv_def)

lemma queue_invI:
  assumes "kinv {} s" "\<not> handling_timeouts s" "slist_rel (h, data_q q) xs"
  shows "queue_inv (s, h, q)" "queue_items (s, h, q) = xs"
  using assms slist_abs_eq by (simp_all add: queue_inv_def queue_items_def)

lemma queue_append_facts:
  assumes inv: "queue_inv (s, h, q)" and d: "data \<noteq> 0" "data \<notin> set (queue_items (s, h, q))"
  shows "queue_inv (k_queue_append data (s, h, q)) \<and>
    queue_waiting (k_queue_append data (s, h, q)) = tl (wait_qs s (queue_wait_q q)) \<and>
    queue_items (k_queue_append data (s, h, q)) =
      (if wait_qs s (queue_wait_q q) = [] then queue_items (s, h, q) @ [data] else queue_items (s, h, q))"
proof -
  note i = queue_invD [OF inv]
  let ?w = "queue_wait_q q"
  show ?thesis
  proof (cases "wait_qs s ?w")
    case Nil
    then have f: "find_first_thread_to_unpend ?w None s = None"
      using i(2) by simp
    have "slist_rel (sys_slist_insert (tail (data_q q)) data (h, data_q q)) (queue_items (s, h, q) @ [data])"
      using slist_insert_tail [OF i(3) d] .
    then show ?thesis
      using queue_invI [OF i(1,2)] Nil
      by (simp add: k_queue_append_def queue_insert_none [OF f] queue_waiting_def)
  next
    case (Cons t ts)
    then have f: "find_first_thread_to_unpend ?w None s = Some t"
      using i(2) by simp
    note k = kinv_wake [OF i(1) f] wake_sel [OF i(1) find_first_Some(1) [OF i(1) f]]
    define s' where "s' = fst (k_queue_append data (s, h, q))"
    have eq: "k_queue_append data (s, h, q) = (s', h, q)"
      by (simp add: s'_def k_queue_append_def queue_insert_waiter [OF f])
    have "kinv {} s'" "\<not> handling_timeouts s'" and w: "wait_qs s' ?w = ts"
      using k i(2) Cons by (simp_all add: s'_def k_queue_append_def queue_insert_waiter [OF f] Let_def)
    then show ?thesis
      using queue_invI [OF _ _ i(3), of s'] Cons by (simp add: eq queue_waiting_def)
  qed
qed

lemma queue_get_facts:
  assumes inv: "queue_inv (s, h, q)" and ok: "take_ok timeout s"
  shows "queue_inv (fst (k_queue_get call timeout (s, h, q))) \<and>
    queue_items (fst (k_queue_get call timeout (s, h, q))) = tl (queue_items (s, h, q)) \<and>
    queue_wait_q (snd (snd (fst (k_queue_get call timeout (s, h, q))))) = queue_wait_q q \<and>
    (queue_items (s, h, q) \<noteq> [] \<longrightarrow> fst (fst (k_queue_get call timeout (s, h, q))) = s \<and>
       snd (k_queue_get call timeout (s, h, q)) = Returned (hd (queue_items (s, h, q))))"
proof (cases "queue_items (s, h, q)")
  note i = queue_invD [OF inv]
  case Nil
  then have e: "sys_slist_is_empty (data_q q)"
    using slist_rel_empty [OF i(3)] by simp
  show ?thesis
  proof (cases "timeout = K_NO_WAIT")
    case True
    then show ?thesis
      using inv e Nil by (simp add: k_queue_get_def)
  next
    case False
    then have "kinv {} (Swap (pend_current_thread call (queue_wait_q q) timeout s))"
      "\<not> handling_timeouts (Swap (pend_current_thread call (queue_wait_q q) timeout s))"
      using ok i kinv_pend_current(1) [of s timeout call "queue_wait_q q"]
      by (auto simp: take_ok_def pend_current_sel)
    then show ?thesis
      using queue_invI [OF _ _ i(3)] e False Nil by (simp add: k_queue_get_def Let_def)
  qed
next
  note i = queue_invD [OF inv]
  case (Cons d ds)
  then have e: "\<not> sys_slist_is_empty (data_q q)"
    using slist_rel_empty [OF i(3)] by simp
  obtain n x' where g: "sys_slist_get_not_empty (h, data_q q) = (n, x')"
    by (cases "sys_slist_get_not_empty (h, data_q q)")
  then have "n = d" "slist_rel x' ds"
    using slist_get [of "(h, data_q q)" d ds n x'] i(3) e Cons by (auto simp: sys_slist_get_def)
  then show ?thesis
    using queue_invI [OF i(1,2)] e g Cons by (cases x') (simp add: k_queue_get_def)
qed

interpretation queue: waitable queue_inv queue_avail queue_waiting queue_ok "queue_step call" for call
proof (unfold_locales, goal_cases)
  case (1 x o1)
  obtain s h q where x: "x = (s, h, q)"
    by (cases x)
  show ?case
  proof (cases o1)
    case (Give d)
    then show ?thesis
      using 1 queue_append_facts [of s h q d] by (simp add: x)
  next
    case (Take k)
    then show ?thesis
      using 1 queue_get_facts [of s h q k call] by (simp add: x)
  next
    case (Env f)
    then show ?thesis
      using 1 by (simp add: x queue_inv_def queue_items_def env_ok_def)
  qed
next
  case (2 x a t ts)
  then show ?case
    using queue_append_facts [of "fst x" "fst (snd x)" "snd (snd x)" a]
    by (simp add: queue_waiting_def queue_avail_def)
next
  case (3 x a)
  then show ?case
    using queue_append_facts [of "fst x" "fst (snd x)" "snd (snd x)" a] by (simp add: queue_waiting_def)
next
  case (4 x k)
  then show ?case
    using queue_get_facts [of "fst x" "fst (snd x)" "snd (snd x)" k call]
    by (simp add: queue_waiting_def queue_avail_def)
next
  case (5 x k)
  then show ?case
    using queue_get_facts [of "fst x" "fst (snd x)" "snd (snd x)" k call] by (simp add: queue_avail_def)
next
  case (6 x f)
  then show ?case
    by (simp add: queue_avail_def queue_waiting_def queue_items_def env_ok_def)
qed

section \<open>Properties\<close>

text \<open>
  An item appended while threads wait goes to the first of them: the thread leaves the
  wait queue, its pending \<open>k_queue_get\<close> returns the item, and the list of items does not
  change. Prepending and inserting behave the same.
\<close>

theorem k_queue_insert_serves_first_waiter:
  assumes "kinv {} s" and "\<not> handling_timeouts s" and "wait_qs s (queue_wait_q q) = t # ts"
    and "is_thread_ready (current s) s" and "k_queue_insert prev data (s, h, q) = (s', h', q')"
  shows "served t (queue_wait_q q) s s' \<and> h' = h \<and> q' = q \<and> k_queue_get_resume t s' = data"
proof -
  have f: "find_first_thread_to_unpend (queue_wait_q q) None s = Some t"
    and tw: "t \<in> set (wait_qs s (queue_wait_q q))"
    using assms(2,3) by simp_all
  show ?thesis
    using waiter_not_current [OF assms(1,4) tw] wake_sel [OF assms(1) tw] served_wake [OF assms(1) f] assms(5)
    by (auto simp: queue_insert_waiter [OF f] Let_def k_queue_get_resume_def split: if_splits)
qed

definition queue5 :: k_queue where
  "queue5 = \<lparr>data_q = \<lparr>head = 0, tail = 0\<rparr>, queue_wait_q = 5\<rparr>"

theorem k_queue_insert_serves_first_waiter_witness:
  "k_queue_get_resume 1 (fst (k_queue_insert 0 64 (boot_waiting 5, (\<lambda>_. 0), queue5))) = 64"
  using k_queue_insert_serves_first_waiter [of "boot_waiting 5" queue5 1 "[]" 0 64 "\<lambda>_. 0"
      "fst (k_queue_insert 0 64 (boot_waiting 5, (\<lambda>_. 0), queue5))"
      "fst (snd (k_queue_insert 0 64 (boot_waiting 5, (\<lambda>_. 0), queue5)))"
      "snd (snd (k_queue_insert 0 64 (boot_waiting 5, (\<lambda>_. 0), queue5)))"]
  by (simp add: queue5_def)


lemma queue5_inv: "queue_inv (boot, (\<lambda>_. 0), queue5)" "queue_items (boot, (\<lambda>_. 0), queue5) = []"
  using queue_invI [OF kinv_boot, of "\<lambda>_. 0" queue5 "[]"] by (simp_all add: queue5_def slist_rel_def)


text \<open>
  \<open>k_queue_cnt_sum\<close> ends on every well-formed queue and returns one less than the
  number of items: it stops at the last item without counting it, so a queue of one item
  and an empty queue both give 0.
\<close>

theorem k_queue_cnt_sum_value:
  assumes "queue_inv (s, h, q)" and "queue_items (s, h, q) = xs"
  shows "k_queue_cnt_sum (s, h, q) = Some (if xs = [] then 0 else int (length xs) - 1)"
proof -
  have loop: "cnt_loop h (last ys) p n = Some (n + int (length ys) - 1)"
    if "seg h p ys 0" "ys \<noteq> []" "distinct ys" for ys p n
    using that
  proof (induction ys arbitrary: p n)
    case (Cons y ys)
    then show ?case
      using last_in_set [of ys] by (subst cnt_loop.simps) (auto split: if_splits)
  qed simp
  have rel: "slist_rel (h, data_q q) xs"
    using queue_invD(3) [OF assms(1)] assms(2) by simp
  show ?thesis
  proof (cases "xs = []")
    case True
    then show ?thesis
      using rel by (simp add: k_queue_cnt_sum_def slist_rel_def cnt_loop.simps)
  next
    case False
    then show ?thesis
      using loop [of "head (data_q q)" xs 0] rel by (simp add: k_queue_cnt_sum_def slist_rel_def)
  qed
qed

theorem k_queue_cnt_sum_value_witness:
  "k_queue_cnt_sum (k_queue_append 64 (boot, (\<lambda>_. 0), queue5)) = Some 0"
  using k_queue_cnt_sum_value [of "fst (k_queue_append 64 (boot, (\<lambda>_. 0), queue5))"
      "fst (snd (k_queue_append 64 (boot, (\<lambda>_. 0), queue5)))"
      "snd (snd (k_queue_append 64 (boot, (\<lambda>_. 0), queue5)))" "[64]"]
    queue_append_facts [of boot "\<lambda>_. 0" queue5 64] queue5_inv by simp

end
