(* ===== verification/Slab.thy ===== *)
theory Slab
  imports Waitable Slist
begin

text \<open>
  Memory slabs: kernel/mem_slab.c. A free block's first word links it to the next free
  block; \<open>mem\<close> gives the word stored at an address. \<open>k_mem_slab_alloc\<close> stops at
  \<open>_Swap\<close>; \<open>k_mem_slab_alloc_resume\<close> is the rest of it.
\<close>

record k_mem_slab =
  slab_wait_q :: wqid
  num_blocks :: u32
  block_size :: u32
  buffer :: u32
  free_list :: u32
  num_used :: u32

type_synonym slab_state = "kernel \<times> sheap \<times> k_mem_slab"

section \<open>Operations\<close>

fun create_free_list_loop :: "nat \<Rightarrow> u32 \<Rightarrow> sheap \<times> k_mem_slab \<Rightarrow> sheap \<times> k_mem_slab" where
  "create_free_list_loop 0 p x = x"
| "create_free_list_loop (Suc j) p (mem, slab) =
     create_free_list_loop j (p + block_size slab) (mem(p := free_list slab), slab\<lparr>free_list := p\<rparr>)"

definition create_free_list :: "sheap \<times> k_mem_slab \<Rightarrow> sheap \<times> k_mem_slab" where
  "create_free_list x =
     (case x of (mem, slab) \<Rightarrow>
        create_free_list_loop (unat (num_blocks slab)) (buffer slab) (mem, slab\<lparr>free_list := 0\<rparr>))"

definition k_mem_slab_init :: "u32 \<Rightarrow> u32 \<Rightarrow> u32 \<Rightarrow> slab_state \<Rightarrow> slab_state" where
  "k_mem_slab_init buf bsize nblocks x =
     (case x of (s, mem, slab) \<Rightarrow>
        let slab = slab\<lparr>num_blocks := nblocks, block_size := bsize, buffer := buf, num_used := 0\<rparr>;
            (mem, slab) = create_free_list (mem, slab);
            s = s\<lparr>wait_qs := (wait_qs s)(slab_wait_q slab := [])\<rparr>
        in (s, mem, slab))"

definition k_mem_slab_alloc ::
    "(fn_ptr \<Rightarrow> toid \<Rightarrow> kernel \<Rightarrow> kernel) \<Rightarrow> int \<Rightarrow> slab_state \<Rightarrow> slab_state \<times> (int \<times> u32) outcome" where
  "k_mem_slab_alloc call timeout x =
     (case x of (s, mem, slab) \<Rightarrow>
        if free_list slab \<noteq> 0 then
          ((s, mem, slab\<lparr>free_list := mem (free_list slab), num_used := num_used slab + 1\<rparr>),
           Returned (0, free_list slab))
        else if timeout = K_NO_WAIT then ((s, mem, slab), Returned (- ENOMEM, 0))
        else
          let s = pend_current_thread call (slab_wait_q slab) timeout s
          in ((Swap s, mem, slab), Switched_out))"

definition k_mem_slab_alloc_resume :: "tid \<Rightarrow> kernel \<Rightarrow> int \<times> u32 option" where
  "k_mem_slab_alloc_resume t s =
     (let result = return_value (threads s t)
      in (result, if result = 0 then Some (swap_data (threads s t)) else None))"

definition k_mem_slab_free :: "u32 \<Rightarrow> slab_state \<Rightarrow> slab_state" where
  "k_mem_slab_free block x =
     (case x of (s, mem, slab) \<Rightarrow>
        case unpend_first_thread (slab_wait_q slab) s of
          (s, Some t) \<Rightarrow>
            let s = set_thread_return_value_with_data t 0 block s;
                s = fst (abort_thread_timeout t s);
                s = ready_thread t s
            in (if must_switch_threads s then Swap s else s, mem, slab)
        | (s, None) \<Rightarrow>
            let mem = mem(block := free_list slab)
            in (s, mem, slab\<lparr>free_list := block, num_used := num_used slab - 1\<rparr>))"

definition k_mem_slab_num_used_get :: "k_mem_slab \<Rightarrow> u32" where
  "k_mem_slab_num_used_get slab = num_used slab"

definition k_mem_slab_num_free_get :: "k_mem_slab \<Rightarrow> u32" where
  "k_mem_slab_num_free_get slab = num_blocks slab - num_used slab"

section \<open>Blocks and the free list\<close>

definition blocks :: "k_mem_slab \<Rightarrow> u32 list" where
  "blocks slab = map (\<lambda>i. buffer slab + of_nat i * block_size slab) [0..<unat (num_blocks slab)]"

definition slab_geom :: "k_mem_slab \<Rightarrow> bool" where
  "slab_geom slab \<longleftrightarrow> 0 < unat (buffer slab) \<and> 0 < unat (block_size slab) \<and>
     unat (buffer slab) + unat (num_blocks slab) * unat (block_size slab) \<le> 2 ^ 32"

lemma block_address:
  assumes "slab_geom slab" and "i < unat (num_blocks slab)"
  shows "unat (buffer slab + of_nat i * block_size slab) = unat (buffer slab) + i * unat (block_size slab)"
proof -
  have "Suc i * unat (block_size slab) \<le> unat (num_blocks slab) * unat (block_size slab)"
    using assms(2) by (intro mult_le_mono1) simp
  then have lt: "unat (buffer slab) + i * unat (block_size slab) < 2 ^ 32"
    using assms(1) by (simp add: slab_geom_def)
  moreover have "i < 2 ^ 32"
    using assms(2) unsigned_less [of "num_blocks slab", where 'a = nat] by simp
  ultimately show ?thesis
    by (simp add: unat_word_ariths unat_of_nat take_bit_nat_eq_self mod_simps)
qed

lemma blocks_distinct:
  assumes g: "slab_geom slab"
  shows "distinct (blocks slab)" "0 \<notin> set (blocks slab)"
proof -
  have inj: "i = j" if "i < unat (num_blocks slab)" "j < unat (num_blocks slab)"
    "buffer slab + of_nat i * block_size slab = buffer slab + of_nat j * block_size slab" for i j
  proof -
    have "unat (buffer slab) + i * unat (block_size slab) = unat (buffer slab) + j * unat (block_size slab)"
      by (metis block_address [OF g] that)
    then show ?thesis
      using g unfolding slab_geom_def by (metis add_left_cancel mult_cancel2 neq0_conv)
  qed
  show "distinct (blocks slab)"
    unfolding blocks_def distinct_map by (intro conjI distinct_upt inj_onI) (rule inj, simp_all only: set_upt atLeastLessThan_iff)
  have "buffer slab + of_nat i * block_size slab \<noteq> 0" if "i < unat (num_blocks slab)" for i
    using block_address [OF g that] g unfolding slab_geom_def by (metis add_gr_0 unsigned_0 less_irrefl)
  then show "0 \<notin> set (blocks slab)"
    by (auto simp: blocks_def)
qed

lemma create_loop:
  assumes "seg mem (free_list slab) fs 0"
    and "distinct (map (\<lambda>i. p + of_nat i * block_size slab) [0..<n])"
    and "\<forall>i<n. p + of_nat i * block_size slab \<notin> insert 0 (set fs)"
  shows "\<exists>mem' f. create_free_list_loop n p (mem, slab) = (mem', slab\<lparr>free_list := f\<rparr>) \<and>
    seg mem' f (rev (map (\<lambda>i. p + of_nat i * block_size slab) [0..<n]) @ fs) 0"
  using assms
proof (induction n arbitrary: p mem slab fs)
  case 0
  then show ?case
    by (intro exI [of _ mem] exI [of _ "free_list slab"]) simp
next
  case (Suc n)
  let ?slab = "slab\<lparr>free_list := p\<rparr>" and ?mem = "mem(p := free_list slab)"
  have m: "map (\<lambda>i. p + of_nat i * block_size slab) [0..<Suc n] =
      p # map (\<lambda>i. (p + block_size slab) + of_nat i * block_size slab) [0..<n]"
    by (simp add: upt_conv_Cons map_Suc_upt [symmetric] algebra_simps del: upt_Suc)
  have p: "p \<notin> set fs" "p \<noteq> 0"
    using Suc.prems(3) [rule_format, of 0] by auto
  have sg: "seg ?mem (free_list ?slab) (p # fs) 0"
    using Suc.prems(1) p by simp
  have d: "distinct (map (\<lambda>i. (p + block_size slab) + of_nat i * block_size ?slab) [0..<n])"
    and new: "p \<notin> set (map (\<lambda>i. (p + block_size slab) + of_nat i * block_size slab) [0..<n])"
    using Suc.prems(2) unfolding m by simp_all
  have fresh: "\<forall>i<n. (p + block_size slab) + of_nat i * block_size ?slab \<notin> insert 0 (set (p # fs))"
  proof (intro allI impI)
    fix i assume "i < n"
    then show "(p + block_size slab) + of_nat i * block_size ?slab \<notin> insert 0 (set (p # fs))"
      using Suc.prems(3) [rule_format, of "Suc i"] new by (auto simp: algebra_simps)
  qed
  obtain mem' f where "create_free_list_loop n (p + block_size slab) (?mem, ?slab) = (mem', ?slab\<lparr>free_list := f\<rparr>)"
    "seg mem' f (rev (map (\<lambda>i. (p + block_size slab) + of_nat i * block_size ?slab) [0..<n]) @ p # fs) 0"
    using Suc.IH [OF sg d fresh] by blast
  then show ?case
    by (intro exI [of _ mem'] exI [of _ f]) (simp add: m del: upt_Suc)
qed

definition slab_free_rel :: "sheap \<Rightarrow> k_mem_slab \<Rightarrow> u32 list \<Rightarrow> bool" where
  "slab_free_rel mem slab fs \<longleftrightarrow>
     seg mem (free_list slab) fs 0 \<and> distinct fs \<and> set fs \<subseteq> set (blocks slab) \<and>
     length fs + unat (num_used slab) = unat (num_blocks slab)"

definition slab_free :: "sheap \<Rightarrow> k_mem_slab \<Rightarrow> u32 list" where
  "slab_free mem slab = (THE fs. seg mem (free_list slab) fs 0)"

lemma slab_free_eq: "slab_free_rel mem slab fs \<Longrightarrow> slab_free mem slab = fs"
  unfolding slab_free_def slab_free_rel_def by (rule the_equality) (auto intro: seg_unique)

lemma create_free_list_rel:
  assumes g: "slab_geom slab" and u: "num_used slab = 0" and c: "create_free_list (mem, slab) = (mem', slab')"
  shows "slab_free_rel mem' slab' (rev (blocks slab))" "blocks slab' = blocks slab"
    "slab_wait_q slab' = slab_wait_q slab" "slab_geom slab'"
proof -
  let ?slab = "slab\<lparr>free_list := 0\<rparr>"
  have bl: "blocks (slab\<lparr>free_list := f\<rparr>) = blocks slab" for f
    by (simp add: blocks_def)
  have "\<exists>mem' f. create_free_list_loop (unat (num_blocks slab)) (buffer slab) (mem, ?slab) = (mem', ?slab\<lparr>free_list := f\<rparr>) \<and>
    seg mem' f (rev (map (\<lambda>i. buffer slab + of_nat i * block_size ?slab) [0..<unat (num_blocks slab)]) @ []) 0"
    using blocks_distinct [OF g] by (intro create_loop) (auto simp: blocks_def)
  then obtain f where f: "slab' = slab\<lparr>free_list := f\<rparr>" "seg mem' f (rev (blocks slab)) 0"
    using c by (auto simp: create_free_list_def blocks_def)
  show "blocks slab' = blocks slab" "slab_wait_q slab' = slab_wait_q slab" "slab_geom slab'"
    using g by (simp_all add: f(1) bl slab_geom_def)
  show "slab_free_rel mem' slab' (rev (blocks slab))"
    using f(2) blocks_distinct [OF g] u by (simp add: slab_free_rel_def f(1) bl) (simp add: blocks_def)
qed

section \<open>The slab as a waitable object\<close>

definition slab_inv :: "slab_state \<Rightarrow> bool" where
  "slab_inv x \<longleftrightarrow> kinv {} (fst x) \<and> \<not> handling_timeouts (fst x) \<and> slab_geom (snd (snd x)) \<and>
     slab_free_rel (fst (snd x)) (snd (snd x)) (slab_free (fst (snd x)) (snd (snd x)))"

definition slab_avail :: "slab_state \<Rightarrow> nat" where
  "slab_avail x = length (slab_free (fst (snd x)) (snd (snd x)))"

definition slab_waiting :: "slab_state \<Rightarrow> tid list" where
  "slab_waiting x = wait_qs (fst x) (slab_wait_q (snd (snd x)))"

text \<open>A block may be freed when it is a block of the slab and not free.\<close>

definition slab_allocated :: "slab_state \<Rightarrow> u32 set" where
  "slab_allocated x = set (blocks (snd (snd x))) - set (slab_free (fst (snd x)) (snd (snd x)))"

fun slab_ok :: "u32 object_op \<Rightarrow> slab_state \<Rightarrow> bool" where
  "slab_ok (Give b) x \<longleftrightarrow> b \<in> slab_allocated x"
| "slab_ok (Take timeout) x = take_ok timeout (fst x)"
| "slab_ok (Env f) x = env_ok f (slab_wait_q (snd (snd x))) (fst x)"

fun slab_step ::
    "(fn_ptr \<Rightarrow> toid \<Rightarrow> kernel \<Rightarrow> kernel) \<Rightarrow> u32 object_op \<Rightarrow> slab_state \<Rightarrow> slab_state" where
  "slab_step call (Give b) x = k_mem_slab_free b x"
| "slab_step call (Take timeout) x = fst (k_mem_slab_alloc call timeout x)"
| "slab_step call (Env f) x = (f (fst x), snd x)"

lemma slab_invI:
  assumes "kinv {} s" "\<not> handling_timeouts s" "slab_geom slab" "slab_free_rel mem slab fs"
  shows "slab_inv (s, mem, slab)" "slab_free mem slab = fs"
  using assms slab_free_eq [OF assms(4)] by (simp_all add: slab_inv_def)

lemma slab_invD:
  assumes "slab_inv (s, mem, slab)"
  shows "kinv {} s" "\<not> handling_timeouts s" "slab_geom slab" "slab_free_rel mem slab (slab_free mem slab)"
  using assms by (simp_all add: slab_inv_def)

lemma free_waiter:
  assumes "find_first_thread_to_unpend (slab_wait_q slab) None s = Some t"
  shows "k_mem_slab_free b (s, mem, slab) =
    (let s' = wake_upd t (\<lambda>c. c\<lparr>return_value := 0, swap_data := b\<rparr>) s
     in if must_switch_threads s' then Swap s' else s', mem, slab)"
proof -
  have *: "upd_thread t (\<lambda>c. c\<lparr>swap_data := b\<rparr>) (upd_thread t (\<lambda>c. c\<lparr>return_value := 0\<rparr>) r) =
      upd_thread t (\<lambda>c. c\<lparr>return_value := 0, swap_data := b\<rparr>) r" for r
    by (simp add: upd_thread_def)
  show ?thesis
    using assms by (simp add: unpend_first_thread_def k_mem_slab_free_def wake_upd_def Let_def *)
qed

lemma slab_free_facts:
  assumes inv: "slab_inv (s, mem, slab)" and b: "b \<in> slab_allocated (s, mem, slab)"
  shows "slab_inv (k_mem_slab_free b (s, mem, slab)) \<and>
    slab_waiting (k_mem_slab_free b (s, mem, slab)) = tl (wait_qs s (slab_wait_q slab)) \<and>
    slab_free (fst (snd (k_mem_slab_free b (s, mem, slab)))) (snd (snd (k_mem_slab_free b (s, mem, slab)))) =
      (if wait_qs s (slab_wait_q slab) = [] then b # slab_free mem slab else slab_free mem slab)"
proof (cases "wait_qs s (slab_wait_q slab)")
  note i = slab_invD [OF inv]
  case Nil
  let ?slab = "slab\<lparr>free_list := b, num_used := num_used slab - 1\<rparr>"
  have bl: "blocks ?slab = blocks slab"
    by (simp add: blocks_def)
  have bb: "b \<in> set (blocks slab)" "b \<notin> set (slab_free mem slab)" "b \<noteq> 0"
    using b blocks_distinct [OF i(3)] by (auto simp: slab_allocated_def)
  have "card (set (slab_free mem slab)) < card (set (blocks slab))"
    using bb i(4) by (intro psubset_card_mono) (auto simp: slab_free_rel_def)
  then have "0 < unat (num_used slab)"
    using i(4) blocks_distinct(1) [OF i(3)]
    by (simp add: slab_free_rel_def distinct_card) (simp add: blocks_def)
  then have "slab_free_rel (mem(b := free_list slab)) ?slab (b # slab_free mem slab)"
    using i(4) bb by (simp add: slab_free_rel_def bl unat_pred)
  moreover have "k_mem_slab_free b (s, mem, slab) = (s, mem(b := free_list slab), ?slab)"
    using Nil i(2) by (simp add: k_mem_slab_free_def unpend_first_thread_def)
  moreover have "slab_geom ?slab"
    using i(3) by (simp add: slab_geom_def)
  ultimately show ?thesis
    using slab_invI [OF i(1,2)] Nil by (simp add: slab_waiting_def)
next
  note i = slab_invD [OF inv]
  case (Cons t ts)
  then have f: "find_first_thread_to_unpend (slab_wait_q slab) None s = Some t"
    using i(2) by simp
  define s' where "s' = fst (k_mem_slab_free b (s, mem, slab))"
  have eq: "k_mem_slab_free b (s, mem, slab) = (s', mem, slab)"
    by (simp add: s'_def free_waiter [OF f])
  note w = wake_upd [OF i(1) f, of "\<lambda>c. c\<lparr>return_value := 0, swap_data := b\<rparr>"]
  have "kinv {} s'" "\<not> handling_timeouts s'" "wait_qs s' (slab_wait_q slab) = ts"
    using w i(2) Cons by (simp_all add: s'_def free_waiter [OF f] Let_def served_def)
  then show ?thesis
    using slab_invI [OF _ _ i(3,4), of s'] Cons by (simp add: eq slab_waiting_def)
qed

lemma slab_alloc_facts:
  assumes inv: "slab_inv (s, mem, slab)" and ok: "take_ok timeout s"
    and x: "x = k_mem_slab_alloc call timeout (s, mem, slab)"
  shows "slab_inv (fst x) \<and> slab_free (fst (snd (fst x))) (snd (snd (fst x))) = tl (slab_free mem slab) \<and>
    slab_wait_q (snd (snd (fst x))) = slab_wait_q slab \<and> blocks (snd (snd (fst x))) = blocks slab \<and>
    (slab_free mem slab \<noteq> [] \<longrightarrow> fst (fst x) = s \<and> snd x = Returned (0, hd (slab_free mem slab)))"
proof (cases "slab_free mem slab")
  note i = slab_invD [OF inv]
  case Nil
  then have e: "free_list slab = 0"
    using i(4) by (simp add: slab_free_rel_def)
  show ?thesis
  proof (cases "timeout = K_NO_WAIT")
    case True
    then show ?thesis
      using inv e Nil by (simp add: x k_mem_slab_alloc_def)
  next
    case False
    then have "kinv {} (Swap (pend_current_thread call (slab_wait_q slab) timeout s))"
      "\<not> handling_timeouts (Swap (pend_current_thread call (slab_wait_q slab) timeout s))"
      using ok i kinv_pend_current(1) [of s timeout call "slab_wait_q slab"]
      by (auto simp: take_ok_def pend_current_sel)
    then show ?thesis
      using slab_invI [OF _ _ i(3,4)] e False Nil by (simp add: x k_mem_slab_alloc_def Let_def)
  qed
next
  note i = slab_invD [OF inv]
  case (Cons b fs)
  let ?slab = "slab\<lparr>free_list := mem b, num_used := num_used slab + 1\<rparr>"
  have b: "free_list slab = b" "b \<noteq> 0"
    using i(4) Cons by (auto simp: slab_free_rel_def)
  have bl: "blocks ?slab = blocks slab" "slab_geom ?slab"
    using i(3) by (simp_all add: blocks_def slab_geom_def)
  have "unat (num_used slab) < unat (num_blocks slab)"
    using i(4) Cons by (simp add: slab_free_rel_def)
  note succ = unat_succ_less [OF this]
  have "slab_free_rel mem ?slab fs"
    using i(4) Cons by (simp add: slab_free_rel_def bl succ)
  then show ?thesis
    using slab_invI [OF i(1,2) bl(2)] b Cons bl by (simp add: x k_mem_slab_alloc_def)
qed

interpretation slab: waitable slab_inv slab_avail slab_waiting slab_ok "slab_step call" for call
proof (unfold_locales, goal_cases)
  case (1 x o1)
  obtain s mem sl where x: "x = (s, mem, sl)"
    by (cases x)
  show ?case
  proof (cases o1)
    case (Give b)
    then show ?thesis
      using 1 slab_free_facts [of s mem sl b] by (simp add: x)
  next
    case (Take k)
    then show ?thesis
      using 1 slab_alloc_facts [of s mem sl k _ call] by (simp add: x)
  next
    case (Env f)
    then show ?thesis
      using 1 by (simp add: x slab_inv_def env_ok_def)
  qed
next
  case (2 x a t ts)
  then show ?case
    using slab_free_facts [of "fst x" "fst (snd x)" "snd (snd x)" a] by (simp add: slab_waiting_def slab_avail_def)
next
  case (3 x a)
  then show ?case
    using slab_free_facts [of "fst x" "fst (snd x)" "snd (snd x)" a] by (simp add: slab_waiting_def)
next
  case (4 x k)
  then show ?case
    using slab_alloc_facts [of "fst x" "fst (snd x)" "snd (snd x)" k _ call]
    by (simp add: slab_waiting_def slab_avail_def)
next
  case (5 x k)
  then show ?case
    using slab_alloc_facts [of "fst x" "fst (snd x)" "snd (snd x)" k _ call] by (simp add: slab_avail_def)
next
  case (6 x f)
  then show ?case
    by (simp add: slab_avail_def slab_waiting_def env_ok_def)
qed

section \<open>Properties\<close>

text \<open>
  Initialising a slab puts every block on the free list, the last block first: with a
  buffer that does not start at NULL or wrap around, the free list links all the blocks
  without repetition, the use count is 0 and the slab is well formed.
\<close>

theorem k_mem_slab_init_all_free:
  assumes "kinv {} s" and "\<not> handling_timeouts s" and "wait_qs s (slab_wait_q slab) = []"
    and "0 < buf" and "0 < bsize" and "unat buf + unat nblocks * unat bsize \<le> 2 ^ 32"
    and "k_mem_slab_init buf bsize nblocks (s, mem, slab) = (s', mem', slab')"
  shows "s' = s \<and> slab_inv (s', mem', slab') \<and> num_used slab' = 0 \<and>
    slab_free mem' slab' = rev (blocks slab') \<and> slab_allocated (s', mem', slab') = {} \<and>
    blocks slab' = map (\<lambda>i. buf + of_nat i * bsize) [0..<unat nblocks]"
proof -
  let ?slab = "slab\<lparr>num_blocks := nblocks, block_size := bsize, buffer := buf, num_used := 0\<rparr>"
  have g: "slab_geom ?slab"
    using assms(4-6) by (simp add: slab_geom_def word_less_nat_alt)
  obtain m sl where c: "create_free_list (mem, ?slab) = (m, sl)"
    by fastforce
  have "wait_qs s (slab_wait_q slab) = [] \<Longrightarrow> s\<lparr>wait_qs := (wait_qs s)(slab_wait_q slab := [])\<rparr> = s"
    by (simp add: fun_upd_idem)
  moreover note cr = create_free_list_rel [OF g _ c]
  ultimately have e: "s' = s" "mem' = m" "slab' = sl"
    using assms(3,7) c by (auto simp: k_mem_slab_init_def Let_def)
  have b: "blocks sl = map (\<lambda>i. buf + of_nat i * bsize) [0..<unat nblocks]"
    using cr(2) by (simp add: blocks_def)
  have r: "slab_free_rel m sl (rev (blocks sl))" "slab_geom sl"
    using cr by simp_all
  then have "num_used sl = 0"
    by (simp add: slab_free_rel_def unsigned_eq_0_iff) (simp add: blocks_def unsigned_eq_0_iff)
  then show ?thesis
    using slab_invI [OF assms(1,2) r(2,1)] b by (simp add: e slab_allocated_def)
qed

definition slab5 :: k_mem_slab where
  "slab5 = \<lparr>slab_wait_q = 5, num_blocks = 0, block_size = 0, buffer = 0, free_list = 0, num_used = 0\<rparr>"

theorem k_mem_slab_init_all_free_witness:
  "let (s, mem, slab) = k_mem_slab_init 0x1000 16 3 (boot, (\<lambda>_. 0), slab5)
   in slab_inv (s, mem, slab) \<and> slab_free mem slab = rev (blocks slab)"
  using k_mem_slab_init_all_free [of boot slab5 "0x1000" 16 3 "\<lambda>_. 0"] by (auto simp: slab5_def split: prod.split)


text \<open>One block of 16 bytes at address 64.\<close>

definition slab_one :: slab_state where
  "slab_one = (boot, (\<lambda>_. 0), \<lparr>slab_wait_q = 5, num_blocks = 1, block_size = 16, buffer = 64,
     free_list = 64, num_used = 0\<rparr>)"

lemma slab_one: "slab_inv slab_one" "slab_avail slab_one = 1" "slab_waiting slab_one = []"
proof -
  have "slab_free_rel (fst (snd slab_one)) (snd (snd slab_one)) [64]"
    by (simp add: slab_free_rel_def slab_one_def blocks_def)
  then show "slab_inv slab_one" "slab_avail slab_one = 1"
    using slab_invI [of boot "snd (snd slab_one)" "fst (snd slab_one)" "[64]"]
    by (simp_all add: slab_avail_def) (simp_all add: slab_one_def slab_geom_def)
  show "slab_waiting slab_one = []"
    by (simp add: slab_waiting_def slab_one_def)
qed


text \<open>
  A block freed while threads wait is handed to the first of them: the thread leaves
  the wait queue, its pending allocation returns 0 and that block, and the free list does
  not change.
\<close>

theorem k_mem_slab_free_serves_first_waiter:
  assumes "kinv {} s" and "\<not> handling_timeouts s" and "wait_qs s (slab_wait_q slab) = t # ts"
    and "is_thread_ready (current s) s" and "k_mem_slab_free b (s, mem, slab) = (s', mem', slab')"
  shows "served t (slab_wait_q slab) s s' \<and> mem' = mem \<and> slab' = slab \<and>
    k_mem_slab_alloc_resume t s' = (0, Some b)"
proof -
  have f: "find_first_thread_to_unpend (slab_wait_q slab) None s = Some t"
    and tw: "t \<in> set (wait_qs s (slab_wait_q slab))"
    using assms(2,3) by simp_all
  note w = wake_upd [OF assms(1) f, of "\<lambda>c. c\<lparr>return_value := 0, swap_data := b\<rparr>"]
  show ?thesis
    using waiter_not_current [OF assms(1,4) tw] w assms(5)
    by (auto simp: free_waiter [OF f] Let_def k_mem_slab_alloc_resume_def split: if_splits)
qed

theorem k_mem_slab_free_serves_first_waiter_witness:
  "k_mem_slab_alloc_resume 1 (fst (k_mem_slab_free 64 (boot_waiting 5, (\<lambda>_. 0), slab5))) = (0, Some 64)"
  using k_mem_slab_free_serves_first_waiter [of "boot_waiting 5" slab5 1 "[]" 64 "\<lambda>_. 0"
      "fst (k_mem_slab_free 64 (boot_waiting 5, (\<lambda>_. 0), slab5))"
      "fst (snd (k_mem_slab_free 64 (boot_waiting 5, (\<lambda>_. 0), slab5)))"
      "snd (snd (k_mem_slab_free 64 (boot_waiting 5, (\<lambda>_. 0), slab5)))"]
  by (simp add: slab5_def)

end
