(* ===== verification/Acts_Ringbuf.thy ===== *)
theory Acts_Ringbuf
  imports Ring
begin

text \<open>
  The ring buffer of the audio paths: lib/utils/source/acts_ringbuf/acts_ringbuf.c and
  lib/utils/include/acts_ringbuf.h, with the element size of one byte the header fixes.

  The read and write positions are free-running 32-bit counters; the offset in the buffer
  is the counter modulo the size (a mask when the size is a power of two). Allocation
  (\<open>mem_malloc\<close>) is not part of the model. \<open>mcu_to_dsp\<close> is the address translation of the
  chip; \<open>stream_write\<close> and \<open>stream_read\<close> are the functions of the stream that the caller
  passes.
\<close>

record acts_ringbuf =
  rb_head :: u32
  rb_tail :: u32
  rb_size :: u32
  rb_mask :: u32
  cpu_ptr :: nat
  dsp_ptr :: u32

section \<open>Operations\<close>

definition acts_ringbuf_init :: "(nat \<Rightarrow> u32) \<Rightarrow> nat \<Rightarrow> u32 \<Rightarrow> acts_ringbuf" where
  "acts_ringbuf_init mcu_to_dsp data sz =
     \<lparr>rb_head = 0, rb_tail = 0, rb_size = sz, rb_mask = (if is_power_of_two sz then sz - 1 else 0),
      cpu_ptr = data, dsp_ptr = mcu_to_dsp data\<rparr>"

definition acts_ringbuf_size :: "acts_ringbuf \<Rightarrow> u32" where
  "acts_ringbuf_size b = rb_size b"

definition acts_ringbuf_base :: "acts_ringbuf \<Rightarrow> nat" where
  "acts_ringbuf_base b = cpu_ptr b"

definition acts_ringbuf_length :: "acts_ringbuf \<Rightarrow> u32" where
  "acts_ringbuf_length b = rb_tail b - rb_head b"

definition acts_ringbuf_space :: "acts_ringbuf \<Rightarrow> u32" where
  "acts_ringbuf_space b = rb_size b - (rb_tail b - rb_head b)"

definition acts_ringbuf_is_empty :: "acts_ringbuf \<Rightarrow> bool" where
  "acts_ringbuf_is_empty b \<longleftrightarrow> rb_head b = rb_tail b"

definition acts_ringbuf_is_full :: "acts_ringbuf \<Rightarrow> bool" where
  "acts_ringbuf_is_full b \<longleftrightarrow> rb_size b = rb_tail b - rb_head b"

definition acts_ringbuf_is_half_empty :: "acts_ringbuf \<Rightarrow> bool" where
  "acts_ringbuf_is_half_empty b \<longleftrightarrow> rb_tail b - rb_head b \<le> drop_bit 1 (rb_size b)"

definition acts_ringbuf_is_half_full :: "acts_ringbuf \<Rightarrow> bool" where
  "acts_ringbuf_is_half_full b \<longleftrightarrow> rb_tail b - rb_head b \<ge> drop_bit 1 (rb_size b)"

definition acts_ringbuf_reset :: "acts_ringbuf \<Rightarrow> acts_ringbuf" where
  "acts_ringbuf_reset b = b\<lparr>rb_head := 0, rb_tail := 0\<rparr>"

text \<open>The expression \<open>buf->mask ? (x & buf->mask) : (x % buf->size)\<close>.\<close>

definition ring_offset :: "acts_ringbuf \<Rightarrow> u32 \<Rightarrow> u32" where
  "ring_offset b x = (if rb_mask b \<noteq> 0 then x AND rb_mask b else x mod rb_size b)"

definition acts_ringbuf_peek :: "acts_ringbuf \<Rightarrow> nat \<Rightarrow> u32 \<Rightarrow> mem \<Rightarrow> mem \<times> u32" where
  "acts_ringbuf_peek b data sz m =
     (if sz > acts_ringbuf_length b then (m, 0)
      else
        let offset = ring_offset b (rb_head b);
            len = rb_size b - offset
        in if len \<ge> sz then (memcpy data (cpu_ptr b + unat offset) (unat sz) m, sz)
           else
             let m = memcpy data (cpu_ptr b + unat offset) (unat len) m
             in (memcpy (data + unat len) (cpu_ptr b) (unat (sz - len)) m, sz))"

definition acts_ringbuf_get :: "acts_ringbuf \<Rightarrow> nat \<Rightarrow> u32 \<Rightarrow> mem \<Rightarrow> mem \<times> acts_ringbuf \<times> u32" where
  "acts_ringbuf_get b data sz m =
     (case acts_ringbuf_peek b data sz m of (m, sz) \<Rightarrow> (m, b\<lparr>rb_head := rb_head b + sz\<rparr>, sz))"

definition acts_ringbuf_get_claim :: "acts_ringbuf \<Rightarrow> u32 \<Rightarrow> nat \<times> u32" where
  "acts_ringbuf_get_claim b sz =
     (let offset = ring_offset b (rb_head b);
          max_size = min (rb_size b - offset) (acts_ringbuf_length b)
      in (cpu_ptr b + unat offset, if sz \<le> max_size then sz else max_size))"

definition acts_ringbuf_get_finish :: "acts_ringbuf \<Rightarrow> u32 \<Rightarrow> acts_ringbuf \<times> int" where
  "acts_ringbuf_get_finish b sz =
     (let offset = ring_offset b (rb_head b);
          max_size = min (rb_size b - offset) (acts_ringbuf_length b)
      in if sz > max_size then (b, - EINVAL) else (b\<lparr>rb_head := rb_head b + sz\<rparr>, 0))"

definition acts_ringbuf_put :: "acts_ringbuf \<Rightarrow> nat \<Rightarrow> u32 \<Rightarrow> mem \<Rightarrow> mem \<times> acts_ringbuf \<times> u32" where
  "acts_ringbuf_put b data sz m =
     (if sz > acts_ringbuf_space b then (m, b, 0)
      else
        let offset = ring_offset b (rb_tail b);
            len = rb_size b - offset;
            m = (if len \<ge> sz then memcpy (cpu_ptr b + unat offset) data (unat sz) m
                 else
                   let m = memcpy (cpu_ptr b + unat offset) data (unat len) m
                   in memcpy (cpu_ptr b) (data + unat len) (unat (sz - len)) m)
        in (m, b\<lparr>rb_tail := rb_tail b + sz\<rparr>, sz))"

definition acts_ringbuf_put_claim :: "acts_ringbuf \<Rightarrow> u32 \<Rightarrow> nat \<times> u32" where
  "acts_ringbuf_put_claim b sz =
     (let offset = ring_offset b (rb_tail b);
          max_size = min (rb_size b - offset) (acts_ringbuf_space b)
      in (cpu_ptr b + unat offset, if sz \<le> max_size then sz else max_size))"

definition acts_ringbuf_put_finish :: "acts_ringbuf \<Rightarrow> u32 \<Rightarrow> acts_ringbuf \<times> int" where
  "acts_ringbuf_put_finish b sz =
     (let offset = ring_offset b (rb_tail b);
          max_size = min (rb_size b - offset) (acts_ringbuf_space b)
      in if sz > max_size then (b, - EINVAL) else (b\<lparr>rb_tail := rb_tail b + sz\<rparr>, 0))"

text \<open>
  The loop of \<open>acts_ringbuf_copy\<close>: at each turn the longest run that is contiguous in both
  buffers. A turn that copies nothing would repeat for ever: the value None.
\<close>

function copy_loop :: "acts_ringbuf \<Rightarrow> acts_ringbuf \<Rightarrow> u32 \<Rightarrow> u32 \<Rightarrow> u32 \<Rightarrow> mem \<Rightarrow> mem option" where
  "copy_loop dst src dst_offset src_offset sz m =
     (let len = min (rb_size src - src_offset) (rb_size dst - dst_offset);
          len = (if len > sz then sz else len);
          m = memcpy (cpu_ptr dst + unat dst_offset) (cpu_ptr src + unat src_offset) (unat len) m
      in if sz - len = 0 then Some m
         else if len = 0 then None
         else
           let src_offset = (if src_offset + len \<ge> rb_size src then 0 else src_offset + len);
               dst_offset = (if dst_offset + len \<ge> rb_size dst then 0 else dst_offset + len)
           in copy_loop dst src dst_offset src_offset (sz - len) m)"
  by auto
termination copy_loop
proof (relation "measure (\<lambda>(dst, src, d, s, sz, m). unat sz)", goal_cases)
  case (2 dst src d s sz m l l' m' s' d')
  have "l' \<le> sz" "l' \<noteq> 0"
    using 2(2,5) by (simp_all add: not_less split: if_splits)
  moreover from this(2) have "0 < unat l'"
    by (simp add: unat_gt_0)
  ultimately have "unat (sz - l') < unat sz"
    by (simp add: unat_sub word_le_nat_alt)
  then show ?case
    by simp
qed simp

declare copy_loop.simps [simp del]

definition acts_ringbuf_copy ::
    "acts_ringbuf \<Rightarrow> acts_ringbuf \<Rightarrow> u32 \<Rightarrow> mem \<Rightarrow> (mem \<times> acts_ringbuf \<times> acts_ringbuf \<times> u32) option" where
  "acts_ringbuf_copy dst src sz m =
     (let src_length = acts_ringbuf_length src;
          dst_space = acts_ringbuf_space dst;
          sz = (if sz > src_length then src_length else sz);
          sz = (if sz > dst_space then dst_space else sz)
      in if sz = 0 then Some (m, dst, src, 0)
         else
           map_option
             (\<lambda>m. (m, dst\<lparr>rb_tail := rb_tail dst + sz\<rparr>, src\<lparr>rb_head := rb_head src + sz\<rparr>, sz))
             (copy_loop dst src (ring_offset dst (rb_tail dst)) (ring_offset src (rb_head src)) sz m))"

definition acts_ringbuf_read ::
    "('st \<Rightarrow> nat \<Rightarrow> nat \<Rightarrow> mem \<Rightarrow> 'st \<times> int) \<Rightarrow> acts_ringbuf \<Rightarrow> 'st \<Rightarrow> u32 \<Rightarrow> mem \<Rightarrow>
      'st \<times> acts_ringbuf \<times> u32" where
  "acts_ringbuf_read stream_write b stream sz m =
     (if sz > acts_ringbuf_length b then (stream, b, 0)
      else
        let offset = ring_offset b (rb_head b);
            len = rb_size b - offset
        in case (if len \<ge> sz then stream_write stream (cpu_ptr b + unat offset) (unat sz) m
                 else
                   case stream_write stream (cpu_ptr b + unat offset) (unat len) m of
                     (stream, stream_len) \<Rightarrow>
                       if word_of_int stream_len = len then
                         case stream_write stream (cpu_ptr b) (unat (sz - len)) m of
                           (stream, tmp) \<Rightarrow> (stream, if tmp > 0 then stream_len + tmp else stream_len)
                       else (stream, stream_len)) of
             (stream, stream_len) \<Rightarrow>
               if stream_len > 0 then
                 (stream, b\<lparr>rb_head := rb_head b + word_of_int stream_len\<rparr>, word_of_int stream_len)
               else (stream, b, 0))"

definition acts_ringbuf_write ::
    "('st \<Rightarrow> nat \<Rightarrow> nat \<Rightarrow> mem \<Rightarrow> 'st \<times> mem \<times> int) \<Rightarrow> acts_ringbuf \<Rightarrow> 'st \<Rightarrow> u32 \<Rightarrow> mem \<Rightarrow>
      'st \<times> mem \<times> acts_ringbuf \<times> u32" where
  "acts_ringbuf_write stream_read b stream sz m =
     (if sz > acts_ringbuf_space b then (stream, m, b, 0)
      else
        let offset = ring_offset b (rb_tail b);
            len = rb_size b - offset
        in case (if len \<ge> sz then stream_read stream (cpu_ptr b + unat offset) (unat sz) m
                 else
                   case stream_read stream (cpu_ptr b + unat offset) (unat len) m of
                     (stream, m, stream_len) \<Rightarrow>
                       if word_of_int stream_len = len then
                         case stream_read stream (cpu_ptr b) (unat (sz - len)) m of
                           (stream, m, tmp) \<Rightarrow> (stream, m, if tmp > 0 then stream_len + tmp else stream_len)
                       else (stream, m, stream_len)) of
             (stream, m, stream_len) \<Rightarrow>
               if stream_len > 0 then
                 (stream, m, b\<lparr>rb_tail := rb_tail b + word_of_int stream_len\<rparr>, word_of_int stream_len)
               else (stream, m, b, 0))"

definition acts_ringbuf_drop :: "acts_ringbuf \<Rightarrow> u32 \<Rightarrow> acts_ringbuf \<times> u32" where
  "acts_ringbuf_drop b sz =
     (if sz > acts_ringbuf_length b then (b, 0) else (b\<lparr>rb_head := rb_head b + sz\<rparr>, sz))"

definition acts_ringbuf_drop_all :: "acts_ringbuf \<Rightarrow> acts_ringbuf \<times> u32" where
  "acts_ringbuf_drop_all b =
     (let length = acts_ringbuf_length b in (b\<lparr>rb_head := rb_head b + length\<rparr>, length))"

definition memset :: "nat \<Rightarrow> u8 \<Rightarrow> nat \<Rightarrow> mem \<Rightarrow> mem" where
  "memset a c n m = mem_write a (replicate n c) m"

definition acts_ringbuf_fill :: "acts_ringbuf \<Rightarrow> u8 \<Rightarrow> u32 \<Rightarrow> mem \<Rightarrow> mem \<times> acts_ringbuf \<times> u32" where
  "acts_ringbuf_fill b c sz m =
     (if sz > acts_ringbuf_space b then (m, b, 0)
      else
        let offset = ring_offset b (rb_tail b);
            len = rb_size b - offset;
            m = (if len \<ge> sz then memset (cpu_ptr b + unat offset) c (unat sz) m
                 else
                   let m = memset (cpu_ptr b + unat offset) c (unat len) m
                   in memset (cpu_ptr b) c (unat (sz - len)) m)
        in (m, b\<lparr>rb_tail := rb_tail b + sz\<rparr>, sz))"

definition acts_ringbuf_fill_none :: "acts_ringbuf \<Rightarrow> u32 \<Rightarrow> acts_ringbuf \<times> u32" where
  "acts_ringbuf_fill_none b sz =
     (if sz > acts_ringbuf_space b then (b, 0) else (b\<lparr>rb_tail := rb_tail b + sz\<rparr>, sz))"

definition acts_ringbuf_head_ptr :: "acts_ringbuf \<Rightarrow> nat \<times> u32" where
  "acts_ringbuf_head_ptr b = acts_ringbuf_get_claim b (acts_ringbuf_length b)"

definition acts_ringbuf_tail_ptr :: "acts_ringbuf \<Rightarrow> nat \<times> u32" where
  "acts_ringbuf_tail_ptr b = acts_ringbuf_put_claim b (acts_ringbuf_space b)"

definition acts_ringbuf_defrag :: "acts_ringbuf \<Rightarrow> mem \<Rightarrow> mem \<times> acts_ringbuf" where
  "acts_ringbuf_defrag b m =
     (let roff = ring_offset b (rb_head b);
          woff = ring_offset b (rb_tail b)
      in if \<not> (roff = 0 \<or> acts_ringbuf_is_empty b) \<and> roff \<ge> woff then
           (m, b\<lparr>rb_head := roff, rb_tail := woff + rb_size b\<rparr>)
         else
           let m = (if roff = 0 \<or> acts_ringbuf_is_empty b then m
                    else memcpy (cpu_ptr b) (cpu_ptr b + unat roff) (unat (woff - roff)) m);
               b = b\<lparr>rb_tail := rb_tail b - rb_head b\<rparr>
           in (m, b\<lparr>rb_head := 0\<rparr>))"

section \<open>Offsets\<close>

definition rb_wf :: "acts_ringbuf \<Rightarrow> bool" where
  "rb_wf b \<longleftrightarrow> 0 < rb_size b \<and> rb_tail b - rb_head b \<le> rb_size b \<and>
     rb_mask b = (if is_power_of_two (rb_size b) then rb_size b - 1 else 0)"

lemma ring_offset_mod:
  assumes "rb_wf b"
  shows "unat (ring_offset b x) = unat x mod unat (rb_size b)"
proof (cases "rb_mask b = 0")
  case True
  then show ?thesis
    by (simp add: ring_offset_def unat_mod)
next
  case False
  then have p: "is_power_of_two (rb_size b)" and m: "rb_mask b = rb_size b - 1"
    using assms by (auto simp: rb_wf_def split: if_splits)
  then show ?thesis
    using False and_mask_mod [OF p, of x] by (simp add: ring_offset_def)
qed

lemma ring_offset_less: "rb_wf b \<Longrightarrow> unat (ring_offset b x) < unat (rb_size b)"
  by (simp add: ring_offset_mod rb_wf_def word_less_nat_alt)

lemma unat_size_minus_offset:
  "rb_wf b \<Longrightarrow> unat (rb_size b - ring_offset b x) = unat (rb_size b) - unat (ring_offset b x)"
  using ring_offset_less [of b x] by (simp add: unat_sub word_le_nat_alt)

lemma length_space:
  assumes "rb_wf b"
  shows "unat (acts_ringbuf_length b) \<le> unat (rb_size b)"
    "unat (acts_ringbuf_space b) = unat (rb_size b) - unat (acts_ringbuf_length b)"
  using assms by (auto simp: rb_wf_def acts_ringbuf_length_def acts_ringbuf_space_def word_le_nat_alt unat_sub)

section \<open>Contents\<close>

definition rb_contents :: "acts_ringbuf \<Rightarrow> mem \<Rightarrow> u8 list" where
  "rb_contents b m =
     ring (bytes_at (cpu_ptr b) m) (unat (rb_size b)) (unat (rb_head b)) (unat (acts_ringbuf_length b))"

text \<open>
  The write position is the read position plus the length modulo the size. With a size
  that is a power of two this survives the wrap of the counters at \<open>2 ^ 32\<close>; with any
  other size it holds as long as the write counter has not wrapped past the read counter.
\<close>

definition rb_ok :: "acts_ringbuf \<Rightarrow> bool" where
  "rb_ok b \<longleftrightarrow> rb_wf b \<and> (is_power_of_two (rb_size b) \<or> rb_head b \<le> rb_tail b)"

lemma counter_sum:
  fixes h t :: u32
  shows "unat h + unat (t - h) = (if h \<le> t then unat t else unat t + 2 ^ 32)"
proof (cases "h \<le> t")
  case False
  have "unat (t - h) = unat t + 2 ^ 32 - unat h"
    using False unsigned_less [of h, where 'a = nat]
    by (simp add: unat_sub_if_size word_size word_le_nat_alt)
  then show ?thesis
    using False unsigned_less [of h, where 'a = nat] by simp
qed (simp add: unat_sub word_le_nat_alt)

lemma tail_offset:
  assumes "rb_ok b"
  shows "unat (ring_offset b (rb_tail b)) =
    (unat (rb_head b) + unat (acts_ringbuf_length b)) mod unat (rb_size b)"
proof -
  have "(2 ^ 32 + x) mod unat (rb_size b) = x mod unat (rb_size b)" if p: "is_power_of_two (rb_size b)" for x
    using power_of_two_dvd [OF p] by (metis add_0 dvd_imp_mod_0 mod_add_left_eq)
  then show ?thesis
    using assms counter_sum [of "rb_head b" "rb_tail b"]
    by (auto simp: rb_ok_def ring_offset_mod acts_ringbuf_length_def add.commute)
qed

definition rb_disjoint :: "acts_ringbuf \<Rightarrow> nat \<Rightarrow> nat \<Rightarrow> bool" where
  "rb_disjoint b data n \<longleftrightarrow> disjoint_areas (cpu_ptr b) (unat (rb_size b)) data n"

lemma put_eq:
  assumes wf: "rb_wf b" and sz: "sz \<le> acts_ringbuf_space b"
  shows "acts_ringbuf_put b data sz m =
    (ring_copy_in (cpu_ptr b) (unat (rb_size b)) (unat (ring_offset b (rb_tail b))) data (unat sz) m,
     b\<lparr>rb_tail := rb_tail b + sz\<rparr>, sz)"
proof -
  let ?off = "ring_offset b (rb_tail b)"
  note len = unat_size_minus_offset [OF wf, of "rb_tail b"]
  have le: "sz \<le> rb_size b - ?off \<longleftrightarrow> unat ?off + unat sz \<le> unat (rb_size b)"
    using ring_offset_less [OF wf, of "rb_tail b"] by (auto simp: word_le_nat_alt len)
  have "unat (sz - (rb_size b - ?off)) = unat sz - unat (rb_size b - ?off)" if "\<not> sz \<le> rb_size b - ?off"
    using that by (simp add: word_le_nat_alt unat_sub)
  then show ?thesis
    using leD [OF sz] le by (simp add: acts_ringbuf_put_def Let_def ring_copy_in_def len)
qed

lemma peek_eq:
  assumes wf: "rb_wf b" and sz: "sz \<le> acts_ringbuf_length b"
  shows "acts_ringbuf_peek b data sz m =
    (ring_copy_out (cpu_ptr b) (unat (rb_size b)) (unat (ring_offset b (rb_head b))) data (unat sz) m, sz)"
proof -
  let ?off = "ring_offset b (rb_head b)"
  note len = unat_size_minus_offset [OF wf, of "rb_head b"]
  have le: "sz \<le> rb_size b - ?off \<longleftrightarrow> unat ?off + unat sz \<le> unat (rb_size b)"
    using ring_offset_less [OF wf, of "rb_head b"] by (auto simp: word_le_nat_alt len)
  have "unat (sz - (rb_size b - ?off)) = unat sz - unat (rb_size b - ?off)" if "\<not> sz \<le> rb_size b - ?off"
    using that by (simp add: word_le_nat_alt unat_sub)
  then show ?thesis
    using leD [OF sz] le by (simp add: acts_ringbuf_peek_def Let_def ring_copy_out_def len)
qed

section \<open>The ring buffer as a first-in first-out buffer\<close>

definition ringbuf_inv :: "nat \<Rightarrow> mem \<times> acts_ringbuf \<Rightarrow> bool" where
  "ringbuf_inv data x \<longleftrightarrow> rb_ok (snd x)"

definition ringbuf_contents :: "mem \<times> acts_ringbuf \<Rightarrow> u8 list" where
  "ringbuf_contents x = rb_contents (snd x) (fst x)"

fun ringbuf_ok :: "nat \<Rightarrow> u8 fifo_op \<Rightarrow> mem \<times> acts_ringbuf \<Rightarrow> bool" where
  "ringbuf_ok data (Put xs) (m, b) \<longleftrightarrow>
     length xs \<le> unat (acts_ringbuf_space b) \<and> rb_disjoint b data (length xs) \<and>
     (is_power_of_two (rb_size b) \<or> unat (rb_tail b) + length xs < 2 ^ 32)"
| "ringbuf_ok data (Get n) (m, b) \<longleftrightarrow> n \<le> unat (acts_ringbuf_length b) \<and> rb_disjoint b data n"

definition ringbuf_put :: "nat \<Rightarrow> u8 list \<Rightarrow> mem \<times> acts_ringbuf \<Rightarrow> mem \<times> acts_ringbuf" where
  "ringbuf_put data xs x =
     (case acts_ringbuf_put (snd x) data (of_nat (length xs)) (mem_write data xs (fst x)) of
        (m, b, _) \<Rightarrow> (m, b))"

definition ringbuf_get :: "nat \<Rightarrow> nat \<Rightarrow> mem \<times> acts_ringbuf \<Rightarrow> u8 list \<times> mem \<times> acts_ringbuf" where
  "ringbuf_get data n x =
     (case acts_ringbuf_get (snd x) data (of_nat n) (fst x) of (m, b, _) \<Rightarrow> (mem_read data n m, (m, b)))"

lemma head_offset:
  assumes "rb_ok b" and "n \<le> unat (acts_ringbuf_length b)"
  shows "unat (rb_head b + of_nat n) mod unat (rb_size b) = (unat (rb_head b) + n) mod unat (rb_size b)"
proof (cases "is_power_of_two (rb_size b)")
  case True
  have "unat (rb_head b + of_nat n) = (unat (rb_head b) + n) mod 2 ^ 32"
    using unat_of_nat_le [OF assms(2)] by (simp add: unat_word_ariths)
  then show ?thesis
    using mod_mod_cancel [OF power_of_two_dvd [OF True]] by simp
next
  case False
  then have "rb_head b \<le> rb_tail b"
    using assms(1) by (simp add: rb_ok_def)
  then have "unat (rb_head b) + n < 2 ^ 32"
    using counter_sum [of "rb_head b" "rb_tail b"] unsigned_less [of "rb_tail b", where 'a = nat] assms(2)
    by (simp add: acts_ringbuf_length_def)
  then show ?thesis
    using unat_of_nat_le [OF assms(2)] by (simp add: unat_word_ariths)
qed

lemma length_after_put:
  assumes "rb_wf b" and "n \<le> unat (acts_ringbuf_space b)"
  shows "unat (rb_tail b + of_nat n - rb_head b) = unat (acts_ringbuf_length b) + n"
proof -
  have "unat (acts_ringbuf_length b) + n < 2 ^ 32"
    using assms length_space [OF assms(1)] unsigned_less [of "rb_size b", where 'a = nat] by simp
  moreover have eq: "rb_tail b + of_nat n - rb_head b = acts_ringbuf_length b + of_nat n"
    by (simp add: acts_ringbuf_length_def)
  ultimately show ?thesis
    unfolding eq using unat_of_nat_le [OF assms(2)] by (simp add: unat_word_ariths)
qed

lemma length_after_get:
  assumes "n \<le> unat (acts_ringbuf_length b)"
  shows "unat (rb_tail b - (rb_head b + of_nat n)) = unat (acts_ringbuf_length b) - n"
proof -
  have eq: "rb_tail b - (rb_head b + of_nat n) = acts_ringbuf_length b - of_nat n"
    by (simp add: acts_ringbuf_length_def)
  show ?thesis
    unfolding eq using unat_of_nat_le [OF assms] assms by (simp add: unat_sub word_le_nat_alt)
qed

lemma rb_ok_put:
  assumes ok: "rb_ok b" and n: "n \<le> unat (acts_ringbuf_space b)"
    and w: "is_power_of_two (rb_size b) \<or> unat (rb_tail b) + n < 2 ^ 32"
  shows "rb_ok (b\<lparr>rb_tail := rb_tail b + of_nat n\<rparr>)"
proof -
  have wf: "rb_wf b"
    using ok by (simp add: rb_ok_def)
  have "rb_head b \<le> rb_tail b + of_nat n" if "rb_head b \<le> rb_tail b" "unat (rb_tail b) + n < 2 ^ 32"
    using that unat_of_nat_le [OF n] by (simp add: word_le_nat_alt unat_word_ariths)
  then show ?thesis
    using ok w length_after_put [OF wf n] n length_space [OF wf]
    by (auto simp: rb_ok_def rb_wf_def word_le_nat_alt)
qed

lemma rb_ok_get:
  assumes ok: "rb_ok b" and n: "n \<le> unat (acts_ringbuf_length b)"
  shows "rb_ok (b\<lparr>rb_head := rb_head b + of_nat n\<rparr>)"
proof -
  have "rb_head b + of_nat n \<le> rb_tail b" if "rb_head b \<le> rb_tail b"
    using that unat_of_nat_le [OF n] n counter_sum [of "rb_head b" "rb_tail b"]
      unsigned_less [of "rb_tail b", where 'a = nat]
    by (simp add: word_le_nat_alt unat_word_ariths acts_ringbuf_length_def)
  then show ?thesis
    using ok length_after_get [OF n] by (auto simp: rb_ok_def rb_wf_def word_le_nat_alt acts_ringbuf_length_def)
qed

lemma ringbuf_put:
  assumes ok: "rb_ok b" and n: "length xs \<le> unat (acts_ringbuf_space b)" and d: "rb_disjoint b data (length xs)"
    and w: "is_power_of_two (rb_size b) \<or> unat (rb_tail b) + length xs < 2 ^ 32"
  shows "rb_ok (snd (ringbuf_put data xs (m, b)))"
    and "ringbuf_contents (ringbuf_put data xs (m, b)) = rb_contents b m @ xs"
proof -
  have wf: "rb_wf b"
    using ok by (simp add: rb_ok_def)
  let ?n = "of_nat (length xs) :: u32" and ?sz = "unat (rb_size b)"
  have u: "unat ?n = length xs"
    using n by (rule unat_of_nat_le)
  define m1 where "m1 = mem_write data xs m"
  have p: "ringbuf_put data xs (m, b) =
      (ring_copy_in (cpu_ptr b) ?sz (unat (ring_offset b (rb_tail b))) data (length xs) m1,
       b\<lparr>rb_tail := rb_tail b + ?n\<rparr>)"
    unfolding ringbuf_put_def m1_def using put_eq [OF wf, of ?n] n u by (simp add: word_le_nat_alt)
  have lp: "unat (rb_tail b + ?n - rb_head b) = unat (acts_ringbuf_length b) + length xs"
    using wf n by (rule length_after_put)
  have fit: "unat (acts_ringbuf_length b) + length xs \<le> ?sz"
    using n length_space [OF wf] by simp
  show "rb_ok (snd (ringbuf_put data xs (m, b)))"
    using rb_ok_put [OF ok n w] by (simp add: p)
  have pos: "0 < ?sz"
    using wf by (simp add: rb_wf_def word_less_nat_alt)
  have "ring (bytes_at (cpu_ptr b) m1) ?sz h k = ring (bytes_at (cpu_ptr b) m) ?sz h k" for h k
    using d pos by (intro ring_bytes_outside)
      (auto simp: m1_def rb_disjoint_def disjoint_areas_def mem_write_outside)
  then show "ringbuf_contents (ringbuf_put data xs (m, b)) = rb_contents b m @ xs"
    using ring_copy_in_append [OF d [unfolded rb_disjoint_def] fit pos, of "unat (rb_head b)" m1]
    by (simp add: ringbuf_contents_def p rb_contents_def acts_ringbuf_length_def lp tail_offset [OF ok] m1_def)
qed

lemma ringbuf_get:
  assumes ok: "rb_ok b" and n: "n \<le> unat (acts_ringbuf_length b)" and d: "rb_disjoint b data n"
  shows "rb_ok (snd (snd (ringbuf_get data n (m, b))))"
    and "rb_contents b m = fst (ringbuf_get data n (m, b)) @ ringbuf_contents (snd (ringbuf_get data n (m, b)))"
proof -
  have wf: "rb_wf b"
    using ok by (simp add: rb_ok_def)
  let ?n = "of_nat n :: u32" and ?sz = "unat (rb_size b)" and ?L = "unat (acts_ringbuf_length b)"
    and ?off = "unat (ring_offset b (rb_head b))"
  have u: "unat ?n = n"
    using n by (rule unat_of_nat_le)
  have nsz: "n \<le> ?sz" and off: "?off < ?sz"
    using n length_space(1) [OF wf] ring_offset_less [OF wf, of "rb_head b"] by simp_all
  note dj = d [unfolded rb_disjoint_def]
  define m1 where "m1 = ring_copy_out (cpu_ptr b) ?sz ?off data n m"
  have g: "ringbuf_get data n (m, b) = (mem_read data n m1, (m1, b\<lparr>rb_head := rb_head b + ?n\<rparr>))"
    using peek_eq [OF wf, of ?n] n u by (simp add: ringbuf_get_def acts_ringbuf_get_def m1_def word_le_nat_alt)
  note lg = length_after_get [OF n]
  show "rb_ok (snd (snd (ringbuf_get data n (m, b))))"
    using rb_ok_get [OF ok n] by (simp add: g)
  have rd: "mem_read data n m1 = ring (bytes_at (cpu_ptr b) m) ?sz (unat (rb_head b)) n"
    using ring_copy_out_eq(1) [OF dj off nsz, of m] by (simp add: m1_def ring_offset_mod [OF wf])
  have c: "ring (bytes_at (cpu_ptr b) m1) ?sz h k = ring (bytes_at (cpu_ptr b) m) ?sz h k" for h k
    unfolding m1_def by (rule ring_copy_out_ring [OF dj off nsz])
  have "ring (bytes_at (cpu_ptr b) m) ?sz (unat (rb_head b + ?n)) k =
      ring (bytes_at (cpu_ptr b) m) ?sz (unat (rb_head b) + n) k" for k
    using head_offset [OF ok n] by (rule ring_cong_mod)
  then show "rb_contents b m = fst (ringbuf_get data n (m, b)) @ ringbuf_contents (snd (ringbuf_get data n (m, b)))"
    using ring_append [of "bytes_at (cpu_ptr b) m" ?sz "unat (rb_head b)" n "?L - n"] n lg
    by (simp add: g rd ringbuf_contents_def rb_contents_def c u acts_ringbuf_length_def)
qed

interpretation ringbuf: fifo "ringbuf_inv data" ringbuf_contents "ringbuf_ok data" "ringbuf_put data" "ringbuf_get data"
  for data
proof (unfold_locales, goal_cases)
  case (1 x xs)
  then show ?case
    using ringbuf_put(1) [of "snd x" xs data "fst x"] by (cases x) (simp add: ringbuf_inv_def)
next
  case (2 x xs)
  then show ?case
    using ringbuf_put(2) [of "snd x" xs data "fst x"]
    by (cases x) (simp add: ringbuf_inv_def ringbuf_contents_def [of "(_, _)"])
next
  case (3 x n)
  then show ?case
    using ringbuf_get(1) [of "snd x" n data "fst x"] by (cases x) (simp add: ringbuf_inv_def)
next
  case (4 x n)
  then show ?case
    using ringbuf_get(2) [of "snd x" n data "fst x"]
    by (cases x) (simp add: ringbuf_inv_def ringbuf_contents_def [of "(_, _)"])
qed

section \<open>Copying between ring buffers\<close>

lemma unat_advance:
  fixes off len n :: u32
  assumes "len \<le> n - off" and "off < n"
  shows "unat (if off + len \<ge> n then 0 else off + len) = (unat off + unat len) mod unat n"
    "(if off + len \<ge> n then 0 else off + len) < n" "unat off + unat len \<le> unat n"
proof -
  have le: "unat off + unat len \<le> unat n"
    using assms by (simp add: word_le_nat_alt word_less_nat_alt unat_sub)
  moreover have "unat (off + len) = unat off + unat len"
    using le unsigned_less [of n, where 'a = nat] by (simp add: unat_word_ariths)
  ultimately show "unat (if off + len \<ge> n then 0 else off + len) = (unat off + unat len) mod unat n"
    "(if off + len \<ge> n then 0 else off + len) < n" "unat off + unat len \<le> unat n"
    using assms by (auto simp: word_le_nat_alt word_less_nat_alt)
qed

lemma copy_loop_effect:
  assumes "d < rb_size dst" and "so < rb_size src" and "sz \<le> rb_size dst" and "sz \<le> rb_size src" and "0 < sz"
    and "disjoint_areas (cpu_ptr dst) (unat (rb_size dst)) (cpu_ptr src) (unat (rb_size src))"
  shows "\<exists>m'. copy_loop dst src d so sz m = Some m' \<and>
    (\<forall>k<unat sz. m' (cpu_ptr dst + (unat d + k) mod unat (rb_size dst)) =
       m (cpu_ptr src + (unat so + k) mod unat (rb_size src))) \<and>
    (\<forall>x. (\<forall>k<unat sz. x \<noteq> cpu_ptr dst + (unat d + k) mod unat (rb_size dst)) \<longrightarrow> m' x = m x)"
  using assms
proof (induction dst src d so sz m rule: copy_loop.induct)
  case (1 dst src d so sz m)
  let ?D = "unat (rb_size dst)" and ?S = "unat (rb_size src)" and ?db = "cpu_ptr dst" and ?sb = "cpu_ptr src"
  define l where "l = min (rb_size src - so) (rb_size dst - d)"
  define len where "len = (if l > sz then sz else l)"
  define m1 where "m1 = memcpy (?db + unat d) (?sb + unat so) (unat len) m"
  let ?so = "if so + len \<ge> rb_size src then 0 else so + len"
  let ?d = "if d + len \<ge> rb_size dst then 0 else d + len"
  have unf: "copy_loop dst src d so sz m =
      (if sz - len = 0 then Some m1 else if len = 0 then None else copy_loop dst src ?d ?so (sz - len) m1)"
    by (subst copy_loop.simps) (simp only: Let_def l_def len_def m1_def)
  have "0 < rb_size src - so" "0 < rb_size dst - d"
    using "1.prems"(1,2) by (simp_all add: word_gt_0 order_less_imp_not_eq2)
  then have len: "len \<le> sz" "len \<le> rb_size src - so" "len \<le> rb_size dst - d" "0 < len"
    using "1.prems"(5) by (auto simp: len_def l_def min_def not_less)
  note ad = unat_advance [OF len(3) "1.prems"(1)] and as = unat_advance [OF len(2) "1.prems"(2)]
  have m1: "m1 (?db + (unat d + k)) = m (?sb + (unat so + k))" if "k < unat len" for k
    using that by (simp add: m1_def memcpy_def mem_write_def add.assoc)
  have m1_other: "m1 x = m x" if x: "\<forall>k<unat len. x \<noteq> ?db + (unat d + k)" for x
  proof -
    have "x < ?db + unat d \<or> ?db + unat d + unat len \<le> x"
      using x [rule_format, of "x - (?db + unat d)"] by linarith
    then show ?thesis
      by (simp add: m1_def memcpy_outside)
  qed
  have idx: "(unat d + k) mod ?D = unat d + k" "(unat so + k) mod ?S = unat so + k" if "k < unat len" for k
    using that ad(3) as(3) by simp_all
  show ?case
  proof (cases "sz = len")
    case True
    then show ?thesis
      using unf m1 m1_other idx by simp
  next
    case False
    have n: "unat (sz - len) = unat sz - unat len" "sz - len \<le> sz"
      using len(1) by (simp_all add: unat_sub word_le_nat_alt)
    have n2: "0 < sz - len"
      using False by (simp add: word_gt_0)
    have nz: "sz - len \<noteq> 0" "len \<noteq> 0" and le: "sz - len \<le> rb_size dst" "sz - len \<le> rb_size src"
      using False len(4) n(2) "1.prems"(3,4) by auto
    note ih = "1.IH" [OF l_def len_def m1_def nz refl refl ad(2) as(2) le n2 "1.prems"(6)]
    obtain m' where m': "copy_loop dst src ?d ?so (sz - len) m1 = Some m'"
      "\<And>k. k < unat sz - unat len \<Longrightarrow>
         m' (?db + (unat d + unat len + k) mod ?D) = m1 (?sb + (unat so + unat len + k) mod ?S)"
      "\<And>x. \<forall>k<unat sz - unat len. x \<noteq> ?db + (unat d + unat len + k) mod ?D \<Longrightarrow> m' x = m1 x"
      using ih n(1) unfolding ad(1) as(1) by (auto simp: mod_add_left_eq)
    have D: "unat sz \<le> ?D" "0 < ?S"
      using "1.prems"(2,3) by (auto simp: word_le_nat_alt word_less_nat_alt)
    have "m' (?db + (unat d + k) mod ?D) = m (?sb + (unat so + k) mod ?S)" if k: "k < unat sz" for k
    proof (cases "k < unat len")
      case True
      have "unat d + k \<noteq> (unat d + (unat len + j)) mod ?D" if "j < unat sz - unat len" for j
        using ring_slot_neq [of k "unat len" "unat len + j" ?D "unat d"] that True D(1) idx(1) [OF True] by simp
      then show ?thesis
        using m'(3) [of "?db + (unat d + k)"] m1 [OF True] idx [OF True] by (simp add: add.assoc)
    next
      case False
      have "?sb + (unat so + k) mod ?S \<noteq> ?db + (unat d + j)" if "j < unat len" for j
        using "1.prems"(6) ad(3) that mod_less_divisor [OF D(2), of "unat so + k"]
        by (auto simp: disjoint_areas_def)
      then show ?thesis
        using m'(2) [of "k - unat len"] k False m1_other [of "?sb + (unat so + k) mod ?S"] by simp
    qed
    moreover have "m' x = m x" if x: "\<forall>k<unat sz. x \<noteq> ?db + (unat d + k) mod ?D" for x
    proof -
      have "x \<noteq> ?db + (unat d + unat len + k) mod ?D" if "k < unat sz - unat len" for k
        using x that by (simp add: add.assoc)
      moreover have "x \<noteq> ?db + (unat d + k)" if "k < unat len" for k
        using x idx(1) [OF that] that len(1) by (metis less_le_trans word_le_nat_alt)
      ultimately show ?thesis
        using m'(3) m1_other by simp
    qed
    ultimately show ?thesis
      using unf m'(1) False len(4) by auto
  qed
qed

lemma copy_effect:
  assumes ok: "rb_ok dst" "rb_ok src"
    and dj: "disjoint_areas (cpu_ptr dst) (unat (rb_size dst)) (cpu_ptr src) (unat (rb_size src))"
    and n: "n = min (unat sz) (min (unat (acts_ringbuf_length src)) (unat (acts_ringbuf_space dst)))"
    and w: "is_power_of_two (rb_size dst) \<or> unat (rb_tail dst) + n < 2 ^ 32"
  shows "\<exists>m' dst' src'. acts_ringbuf_copy dst src sz m = Some (m', dst', src', of_nat n) \<and>
    rb_ok dst' \<and> rb_ok src' \<and> rb_contents dst' m' = rb_contents dst m @ take n (rb_contents src m) \<and>
    rb_contents src' m' = drop n (rb_contents src m)"
proof -
  have wf: "rb_wf dst" "rb_wf src"
    using ok by (simp_all add: rb_ok_def)
  let ?D = "unat (rb_size dst)" and ?S = "unat (rb_size src)"
    and ?L = "unat (acts_ringbuf_length dst)" and ?M = "unat (acts_ringbuf_length src)"
  note ls = length_space [OF wf(1)] and lsrc = length_space [OF wf(2)]
  have nle: "n \<le> unat sz" "n \<le> ?M" "n \<le> unat (acts_ringbuf_space dst)" "?L + n \<le> ?D" "n \<le> ?S"
    using n ls lsrc by auto
  define N :: u32 where "N = of_nat n"
  have N: "unat N = n"
    using unat_of_nat_le [OF nle(1)] by (simp add: N_def)
  have sz: "(let sz = if sz > acts_ringbuf_length src then acts_ringbuf_length src else sz
      in if sz > acts_ringbuf_space dst then acts_ringbuf_space dst else sz) = N"
    by (rule word_unat_eq_iff [THEN iffD2]) (simp add: N n word_less_nat_alt Let_def)
  have D: "0 < ?D" "0 < ?S"
    using wf by (simp_all add: rb_wf_def word_less_nat_alt)
  define dst' src' where "dst' = dst\<lparr>rb_tail := rb_tail dst + N\<rparr>" and "src' = src\<lparr>rb_head := rb_head src + N\<rparr>"
  have len': "unat (acts_ringbuf_length dst') = ?L + n" "unat (acts_ringbuf_length src') = ?M - n"
    using length_after_put [OF wf(1) nle(3)] length_after_get [OF nle(2)]
    by (simp_all add: dst'_def src'_def N_def acts_ringbuf_length_def)
  have "\<exists>m'. acts_ringbuf_copy dst src sz m = Some (m', dst', src', N) \<and>
    (\<forall>k<n. m' (cpu_ptr dst + (unat (rb_head dst) + ?L + k) mod ?D) =
       m (cpu_ptr src + (unat (rb_head src) + k) mod ?S)) \<and>
    (\<forall>x. (\<forall>k<n. x \<noteq> cpu_ptr dst + (unat (rb_head dst) + ?L + k) mod ?D) \<longrightarrow> m' x = m x)"
  proof (cases "N = 0")
    case True
    then have "n = 0"
      using N by simp
    then show ?thesis
      using sz True by (auto simp: acts_ringbuf_copy_def Let_def dst'_def src'_def)
  next
    case False
    have "ring_offset dst (rb_tail dst) < rb_size dst" "ring_offset src (rb_head src) < rb_size src"
      "N \<le> rb_size dst" "N \<le> rb_size src"
      using ring_offset_less wf nle(4,5) by (simp_all add: word_less_nat_alt word_le_nat_alt N)
    moreover have "0 < N"
      using False by (simp add: word_gt_0)
    ultimately have cl: "\<exists>m'. copy_loop dst src (ring_offset dst (rb_tail dst)) (ring_offset src (rb_head src)) N m = Some m' \<and>
        (\<forall>k<unat N. m' (cpu_ptr dst + (unat (ring_offset dst (rb_tail dst)) + k) mod ?D) =
           m (cpu_ptr src + (unat (ring_offset src (rb_head src)) + k) mod ?S)) \<and>
        (\<forall>x. (\<forall>k<unat N. x \<noteq> cpu_ptr dst + (unat (ring_offset dst (rb_tail dst)) + k) mod ?D) \<longrightarrow> m' x = m x)"
      using dj by (intro copy_loop_effect)
    show ?thesis
      using cl False sz
      by (auto simp: acts_ringbuf_copy_def Let_def dst'_def src'_def N tail_offset [OF ok(1)] ring_offset_mod wf
          mod_add_left_eq)
  qed
  then obtain m' where m': "acts_ringbuf_copy dst src sz m = Some (m', dst', src', N)"
    "\<And>k. k < n \<Longrightarrow> m' (cpu_ptr dst + (unat (rb_head dst) + ?L + k) mod ?D) =
       m (cpu_ptr src + (unat (rb_head src) + k) mod ?S)"
    "\<And>x. \<forall>k<n. x \<noteq> cpu_ptr dst + (unat (rb_head dst) + ?L + k) mod ?D \<Longrightarrow> m' x = m x"
    by blast
  have old: "ring (bytes_at (cpu_ptr dst) m') ?D (unat (rb_head dst)) ?L = rb_contents dst m"
    unfolding rb_contents_def
  proof (rule ring_update_free [OF nle(4)])
    fix j assume "\<And>i. i < n \<Longrightarrow> j \<noteq> (unat (rb_head dst) + ?L + i) mod ?D"
    then show "m' (cpu_ptr dst + j) = m (cpu_ptr dst + j)"
      by (intro m'(3)) simp
  qed
  have new: "ring (bytes_at (cpu_ptr dst) m') ?D (unat (rb_head dst) + ?L) n = take n (rb_contents src m)"
    using nle(2) m'(2) by (intro nth_equalityI) (simp_all add: rb_contents_def)
  have "rb_contents dst' m' = rb_contents dst m @ take n (rb_contents src m)"
    unfolding rb_contents_def [of dst'] len' using old new by (simp add: dst'_def ring_append)
  moreover have "rb_contents src' m' = drop n (rb_contents src m)"
  proof -
    have "m' x = m x" if x: "cpu_ptr src \<le> x" "x < cpu_ptr src + ?S" for x
    proof (rule m'(3), intro allI impI)
      fix k
      show "x \<noteq> cpu_ptr dst + (unat (rb_head dst) + ?L + k) mod ?D"
        using x dj mod_less_divisor [OF D(1), of "unat (rb_head dst) + ?L + k"] by (auto simp: disjoint_areas_def)
    qed
    then have "ring (bytes_at (cpu_ptr src) m') ?S h k = ring (bytes_at (cpu_ptr src) m) ?S h k" for h k
      using D(2) by (intro ring_bytes_outside)
    then show ?thesis
      unfolding rb_contents_def len' using ring_cong_mod [OF head_offset [OF ok(2) nle(2)]] nle(2)
      by (simp add: src'_def ring_drop N_def)
  qed
  ultimately show ?thesis
    using m'(1) rb_ok_put [OF ok(1) nle(3) w] rb_ok_get [OF ok(2) nle(2)]
    by (auto simp: N_def dst'_def src'_def)
qed


section \<open>Properties\<close>

text \<open>
  C5: The ring buffer is a first-in first-out byte stream. With a size that is a power of
  two, after any sequence of puts (that fit) and gets (of what is there), of any total
  length, hence also when the 32-bit counters wrap, the bytes read followed by those still
  stored are the bytes that were stored followed by those written; with any other size the
  same holds while the write counter stays below \<open>2 ^ 32\<close>.
\<close>

theorem acts_ringbuf_stream:
  assumes "rb_ok b" and "run_fifo (ringbuf_ok data) (ringbuf_put data) (ringbuf_get data) ops (m, b) = Some (out, (m', b'))"
  shows "rb_ok b' \<and> rb_contents b m @ fifo_input ops = out @ rb_contents b' m'"
  using ringbuf.conservation [of data "(m, b)" ops out "(m', b')"] assms
  by (simp add: ringbuf_inv_def ringbuf_contents_def)

lemmas ringbuf_eval = ringbuf_put_def ringbuf_get_def acts_ringbuf_put_def acts_ringbuf_get_def
  acts_ringbuf_peek_def acts_ringbuf_space_def acts_ringbuf_length_def acts_ringbuf_init_def ring_offset_def
  rb_ok_def rb_wf_def rb_contents_def ring_def rb_disjoint_def disjoint_areas_def is_power_of_two_def
  memcpy_def mem_write_def mem_read_def upt_rec Let_def

definition ringbuf4 :: acts_ringbuf where
  "ringbuf4 = (acts_ringbuf_init (\<lambda>_. 0) 64 4)\<lparr>rb_head := - 2, rb_tail := - 2\<rparr>"

lemma ringbuf4_ok:
  "rb_ok ringbuf4" "rb_contents ringbuf4 m = []" "is_power_of_two (rb_size ringbuf4)"
  by (simp_all add: ringbuf4_def ringbuf_eval)

theorem acts_ringbuf_stream_witness:
  "case run_fifo (ringbuf_ok 8) (ringbuf_put 8) (ringbuf_get 8) [Put [1, 2, 3], Get 2, Put [4, 5, 6]] ((\<lambda>_. 0), ringbuf4) of
     Some (out, (m, b)) \<Rightarrow> out @ rb_contents b m = [1, 2, 3, 4, 5, 6] | None \<Rightarrow> False"
proof -
  let ?r = "run_fifo (ringbuf_ok 8) (ringbuf_put 8) (ringbuf_get 8) [Put [1, 2, 3], Get 2, Put [4, 5, 6]] ((\<lambda>_. 0), ringbuf4)"
  have "\<exists>out m b. ?r = Some (out, (m, b))"
    by (simp add: ringbuf4_def ringbuf_eval)
  then obtain out m b where r: "?r = Some (out, (m, b))"
    by blast
  show ?thesis
    unfolding r using acts_ringbuf_stream [OF ringbuf4_ok(1) r] ringbuf4_ok(2) by simp
qed

text \<open>
  The wrap of the counters with a size that is not a power of two. In a buffer of three
  bytes whose counters are about to wrap, two bytes are put one after the other; both puts
  succeed, but the second byte is stored over the first, which is lost.
\<close>

theorem acts_ringbuf_wrap_loses_data:
  "let b = (acts_ringbuf_init (\<lambda>_. 0) 64 3)\<lparr>rb_head := 0xFFFFFFFF, rb_tail := 0xFFFFFFFF\<rparr>;
       (m1, b1) = ringbuf_put 8 [1] ((\<lambda>_. 0), b);
       (m2, b2) = ringbuf_put 8 [2] (m1, b1)
   in rb_ok b \<and> rb_contents b1 m1 = [1] \<and> acts_ringbuf_length b2 = 2 \<and>
      fst (ringbuf_get 8 2 (m2, b2)) = [2, 0]"
  by (simp add: ringbuf_eval)

text \<open>
  C24: Copying between ring buffers. \<open>acts_ringbuf_copy\<close> of two well formed buffers at
  disjoint addresses ends and is the same as taking the bytes from the source one by one and
  appending them to the destination: \<open>n\<close> bytes move, where \<open>n\<close> is the smallest of the
  requested size, the length of the source and the space of the destination.
\<close>

theorem acts_ringbuf_copy_moves:
  assumes "rb_ok dst" and "rb_ok src"
    and "disjoint_areas (cpu_ptr dst) (unat (rb_size dst)) (cpu_ptr src) (unat (rb_size src))"
    and "n = min (unat sz) (min (unat (acts_ringbuf_length src)) (unat (acts_ringbuf_space dst)))"
    and "is_power_of_two (rb_size dst) \<or> unat (rb_tail dst) + n < 2 ^ 32"
  shows "\<exists>m' dst' src'. acts_ringbuf_copy dst src sz m = Some (m', dst', src', of_nat n) \<and>
    rb_ok dst' \<and> rb_ok src' \<and> rb_contents dst' m' = rb_contents dst m @ take n (rb_contents src m) \<and>
    rb_contents src' m' = drop n (rb_contents src m)"
  using assms by (rule copy_effect)

definition ringbuf8 :: acts_ringbuf where
  "ringbuf8 = (acts_ringbuf_init (\<lambda>_. 0) 128 8)\<lparr>rb_head := 6, rb_tail := 11\<rparr>"

theorem acts_ringbuf_copy_moves_witness:
  "\<exists>m' dst' src'. acts_ringbuf_copy ringbuf4 ringbuf8 10 (\<lambda>a. of_nat a) = Some (m', dst', src', 4) \<and>
     rb_contents dst' m' = [134, 135, 128, 129] \<and> rb_contents src' m' = [130]"
proof -
  have "rb_ok ringbuf8" "rb_contents ringbuf8 (\<lambda>a. of_nat a) = [134, 135, 128, 129, 130]"
    "disjoint_areas (cpu_ptr ringbuf4) (unat (rb_size ringbuf4)) (cpu_ptr ringbuf8) (unat (rb_size ringbuf8))"
    "4 = min (unat (10 :: u32)) (min (unat (acts_ringbuf_length ringbuf8)) (unat (acts_ringbuf_space ringbuf4)))"
    by (simp_all add: ringbuf4_def ringbuf8_def ringbuf_eval)
  then show ?thesis
    using acts_ringbuf_copy_moves [of ringbuf4 ringbuf8 4 10 "\<lambda>a. of_nat a"] ringbuf4_ok by auto
qed

end
