(* ===== verification/Cbuf.thy ===== *)
theory Cbuf
  imports Ring
begin

text \<open>
  The circular buffer of lib/utils/source/cbuf/cbuf.c and lib/utils/include/cbuf.h. Its
  positions wrap at the capacity and its fill level is a separate field. The fields are the
  32-bit words of the structure; where C compares them as signed numbers the comparison is
  on \<open>sint\<close>. A pointer to a buffer is an option (NULL is None); a data pointer is an address
  (NULL is 0).
\<close>

record cbuf_t =
  cb_read_ptr :: u32
  cb_write_ptr :: u32
  cb_length :: u32
  cb_capacity :: u32
  raw_data :: nat

record cbuf_dma_t =
  start_addr :: nat
  dma_read_len :: u32

section \<open>Operations\<close>

definition cbuf_get_used_space :: "cbuf_t option \<Rightarrow> u32" where
  "cbuf_get_used_space cbuf = (case cbuf of None \<Rightarrow> 0 | Some c \<Rightarrow> cb_length c)"

definition cbuf_get_free_space :: "cbuf_t option \<Rightarrow> u32" where
  "cbuf_get_free_space cbuf = (case cbuf of None \<Rightarrow> 0 | Some c \<Rightarrow> cb_capacity c - cb_length c)"

definition cbuf_is_init :: "cbuf_t option \<Rightarrow> bool" where
  "cbuf_is_init cbuf = (case cbuf of None \<Rightarrow> False | Some c \<Rightarrow> cb_capacity c \<noteq> 0)"

definition cbuf_is_ptr_valid :: "cbuf_t \<Rightarrow> nat \<Rightarrow> bool" where
  "cbuf_is_ptr_valid c p \<longleftrightarrow> p \<ge> raw_data c \<and> p \<le> raw_data c + unat (cb_capacity c)"

definition cbuf_get_buffer_ptr :: "cbuf_t \<Rightarrow> nat" where
  "cbuf_get_buffer_ptr c = raw_data c"

definition cbuf_read :: "cbuf_t option \<Rightarrow> nat \<Rightarrow> u32 \<Rightarrow> mem \<Rightarrow> mem \<times> cbuf_t option \<times> u32" where
  "cbuf_read cbuf buffer len m =
     (case cbuf of
        None \<Rightarrow> (m, None, 0)
      | Some c \<Rightarrow>
          if sint (cb_length c) < sint len then (m, Some c, 0)
          else
            let c = (if cb_read_ptr c \<ge> cb_capacity c then c\<lparr>cb_read_ptr := 0\<rparr> else c)
            in if buffer = 0 then
                 let c = c\<lparr>cb_read_ptr := cb_read_ptr c + len\<rparr>;
                     c = (if cb_capacity c \<noteq> 0 then c\<lparr>cb_read_ptr := cb_read_ptr c mod cb_capacity c\<rparr> else c)
                 in (m, Some (c\<lparr>cb_length := cb_length c - len\<rparr>), len)
               else
                 let read_len = len;
                     copy_len = cb_capacity c - cb_read_ptr c;
                     copy_len = (if sint copy_len > sint len then len else copy_len);
                     len = len - copy_len;
                     m = memcpy buffer (raw_data c + unat (cb_read_ptr c)) (unat copy_len) m;
                     (m, c) =
                       (if len = 0 then (m, c\<lparr>cb_read_ptr := cb_read_ptr c + copy_len\<rparr>)
                        else (memcpy (buffer + unat copy_len) (raw_data c) (unat len) m, c\<lparr>cb_read_ptr := len\<rparr>))
                 in (m, Some (c\<lparr>cb_length := cb_length c - read_len\<rparr>), read_len))"

definition cbuf_dma_read :: "cbuf_t option \<Rightarrow> cbuf_dma_t \<Rightarrow> u32 \<Rightarrow> cbuf_t option \<times> cbuf_dma_t \<times> u32" where
  "cbuf_dma_read cbuf dma read_len =
     (case cbuf of
        None \<Rightarrow> (None, dma\<lparr>dma_read_len := 0\<rparr>, 0)
      | Some c \<Rightarrow>
          if sint (cb_length c) < sint read_len then (Some c, dma\<lparr>dma_read_len := 0\<rparr>, 0)
          else
            let c = (if cb_read_ptr c \<ge> cb_capacity c then c\<lparr>cb_read_ptr := 0\<rparr> else c);
                copy_len = cb_capacity c - cb_read_ptr c;
                copy_len = (if copy_len > read_len then read_len else copy_len)
            in (Some c, dma\<lparr>dma_read_len := copy_len, start_addr := raw_data c + unat (cb_read_ptr c)\<rparr>, read_len))"

definition cbuf_dma_update_read_ptr :: "cbuf_t \<Rightarrow> u32 \<Rightarrow> cbuf_t" where
  "cbuf_dma_update_read_ptr c read_len =
     c\<lparr>cb_read_ptr := cb_read_ptr c + read_len, cb_length := cb_length c - read_len\<rparr>"

definition cbuf_prepare_read :: "cbuf_t option \<Rightarrow> nat \<Rightarrow> u32 \<Rightarrow> mem \<Rightarrow> mem \<times> cbuf_t option \<times> u32" where
  "cbuf_prepare_read cbuf buffer len m =
     (case cbuf of
        None \<Rightarrow> (m, None, 0)
      | Some c \<Rightarrow>
          if sint (cb_length c) < sint len then (m, Some c, 0)
          else if buffer = 0 then (m, Some c, 0)
          else
            let read_len = len;
                c = (if cb_read_ptr c \<ge> cb_capacity c then c\<lparr>cb_read_ptr := 0\<rparr> else c);
                copy_len = cb_capacity c - cb_read_ptr c;
                copy_len = (if sint copy_len > sint len then len else copy_len);
                len = len - copy_len;
                m = memcpy buffer (raw_data c + unat (cb_read_ptr c)) (unat copy_len) m;
                m = (if len \<noteq> 0 then memcpy (buffer + unat copy_len) (raw_data c) (unat len) m else m)
            in (m, Some c, read_len))"

definition cbuf_write :: "cbuf_t option \<Rightarrow> nat \<Rightarrow> u32 \<Rightarrow> mem \<Rightarrow> mem \<times> cbuf_t option \<times> u32" where
  "cbuf_write cbuf buffer len m =
     (case cbuf of
        None \<Rightarrow> (m, None, 0)
      | Some c \<Rightarrow>
          if len = 0 \<or> len > cb_capacity c then (m, Some c, 0)
          else if cb_capacity c - cb_length c < len then (m, Some c, 0)
          else
            let c = (if cb_write_ptr c \<ge> cb_capacity c then c\<lparr>cb_write_ptr := 0\<rparr> else c);
                write_len = cb_capacity c - cb_write_ptr c;
                (m, c) =
                  (if write_len \<ge> len then
                     (memcpy (raw_data c + unat (cb_write_ptr c)) buffer (unat len) m,
                      c\<lparr>cb_write_ptr := cb_write_ptr c + len\<rparr>)
                   else
                     let rem_len = len - write_len;
                         m = memcpy (raw_data c + unat (cb_write_ptr c)) buffer (unat write_len) m;
                         m = memcpy (raw_data c) (buffer + unat write_len) (unat rem_len) m
                     in (m, c\<lparr>cb_write_ptr := rem_len\<rparr>))
            in (m, Some (c\<lparr>cb_length := cb_length c + len\<rparr>), len))"

definition cbuf_init :: "nat \<Rightarrow> u32 \<Rightarrow> cbuf_t \<Rightarrow> cbuf_t" where
  "cbuf_init buffer sz c =
     c\<lparr>raw_data := buffer, cb_capacity := sz, cb_write_ptr := 0, cb_read_ptr := 0, cb_length := 0\<rparr>"

definition cbuf_reset :: "cbuf_t \<Rightarrow> cbuf_t" where
  "cbuf_reset c = c\<lparr>cb_write_ptr := 0, cb_read_ptr := 0, cb_length := 0\<rparr>"

definition cbuf_copy_write_ptr :: "cbuf_t \<Rightarrow> cbuf_t \<Rightarrow> u32 \<Rightarrow> cbuf_t" where
  "cbuf_copy_write_ptr src dest len =
     dest\<lparr>cb_write_ptr := cb_write_ptr src, cb_length := cb_length dest + len\<rparr>"

definition cbuf_deinit :: "cbuf_t \<Rightarrow> cbuf_t" where
  "cbuf_deinit c = \<lparr>cb_read_ptr = 0, cb_write_ptr = 0, cb_length = 0, cb_capacity = 0, raw_data = 0\<rparr>"

section \<open>Well-formed buffers\<close>

definition cbuf_wf :: "cbuf_t \<Rightarrow> bool" where
  "cbuf_wf c \<longleftrightarrow> 0 < unat (cb_capacity c) \<and> unat (cb_capacity c) < 2 ^ 31 \<and>
     unat (cb_read_ptr c) \<le> unat (cb_capacity c) \<and> unat (cb_write_ptr c) \<le> unat (cb_capacity c) \<and>
     unat (cb_length c) \<le> unat (cb_capacity c) \<and>
     (unat (cb_read_ptr c) + unat (cb_length c)) mod unat (cb_capacity c) =
       unat (cb_write_ptr c) mod unat (cb_capacity c)"

definition cbuf_contents :: "cbuf_t \<Rightarrow> mem \<Rightarrow> u8 list" where
  "cbuf_contents c m =
     ring (bytes_at (raw_data c) m) (unat (cb_capacity c)) (unat (cb_read_ptr c)) (unat (cb_length c))"

abbreviation cbuf_disjoint :: "cbuf_t \<Rightarrow> nat \<Rightarrow> nat \<Rightarrow> bool" where
  "cbuf_disjoint c data n \<equiv> disjoint_areas (raw_data c) (unat (cb_capacity c)) data n"

text \<open>The position as the operations first bring it into the buffer.\<close>

definition wrapped :: "u32 \<Rightarrow> u32 \<Rightarrow> u32" where
  "wrapped p cap = (if p \<ge> cap then 0 else p)"

lemma sint_small:
  fixes w :: u32
  assumes "unat w < 2 ^ 31"
  shows "sint w = uint w"
proof -
  obtain k where k: "unat w = k" and u: "uint w = int k"
    by (simp only: uint_nat)
  have "- (2 ^ 31) \<le> uint w" "uint w < 2 ^ 31"
    unfolding u using assms unfolding k by simp_all
  then have "signed_take_bit 31 (uint w) = uint w"
    by (rule signed_take_bit_int_eq_self)
  then show ?thesis
    by (simp only: sint_uint) simp
qed

lemma sint_less_small:
  fixes v w :: u32
  assumes "unat v < 2 ^ 31" and "unat w < 2 ^ 31"
  shows "sint v < sint w \<longleftrightarrow> unat v < unat w"
  using sint_small [OF assms(1)] sint_small [OF assms(2)] by (simp add: word_less_nat_alt flip: word_less_def)

lemma wrapped_mod:
  assumes "unat p \<le> unat cap" and "0 < unat cap"
  shows "unat (wrapped p cap) = unat p mod unat cap" and "unat (wrapped p cap) < unat cap"
  using assms by (auto simp: wrapped_def word_le_nat_alt)

lemma wrapped_read: "(if cb_read_ptr c \<ge> cb_capacity c then c\<lparr>cb_read_ptr := 0\<rparr> else c) =
    c\<lparr>cb_read_ptr := wrapped (cb_read_ptr c) (cb_capacity c)\<rparr>"
  by (simp add: wrapped_def)

lemma wrapped_write: "(if cb_write_ptr c \<ge> cb_capacity c then c\<lparr>cb_write_ptr := 0\<rparr> else c) =
    c\<lparr>cb_write_ptr := wrapped (cb_write_ptr c) (cb_capacity c)\<rparr>"
  by (simp add: wrapped_def)

text \<open>The position after a read or write of \<open>n\<close> bytes: in one piece, or the rest of the second piece.\<close>

definition moved :: "u32 \<Rightarrow> u32 \<Rightarrow> u32 \<Rightarrow> u32" where
  "moved p cap n = (if cap - p \<ge> n then p + n else n - (cap - p))"

lemma moved_mod:
  assumes "unat p < unat cap" and "unat n \<le> unat cap"
  shows "unat (moved p cap n) mod unat cap = (unat p + unat n) mod unat cap" and "unat (moved p cap n) \<le> unat cap"
proof -
  have "unat (cap - p) = unat cap - unat p"
    using assms(1) by (simp add: unat_sub word_le_nat_alt)
  then have "unat (moved p cap n) = (if unat p + unat n \<le> unat cap then unat p + unat n else unat n - (unat cap - unat p))"
    using assms unsigned_less [of cap, where 'a = nat]
    by (auto simp: moved_def word_le_nat_alt unat_sub unat_word_ariths)
  then show "unat (moved p cap n) mod unat cap = (unat p + unat n) mod unat cap" "unat (moved p cap n) \<le> unat cap"
    using assms by (auto simp: le_mod_geq)
qed

lemma unat_le_sub:
  fixes p cap n :: u32
  assumes "unat p < unat cap"
  shows "n \<le> cap - p \<longleftrightarrow> unat p + unat n \<le> unat cap" and "unat (cap - p) = unat cap - unat p"
proof -
  show "unat (cap - p) = unat cap - unat p"
    using assms by (simp add: unat_sub word_le_nat_alt)
  then show "n \<le> cap - p \<longleftrightarrow> unat p + unat n \<le> unat cap"
    using assms by (auto simp: word_le_nat_alt)
qed

lemma cbuf_read_eq:
  assumes wf: "cbuf_wf c" and b: "buffer \<noteq> 0" and n: "unat len \<le> unat (cb_length c)"
    and off: "off = wrapped (cb_read_ptr c) (cb_capacity c)"
  shows "cbuf_read (Some c) buffer len m =
    (ring_copy_out (raw_data c) (unat (cb_capacity c)) (unat off) buffer (unat len) m,
     Some (c\<lparr>cb_read_ptr := moved off (cb_capacity c) len, cb_length := cb_length c - len\<rparr>), len)"
proof -
  have o: "unat off < unat (cb_capacity c)"
    using wf wrapped_mod(2) by (simp add: cbuf_wf_def off)
  note le = unat_le_sub [OF o]
  have len: "unat len < 2 ^ 31" and small: "unat (cb_length c) < 2 ^ 31" "unat (cb_capacity c - off) < 2 ^ 31"
    using wf n by (auto simp: cbuf_wf_def le)
  have c: "\<not> sint (cb_length c) < sint len"
    "sint (cb_capacity c - off) > sint len \<longleftrightarrow> unat off + unat len < unat (cb_capacity c)"
    using n o by (auto simp: sint_less_small [OF len small(2)] sint_less_small [OF small(1) len] le)
  show ?thesis
  proof (cases "unat off + unat len \<le> unat (cb_capacity c)")
    case True
    then have "\<not> unat off + unat len < unat (cb_capacity c) \<longrightarrow> cb_capacity c - off = len"
      by (auto intro!: word_unat_eq_iff [THEN iffD2] simp: le)
    then show ?thesis
      using True c(1) b
      by (auto simp: cbuf_read_def Let_def wrapped_read ring_copy_out_def moved_def le c(2) simp flip: off)
  next
    case False
    have "len - (cb_capacity c - off) \<noteq> 0"
      using False le by auto
    moreover have "unat (len - (cb_capacity c - off)) = unat len - (unat (cb_capacity c) - unat off)"
      using False le by (subst unat_sub) (auto simp: word_le_nat_alt)
    ultimately show ?thesis
      using False c(1) b
      by (simp add: cbuf_read_def Let_def wrapped_read ring_copy_out_def moved_def le c(2) flip: off)
  qed
qed

lemma cbuf_write_eq:
  assumes wf: "cbuf_wf c" and n: "len \<noteq> 0" "unat (cb_length c) + unat len \<le> unat (cb_capacity c)"
    and off: "off = wrapped (cb_write_ptr c) (cb_capacity c)"
  shows "cbuf_write (Some c) buffer len m =
    (ring_copy_in (raw_data c) (unat (cb_capacity c)) (unat off) buffer (unat len) m,
     Some (c\<lparr>cb_write_ptr := moved off (cb_capacity c) len, cb_length := cb_length c + len\<rparr>), len)"
proof -
  have o: "unat off < unat (cb_capacity c)"
    using wf wrapped_mod(2) by (simp add: cbuf_wf_def off)
  note le = unat_le_sub [OF o]
  have "unat (cb_capacity c - cb_length c) = unat (cb_capacity c) - unat (cb_length c)"
    using n(2) by (simp add: unat_sub word_le_nat_alt)
  then have c: "\<not> len > cb_capacity c" "\<not> cb_capacity c - cb_length c < len"
    using n(2) by (simp_all add: word_less_nat_alt)
  show ?thesis
  proof (cases "unat off + unat len \<le> unat (cb_capacity c)")
    case True
    then show ?thesis
      using c n(1) by (simp add: cbuf_write_def Let_def wrapped_write ring_copy_in_def moved_def le flip: off)
  next
    case False
    moreover have "unat (len - (cb_capacity c - off)) = unat len - (unat (cb_capacity c) - unat off)"
      using False le by (subst unat_sub) (auto simp: word_le_nat_alt)
    ultimately show ?thesis
      using c n(1) by (simp add: cbuf_write_def Let_def wrapped_write ring_copy_in_def moved_def le flip: off)
  qed
qed

section \<open>The buffer as a first-in first-out buffer\<close>

definition cbuf_inv :: "mem \<times> cbuf_t \<Rightarrow> bool" where
  "cbuf_inv x \<longleftrightarrow> cbuf_wf (snd x)"

definition cbuf_abs :: "mem \<times> cbuf_t \<Rightarrow> u8 list" where
  "cbuf_abs x = cbuf_contents (snd x) (fst x)"

fun cbuf_ok :: "nat \<Rightarrow> u8 fifo_op \<Rightarrow> mem \<times> cbuf_t \<Rightarrow> bool" where
  "cbuf_ok data (Put xs) (m, c) \<longleftrightarrow> xs \<noteq> [] \<and> unat (cb_length c) + length xs \<le> unat (cb_capacity c) \<and>
     cbuf_disjoint c data (length xs)"
| "cbuf_ok data (Get n) (m, c) \<longleftrightarrow> n \<le> unat (cb_length c) \<and> data \<noteq> 0 \<and> cbuf_disjoint c data n"

definition cbuf_put :: "nat \<Rightarrow> u8 list \<Rightarrow> mem \<times> cbuf_t \<Rightarrow> mem \<times> cbuf_t" where
  "cbuf_put data xs x =
     (case cbuf_write (Some (snd x)) data (of_nat (length xs)) (mem_write data xs (fst x)) of
        (m, c, _) \<Rightarrow> (m, the c))"

definition cbuf_take :: "nat \<Rightarrow> nat \<Rightarrow> mem \<times> cbuf_t \<Rightarrow> u8 list \<times> mem \<times> cbuf_t" where
  "cbuf_take data n x =
     (case cbuf_read (Some (snd x)) data (of_nat n) (fst x) of (m, c, _) \<Rightarrow> (mem_read data n m, (m, the c)))"

lemma cbuf_put:
  assumes wf: "cbuf_wf c" and xs: "xs \<noteq> []" and n: "unat (cb_length c) + length xs \<le> unat (cb_capacity c)"
    and d: "cbuf_disjoint c data (length xs)"
  shows "cbuf_wf (snd (cbuf_put data xs (m, c))) \<and> cbuf_abs (cbuf_put data xs (m, c)) = cbuf_contents c m @ xs"
proof -
  let ?n = "of_nat (length xs) :: u32" and ?cap = "unat (cb_capacity c)" and ?L = "unat (cb_length c)"
  define off where "off = wrapped (cb_write_ptr c) (cb_capacity c)"
  define m1 where "m1 = mem_write data xs m"
  have u: "unat ?n = length xs"
    using n by (intro unat_of_nat_le [of _ "cb_capacity c"]) simp
  have pos: "0 < ?cap"
    using wf by (simp add: cbuf_wf_def)
  have o: "unat off = (unat (cb_read_ptr c) + ?L) mod ?cap" "unat off < ?cap"
    using wf wrapped_mod [of "cb_write_ptr c" "cb_capacity c"] by (simp_all add: cbuf_wf_def off_def)
  have nz: "?n \<noteq> 0"
    using xs u by (metis length_0_conv unat_0)
  have p: "cbuf_put data xs (m, c) =
      (ring_copy_in (raw_data c) ?cap (unat off) data (length xs) m1,
       c\<lparr>cb_write_ptr := moved off (cb_capacity c) ?n, cb_length := cb_length c + ?n\<rparr>)"
    using cbuf_write_eq [OF wf nz _ off_def, where m = m1 and buffer = data] n by (simp add: cbuf_put_def u m1_def)
  have len: "unat (cb_length c + ?n) = ?L + length xs"
    using n unsigned_less [of "cb_capacity c", where 'a = nat] by (simp add: unat_word_ariths u)
  have mv: "unat (moved off (cb_capacity c) ?n) mod ?cap = (unat off + length xs) mod ?cap"
    "unat (moved off (cb_capacity c) ?n) \<le> ?cap"
    using moved_mod [OF o(2), of ?n] n by (simp_all add: u)
  have "(unat off + length xs) mod ?cap = (unat (cb_read_ptr c) + (?L + length xs)) mod ?cap"
    by (simp add: o(1) mod_add_left_eq add.assoc)
  then have "cbuf_wf (snd (cbuf_put data xs (m, c)))"
    using wf n mv by (simp add: p cbuf_wf_def len)
  moreover have "ring (bytes_at (raw_data c) m1) ?cap h k = ring (bytes_at (raw_data c) m) ?cap h k" for h k
    using d pos by (intro ring_bytes_outside) (auto simp: m1_def disjoint_areas_def mem_write_outside)
  then have "cbuf_abs (cbuf_put data xs (m, c)) = cbuf_contents c m @ xs"
    using ring_copy_in_append [OF d n pos, of "unat (cb_read_ptr c)" m1]
    by (simp add: cbuf_abs_def p cbuf_contents_def len o(1) m1_def)
  ultimately show ?thesis ..
qed

lemma cbuf_take:
  assumes wf: "cbuf_wf c" and n: "n \<le> unat (cb_length c)" and b: "data \<noteq> 0" and d: "cbuf_disjoint c data n"
  shows "cbuf_wf (snd (snd (cbuf_take data n (m, c)))) \<and>
    cbuf_contents c m = fst (cbuf_take data n (m, c)) @ cbuf_abs (snd (cbuf_take data n (m, c)))"
proof -
  let ?n = "of_nat n :: u32" and ?cap = "unat (cb_capacity c)" and ?L = "unat (cb_length c)"
  define off where "off = wrapped (cb_read_ptr c) (cb_capacity c)"
  define m1 where "m1 = ring_copy_out (raw_data c) ?cap (unat off) data n m"
  have u: "unat ?n = n"
    using n by (rule unat_of_nat_le)
  have pos: "0 < ?cap" and ncap: "n \<le> ?cap"
    using wf n by (simp_all add: cbuf_wf_def)
  have o: "unat off = unat (cb_read_ptr c) mod ?cap" "unat off < ?cap"
    using wf wrapped_mod [of "cb_read_ptr c" "cb_capacity c"] by (simp_all add: cbuf_wf_def off_def)
  have p: "cbuf_take data n (m, c) =
      (mem_read data n m1,
       (m1, c\<lparr>cb_read_ptr := moved off (cb_capacity c) ?n, cb_length := cb_length c - ?n\<rparr>))"
    using cbuf_read_eq [OF wf b _ off_def, of ?n m] n by (simp add: cbuf_take_def u m1_def)
  have len: "unat (cb_length c - ?n) = ?L - n"
    using n by (subst unat_sub) (simp_all add: word_le_nat_alt u)
  have mv: "unat (moved off (cb_capacity c) ?n) mod ?cap = (unat (cb_read_ptr c) + n) mod ?cap"
    "unat (moved off (cb_capacity c) ?n) \<le> ?cap"
    using moved_mod [OF o(2), of ?n] ncap by (simp_all add: u o(1) mod_add_left_eq)
  have "(unat (moved off (cb_capacity c) ?n) + (?L - n)) mod ?cap = (unat (cb_read_ptr c) + ?L) mod ?cap"
    using mod_add_cong [OF mv(1) refl, of "?L - n"] n by simp
  then have "cbuf_wf (snd (snd (cbuf_take data n (m, c))))"
    using wf mv(2) n by (simp add: p cbuf_wf_def len le_diff_conv trans_le_add1)
  moreover have "ring (bytes_at (raw_data c) m) ?cap (unat (cb_read_ptr c)) (n + (?L - n)) =
      mem_read data n m1 @ ring (bytes_at (raw_data c) m1) ?cap (unat (moved off (cb_capacity c) ?n)) (?L - n)"
    using ring_copy_out_eq(1) [OF d o(2) ncap, of m] ring_cong_mod [OF mv(1), of "bytes_at (raw_data c) m" "?L - n"]
    by (simp add: ring_append m1_def ring_copy_out_ring [OF d o(2) ncap]) (simp add: o(1))
  then have "cbuf_contents c m = fst (cbuf_take data n (m, c)) @ cbuf_abs (snd (cbuf_take data n (m, c)))"
    using n by (simp add: p cbuf_contents_def cbuf_abs_def len)
  ultimately show ?thesis ..
qed

interpretation cbuf: fifo cbuf_inv cbuf_abs "cbuf_ok data" "cbuf_put data" "cbuf_take data" for data
proof (unfold_locales, goal_cases)
  case (1 x xs)
  then show ?case
    using cbuf_put [of "snd x" xs data "fst x"] by (cases x) (simp add: cbuf_inv_def)
next
  case (2 x xs)
  then show ?case
    using cbuf_put [of "snd x" xs data "fst x"] by (cases x) (simp add: cbuf_inv_def cbuf_abs_def [of "(_, _)"])
next
  case (3 x n)
  then show ?case
    using cbuf_take [of "snd x" n data "fst x"] by (cases x) (simp add: cbuf_inv_def)
next
  case (4 x n)
  then show ?case
    using cbuf_take [of "snd x" n data "fst x"] by (cases x) (simp add: cbuf_inv_def cbuf_abs_def [of "(_, _)"])
qed

section \<open>Properties\<close>

text \<open>
  C26: The circular buffer is a first-in first-out byte stream: from a well formed buffer,
  after any sequence of writes (that fit) and reads (of what is there), the buffer is well
  formed and the bytes read followed by those stored are the bytes that were stored
  followed by those written.
\<close>

theorem cbuf_stream:
  assumes "cbuf_wf c" and "run_fifo (cbuf_ok data) (cbuf_put data) (cbuf_take data) ops (m, c) = Some (out, (m', c'))"
  shows "cbuf_wf c' \<and> cbuf_contents c m @ fifo_input ops = out @ cbuf_contents c' m'"
  using cbuf.conservation [of "(m, c)" data ops out "(m', c')"] assms by (simp add: cbuf_inv_def cbuf_abs_def)

definition cbuf5 :: cbuf_t where
  "cbuf5 = \<lparr>cb_read_ptr = 3, cb_write_ptr = 3, cb_length = 0, cb_capacity = 5, raw_data = 64\<rparr>"

lemma cbuf5_wf: "cbuf_wf cbuf5" "cbuf_contents cbuf5 m = []"
  by (simp_all add: cbuf5_def cbuf_wf_def cbuf_contents_def)

theorem cbuf_stream_witness:
  "case run_fifo (cbuf_ok 8) (cbuf_put 8) (cbuf_take 8) [Put [1, 2, 3], Get 2, Put [4, 5, 6]] ((\<lambda>_. 0), cbuf5) of
     Some (out, (m, c)) \<Rightarrow> out @ cbuf_contents c m = [1, 2, 3, 4, 5, 6] | None \<Rightarrow> False"
proof -
  let ?r = "run_fifo (cbuf_ok 8) (cbuf_put 8) (cbuf_take 8) [Put [1, 2, 3], Get 2, Put [4, 5, 6]] ((\<lambda>_. 0), cbuf5)"
  have "\<exists>out m c. ?r = Some (out, (m, c))"
    by (simp add: cbuf5_def cbuf_put_def cbuf_take_def cbuf_write_def cbuf_read_def disjoint_areas_def Let_def)
  then obtain out m c where r: "?r = Some (out, (m, c))"
    by blast
  show ?thesis
    unfolding r using cbuf_stream [OF cbuf5_wf(1) r] cbuf5_wf(2) by simp
qed

text \<open>
  Reading by DMA. For a length the buffer holds, \<open>cbuf_dma_read\<close> describes the first
  contiguous run of the stored bytes, at most the length asked for and not empty unless that
  is 0; \<open>cbuf_dma_update_read_ptr\<close> with the length of the run then removes exactly these
  bytes. For a longer length the descriptor is empty and the buffer unchanged.
\<close>

theorem cbuf_dma_read_run:
  assumes wf: "cbuf_wf c" and len: "unat len < 2 ^ 31" and r: "cbuf_dma_read (Some c) dma len = (Some c', dma', r)"
    and n: "n = unat (dma_read_len dma')"
  shows "(unat (cb_length c) < unat len \<longrightarrow> n = 0 \<and> r = 0 \<and> c' = c) \<and>
    (unat len \<le> unat (cb_length c) \<longrightarrow>
       r = len \<and> n \<le> unat len \<and> (n = 0 \<longrightarrow> len = 0) \<and>
       mem_read (start_addr dma') n m = take n (cbuf_contents c m) \<and>
       cbuf_wf (cbuf_dma_update_read_ptr c' (dma_read_len dma')) \<and>
       cbuf_contents (cbuf_dma_update_read_ptr c' (dma_read_len dma')) m = drop n (cbuf_contents c m))"
proof -
  let ?cap = "unat (cb_capacity c)" and ?L = "unat (cb_length c)"
  define off where "off = wrapped (cb_read_ptr c) (cb_capacity c)"
  have o: "unat off = unat (cb_read_ptr c) mod ?cap" "unat off < ?cap"
    using wf wrapped_mod [of "cb_read_ptr c" "cb_capacity c"] by (simp_all add: cbuf_wf_def off_def)
  note le = unat_le_sub [OF o(2)]
  have small: "unat (cb_length c) < 2 ^ 31"
    using wf by (simp add: cbuf_wf_def)
  have cmp: "sint (cb_length c) < sint len \<longleftrightarrow> ?L < unat len"
    using sint_less_small [OF small len] .
  show ?thesis
  proof (cases "?L < unat len")
    case True
    then show ?thesis
      using r n cmp by (auto simp: cbuf_dma_read_def)
  next
    case False
    define k where "k = (if cb_capacity c - off > len then len else cb_capacity c - off)"
    have c': "c' = c\<lparr>cb_read_ptr := off\<rparr>" "r = len" "dma_read_len dma' = k" "start_addr dma' = raw_data c + unat off"
      using r False cmp by (auto simp: cbuf_dma_read_def Let_def wrapped_read k_def simp flip: off_def)
    have k: "unat k = min (unat len) (?cap - unat off)"
      using le by (simp add: k_def word_less_nat_alt min_def)
    have kl: "unat k \<le> ?L" "unat (cb_length c - k) = ?L - unat k"
      using False k by (auto simp: unat_sub word_le_nat_alt)
    have kb: "unat off + unat k \<le> ?cap" "?L - unat k \<le> ?cap"
      using k o(2) wf by (auto simp: cbuf_wf_def)
    have ok: "unat (off + k) = unat off + unat k"
      using o(2) k unsigned_less [of "cb_capacity c", where 'a = nat] by (simp add: unat_word_ariths)
    have rg: "ring f ?cap (unat off + i) j = ring f ?cap (unat (cb_read_ptr c) + i) j" for f :: "nat \<Rightarrow> u8" and i j
      by (rule ring_cong_mod) (simp add: o(1) mod_add_left_eq)
    have "mem_read (start_addr dma') n m = take n (cbuf_contents c m)"
      using ring_mem_linear [of "unat off" "unat k" ?cap m "raw_data c"] k o(2) kl(1) rg [of _ 0]
      by (simp add: n c' cbuf_contents_def ring_take)
    moreover have "(unat off + unat k + (?L - unat k)) mod ?cap = (unat (cb_read_ptr c) + ?L) mod ?cap"
      using kl(1) by (simp add: o(1) mod_add_left_eq)
    then have "cbuf_wf (cbuf_dma_update_read_ptr c' (dma_read_len dma'))"
      using wf kl(2) kb by (simp add: cbuf_wf_def cbuf_dma_update_read_ptr_def c' ok)
    moreover have "cbuf_contents (cbuf_dma_update_read_ptr c' (dma_read_len dma')) m = drop n (cbuf_contents c m)"
      using kl rg by (simp add: cbuf_contents_def cbuf_dma_update_read_ptr_def c' ok n ring_drop)
    ultimately show ?thesis
      using False k o(2) by (auto simp: n c' unat_eq_0 min_def split: if_splits)
  qed
qed

theorem cbuf_dma_read_run_witness:
  "case cbuf_dma_read (Some (cbuf5\<lparr>cb_length := 4, cb_write_ptr := 2\<rparr>)) \<lparr>start_addr = 0, dma_read_len = 0\<rparr> 3 of
     (c', dma', r) \<Rightarrow> r = 3 \<and> mem_read (start_addr dma') (unat (dma_read_len dma')) (\<lambda>a. of_nat a) = [67, 68]"
proof -
  let ?c = "cbuf5\<lparr>cb_length := 4, cb_write_ptr := 2\<rparr>"
  have c: "cbuf_wf ?c" "unat (3 :: u32) < 2 ^ 31"
    by (simp_all add: cbuf5_def cbuf_wf_def)
  have d: "cbuf_contents ?c (\<lambda>a. of_nat a) = [67, 68, 64, 65]" "unat (3 :: u32) \<le> unat (cb_length ?c)"
    "cbuf_dma_read (Some ?c) \<lparr>start_addr = 0, dma_read_len = 0\<rparr> 3 = (Some ?c, \<lparr>start_addr = 67, dma_read_len = 2\<rparr>, 3)"
    by code_simp+
  have "2 = unat (dma_read_len \<lparr>start_addr = 67, dma_read_len = 2\<rparr>)"
    by simp
  from cbuf_dma_read_run [OF c d(3) this, of "\<lambda>a. of_nat a", unfolded d(1)] d(2)
  have "mem_read 67 2 (\<lambda>a. of_nat a) = [67 :: u8, 68]"
    by simp
  then show ?thesis
    unfolding d(3) by simp
qed

end
