(* ===== verification/Dlist_Links.thy ===== *)
theory Dlist_Links
  imports Fifo
begin

text \<open>
  Doubly-linked lists: include/misc/dlist.h. A list header and the nodes are all
  \<open>struct _dnode\<close>, with addresses as 32-bit words (NULL is 0); the two links of every node
  are a heap. \<open>dlist_rel h l xs\<close> relates the header at address \<open>l\<close> to the sequence of nodes
  it links, in both directions; every operation implements the operation on sequences.
  The scheduler, the wait queues and the timeout queue are modelled with sequences.
\<close>

type_synonym dnode = u32

record dheap =
  dnext :: "dnode \<Rightarrow> dnode"
  dprev :: "dnode \<Rightarrow> dnode"

definition set_next :: "dnode \<Rightarrow> dnode \<Rightarrow> dheap \<Rightarrow> dheap" where
  "set_next n v h = h\<lparr>dnext := (dnext h)(n := v)\<rparr>"

definition set_prev :: "dnode \<Rightarrow> dnode \<Rightarrow> dheap \<Rightarrow> dheap" where
  "set_prev n v h = h\<lparr>dprev := (dprev h)(n := v)\<rparr>"

section \<open>Operations\<close>

definition sys_dlist_init :: "dnode \<Rightarrow> dheap \<Rightarrow> dheap" where
  "sys_dlist_init l h = set_prev l l (set_next l l h)"

definition sys_dlist_is_head :: "dheap \<Rightarrow> dnode \<Rightarrow> dnode \<Rightarrow> bool" where
  "sys_dlist_is_head h l node \<longleftrightarrow> dnext h l = node"

definition sys_dlist_is_tail :: "dheap \<Rightarrow> dnode \<Rightarrow> dnode \<Rightarrow> bool" where
  "sys_dlist_is_tail h l node \<longleftrightarrow> dprev h l = node"

definition sys_dlist_is_empty :: "dheap \<Rightarrow> dnode \<Rightarrow> bool" where
  "sys_dlist_is_empty h l \<longleftrightarrow> dnext h l = l"

definition sys_dlist_has_multiple_nodes :: "dheap \<Rightarrow> dnode \<Rightarrow> bool" where
  "sys_dlist_has_multiple_nodes h l \<longleftrightarrow> dnext h l \<noteq> dprev h l"

definition sys_dlist_peek_head :: "dheap \<Rightarrow> dnode \<Rightarrow> dnode" where
  "sys_dlist_peek_head h l = (if sys_dlist_is_empty h l then 0 else dnext h l)"

definition sys_dlist_peek_head_not_empty :: "dheap \<Rightarrow> dnode \<Rightarrow> dnode" where
  "sys_dlist_peek_head_not_empty h l = dnext h l"

definition sys_dlist_peek_next_no_check :: "dheap \<Rightarrow> dnode \<Rightarrow> dnode \<Rightarrow> dnode" where
  "sys_dlist_peek_next_no_check h l node = (if node = dprev h l then 0 else dnext h node)"

definition sys_dlist_peek_next :: "dheap \<Rightarrow> dnode \<Rightarrow> dnode \<Rightarrow> dnode" where
  "sys_dlist_peek_next h l node = (if node \<noteq> 0 then sys_dlist_peek_next_no_check h l node else 0)"

definition sys_dlist_peek_tail :: "dheap \<Rightarrow> dnode \<Rightarrow> dnode" where
  "sys_dlist_peek_tail h l = (if sys_dlist_is_empty h l then 0 else dprev h l)"

definition sys_dlist_append :: "dnode \<Rightarrow> dnode \<Rightarrow> dheap \<Rightarrow> dheap" where
  "sys_dlist_append l node h =
     (let h = set_next node l h;
          h = set_prev node (dprev h l) h;
          h = set_next (dprev h l) node h
      in set_prev l node h)"

definition sys_dlist_prepend :: "dnode \<Rightarrow> dnode \<Rightarrow> dheap \<Rightarrow> dheap" where
  "sys_dlist_prepend l node h =
     (let h = set_next node (dnext h l) h;
          h = set_prev node l h;
          h = set_prev (dnext h l) node h
      in set_next l node h)"

definition sys_dlist_insert_after :: "dnode \<Rightarrow> dnode \<Rightarrow> dnode \<Rightarrow> dheap \<Rightarrow> dheap" where
  "sys_dlist_insert_after l insert_point node h =
     (if insert_point = 0 then sys_dlist_prepend l node h
      else
        let h = set_next node (dnext h insert_point) h;
            h = set_prev node insert_point h;
            h = set_prev (dnext h insert_point) node h
        in set_next insert_point node h)"

definition sys_dlist_insert_before :: "dnode \<Rightarrow> dnode \<Rightarrow> dnode \<Rightarrow> dheap \<Rightarrow> dheap" where
  "sys_dlist_insert_before l insert_point node h =
     (if insert_point = 0 then sys_dlist_append l node h
      else
        let h = set_prev node (dprev h insert_point) h;
            h = set_next node insert_point h;
            h = set_next (dprev h insert_point) node h
        in set_prev insert_point node h)"

text \<open>The loop of \<open>sys_dlist_insert_at\<close>; on a list that is not well formed it need not end.\<close>

partial_function (option) insert_pos :: "dheap \<Rightarrow> dnode \<Rightarrow> (dnode \<Rightarrow> bool) \<Rightarrow> dnode \<Rightarrow> dnode option" where
  "insert_pos h l cond pos =
     (if pos \<noteq> 0 \<and> \<not> cond pos then insert_pos h l cond (sys_dlist_peek_next h l pos) else Some pos)"

definition sys_dlist_insert_at :: "dnode \<Rightarrow> dnode \<Rightarrow> (dnode \<Rightarrow> bool) \<Rightarrow> dheap \<Rightarrow> dheap option" where
  "sys_dlist_insert_at l node cond h =
     (if sys_dlist_is_empty h l then Some (sys_dlist_append l node h)
      else
        map_option (\<lambda>pos. sys_dlist_insert_before l pos node h)
          (insert_pos h l cond (sys_dlist_peek_head h l)))"

definition sys_dlist_remove :: "dnode \<Rightarrow> dheap \<Rightarrow> dheap" where
  "sys_dlist_remove node h =
     (let h = set_next (dprev h node) (dnext h node) h
      in set_prev (dnext h node) (dprev h node) h)"

definition sys_dlist_get :: "dnode \<Rightarrow> dheap \<Rightarrow> dnode \<times> dheap" where
  "sys_dlist_get l h =
     (if sys_dlist_is_empty h l then (0, h)
      else let node = dnext h l in (node, sys_dlist_remove node h))"

section \<open>Sequences of linked nodes\<close>

fun dseg :: "dheap \<Rightarrow> dnode \<Rightarrow> dnode list \<Rightarrow> bool" where
  "dseg h p [] \<longleftrightarrow> True"
| "dseg h p (x # xs) \<longleftrightarrow> dnext h p = x \<and> dprev h x = p \<and> dseg h x xs"

definition dlist_rel :: "dheap \<Rightarrow> dnode \<Rightarrow> dnode list \<Rightarrow> bool" where
  "dlist_rel h l xs \<longleftrightarrow> distinct (l # xs) \<and> 0 \<notin> set (l # xs) \<and> dseg h l (xs @ [l])"

lemma set_next_sel [simp]: "dnext (set_next n v h) = (dnext h)(n := v)" "dprev (set_next n v h) = dprev h"
  by (simp_all add: set_next_def)

lemma set_prev_sel [simp]: "dprev (set_prev n v h) = (dprev h)(n := v)" "dnext (set_prev n v h) = dnext h"
  by (simp_all add: set_prev_def)

lemma dseg_append: "dseg h p (xs @ ys) \<longleftrightarrow> dseg h p xs \<and> dseg h (last (p # xs)) ys"
  by (induction xs arbitrary: p) auto

lemma dseg_cong:
  assumes "\<And>n. n \<in> set (butlast (p # xs)) \<Longrightarrow> dnext h' n = dnext h n"
    and "\<And>n. n \<in> set xs \<Longrightarrow> dprev h' n = dprev h n"
  shows "dseg h' p xs = dseg h p xs"
  using assms by (induction xs arbitrary: p) (auto split: if_splits)

lemma last_notin_butlast: "distinct xs \<Longrightarrow> xs \<noteq> [] \<Longrightarrow> last xs \<notin> set (butlast xs)"
  by (cases xs rule: rev_cases) auto

text \<open>
  Every insertion links a fresh node between the last node of a prefix of the list and the
  first node of the rest (the header closes the circle on both sides).
\<close>

lemma link_between:
  assumes rel: "dlist_rel h l (xs @ ys)" and n: "node \<notin> set (l # xs @ ys)" "node \<noteq> 0"
    and a: "a = last (l # xs)" and b: "b = hd (ys @ [l])"
    and nx: "dnext h' = (dnext h)(node := b, a := node)" and pv: "dprev h' = (dprev h)(node := a, b := node)"
  shows "dlist_rel h' l (xs @ node # ys)"
proof -
  obtain zs where zs: "ys @ [l] = b # zs" and bl: "butlast (b # zs) = ys"
    using b by (metis append_is_Nil_conv butlast_snoc hd_Cons_tl not_Cons_self2)
  have d: "distinct (l # xs @ ys)" "0 \<notin> set (l # xs @ ys)" "dseg h l ((xs @ ys) @ [l])"
    using rel unfolding dlist_rel_def by blast+
  then have s: "dseg h l xs" "dseg h b zs"
    using zs by (simp_all add: dseg_append a del: last.simps)
  have "distinct (l # xs)" "distinct (b # zs)"
    using d(1) by (auto simp flip: zs)
  have al: "a \<notin> set (butlast (l # xs))" "a \<in> set (l # xs)"
    using last_notin_butlast [OF \<open>distinct (l # xs)\<close>] last_in_set [of "l # xs"] unfolding a by blast+
  have "dseg h' l xs = dseg h l xs"
  proof (rule dseg_cong)
    fix m assume m: "m \<in> set (butlast (l # xs))"
    then have "m \<in> set (l # xs)"
      by (rule in_set_butlastD)
    then show "dnext h' m = dnext h m"
      using m n(1) al by (auto simp: nx)
  next
    fix m assume "m \<in> set xs"
    then show "dprev h' m = dprev h m"
      using n(1) d(1) b by (cases ys) (auto simp: pv)
  qed
  moreover have "dseg h' b zs = dseg h b zs"
  proof (rule dseg_cong)
    fix m assume "m \<in> set (butlast (b # zs))"
    then show "dnext h' m = dnext h m"
      using n(1) al(2) d(1) unfolding bl by (auto simp: nx)
  next
    fix m assume "m \<in> set zs"
    then have "m \<noteq> b" "m \<in> set (ys @ [l])"
      using \<open>distinct (b # zs)\<close> zs by auto
    then show "dprev h' m = dprev h m"
      using n(1) by (auto simp: pv)
  qed
  moreover have "dnext h' a = node" "dprev h' node = a" "dnext h' node = b" "dprev h' b = node"
    using n(1) al(2) b by (auto simp: nx pv hd_append split: if_splits)
  ultimately have "dseg h' l (xs @ node # ys @ [l])"
    using s unfolding zs by (simp add: dseg_append a del: last.simps)
  then show ?thesis
    using d n by (auto simp: dlist_rel_def)
qed

lemma unlink:
  assumes rel: "dlist_rel h l (xs @ node # ys)"
  shows "dlist_rel (sys_dlist_remove node h) l (xs @ ys)"
proof -
  let ?a = "last (l # xs)" and ?h = "sys_dlist_remove node h"
  obtain b zs where zs: "ys @ [l] = b # zs"
    by (cases "ys @ [l]") auto
  have bl: "butlast (b # zs) = ys"
    using zs by (metis butlast_snoc)
  have d: "distinct (l # xs @ node # ys)" "0 \<notin> set (l # xs @ node # ys)" "dseg h l ((xs @ node # ys) @ [l])"
    using rel unfolding dlist_rel_def by blast+
  have s: "dseg h l xs" "dnext h ?a = node" "dprev h node = ?a" "dnext h node = b" "dprev h b = node" "dseg h b zs"
    using d(3) zs by (simp_all add: dseg_append del: last.simps)
  have dz: "distinct (l # xs)" "distinct (b # zs)"
    using d(1) by (auto simp flip: zs)
  have al: "?a \<notin> set (butlast (l # xs))" "?a \<in> set (l # xs)"
    using last_notin_butlast [OF dz(1)] last_in_set [of "l # xs"] by blast+
  have bs: "b \<in> set (ys @ [l])"
    using zs by simp
  have "node \<noteq> ?a"
    using al(2) d(1) by auto
  then have nx: "dnext ?h = (dnext h)(?a := b)" and pv: "dprev ?h = (dprev h)(b := ?a)"
    using s by (simp_all add: sys_dlist_remove_def del: last.simps)
  have "dseg ?h l xs = dseg h l xs"
    using al(1) bs d(1) by (intro dseg_cong) (auto simp: nx pv simp del: last.simps)
  moreover have "dseg ?h b zs = dseg h b zs"
    unfolding nx pv using dz(2) al(2) d(1)
    by (intro dseg_cong) (auto simp: nx pv bl simp del: last.simps butlast.simps)
  ultimately have "dseg ?h l (xs @ ys @ [l])"
    using s unfolding zs by (simp add: dseg_append nx pv del: last.simps)
  then show ?thesis
    using d by (simp add: dlist_rel_def)
qed

lemma dlist_ends:
  assumes "dlist_rel h l xs"
  shows "dnext h l = hd (xs @ [l])" and "dprev h l = last (l # xs)"
  using assms by (cases xs; simp add: dlist_rel_def dseg_append)+

lemma dlist_empty [simp]: "dlist_rel h l xs \<Longrightarrow> sys_dlist_is_empty h l \<longleftrightarrow> xs = []"
  by (cases xs) (auto simp: sys_dlist_is_empty_def dlist_rel_def)

lemma dlist_peek_head: "dlist_rel h l xs \<Longrightarrow> sys_dlist_peek_head h l = (if xs = [] then 0 else hd xs)"
  using dlist_ends(1) by (auto simp: sys_dlist_peek_head_def)

lemma dlist_peek_tail: "dlist_rel h l xs \<Longrightarrow> sys_dlist_peek_tail h l = (if xs = [] then 0 else last xs)"
  using dlist_ends(2) by (auto simp: sys_dlist_peek_tail_def)

lemma dlist_peek_next:
  assumes rel: "dlist_rel h l (xs @ x # ys)"
  shows "sys_dlist_peek_next h l x = (if ys = [] then 0 else hd ys)"
proof -
  have d: "distinct (l # xs @ x # ys)" "0 \<notin> set (xs @ x # ys)" "dnext h x = hd (ys @ [l])"
    using rel by (cases ys; simp add: dlist_rel_def dseg_append)+
  moreover have "x = dprev h l \<longleftrightarrow> ys = []"
    using dlist_ends(2) [OF rel] d(1) last_in_set [of ys] by auto
  ultimately show ?thesis
    by (simp add: sys_dlist_peek_next_def sys_dlist_peek_next_no_check_def)
qed

lemma dlist_append:
  assumes rel: "dlist_rel h l xs" and n: "node \<notin> set (l # xs)" "node \<noteq> 0"
  shows "dlist_rel (sys_dlist_append l node h) l (xs @ [node])"
proof (rule link_between [of h l xs "[]"])
  have "dprev h l \<noteq> node"
    using n(1) dlist_ends(2) [OF rel] last_in_set [of "l # xs"] by auto
  then show "dnext (sys_dlist_append l node h) = (dnext h)(node := l, last (l # xs) := node)"
    "dprev (sys_dlist_append l node h) = (dprev h)(node := last (l # xs), l := node)"
    using n dlist_ends(2) [OF rel] by (simp_all add: sys_dlist_append_def Let_def del: last.simps)
qed (use assms in simp_all)

lemma dlist_insert_after:
  assumes rel: "dlist_rel h l (xs @ ys)" and n: "node \<notin> set (l # xs @ ys)" "node \<noteq> 0"
    and p: "p = (if xs = [] then 0 else last xs)"
  shows "dlist_rel (sys_dlist_insert_after l p node h) l (xs @ node # ys)"
proof (rule link_between [OF rel n refl refl])
  let ?a = "last (l # xs)" and ?b = "hd (ys @ [l])"
  have "dseg h l (xs @ ys @ [l])" and z: "0 \<notin> set (l # xs @ ys)"
    using rel by (simp_all add: dlist_rel_def)
  then have "dnext h ?a = ?b"
    by (cases ys) (simp_all add: dseg_append)
  moreover have "node \<noteq> ?a" "node \<noteq> ?b" "xs \<noteq> [] \<longrightarrow> last xs \<noteq> 0"
    using n(1) z last_in_set [of xs] by (auto simp: hd_append simp del: last_in_set)
  ultimately show "dnext (sys_dlist_insert_after l p node h) = (dnext h)(node := ?b, ?a := node)"
    "dprev (sys_dlist_insert_after l p node h) = (dprev h)(node := ?a, ?b := node)"
    using n by (auto simp: sys_dlist_insert_after_def sys_dlist_prepend_def Let_def p)
qed

lemma dlist_prepend:
  assumes "dlist_rel h l xs" and "node \<notin> set (l # xs)" and "node \<noteq> 0"
  shows "dlist_rel (sys_dlist_prepend l node h) l (node # xs)"
  using dlist_insert_after [of h l "[]" xs node 0] assms by (simp add: sys_dlist_insert_after_def)

lemma dlist_insert_before:
  assumes rel: "dlist_rel h l (xs @ ys)" and n: "node \<notin> set (l # xs @ ys)" "node \<noteq> 0"
    and p: "p = (if ys = [] then 0 else hd ys)"
  shows "dlist_rel (sys_dlist_insert_before l p node h) l (xs @ node # ys)"
proof (cases ys)
  case Nil
  then show ?thesis
    using dlist_append [of h l xs node] assms by (simp add: sys_dlist_insert_before_def)
next
  case (Cons y zs)
  show ?thesis
  proof (rule link_between [OF rel n refl refl])
    let ?a = "last (l # xs)"
    have "dseg h l (xs @ ys @ [l])" and z: "0 \<notin> set (l # xs @ ys)"
      using rel by (simp_all add: dlist_rel_def)
    then have "dprev h y = ?a"
      using Cons by (simp add: dseg_append)
    moreover have "node \<noteq> ?a" "node \<noteq> y" "y \<noteq> 0"
      using n(1) z last_in_set [of xs] Cons by auto
    ultimately show "dnext (sys_dlist_insert_before l p node h) = (dnext h)(node := hd (ys @ [l]), ?a := node)"
      "dprev (sys_dlist_insert_before l p node h) = (dprev h)(node := ?a, hd (ys @ [l]) := node)"
      using n Cons by (auto simp: sys_dlist_insert_before_def Let_def p)
  qed
qed

lemma insert_pos_eq:
  assumes "dlist_rel h l (xs @ ys)"
  shows "insert_pos h l cond (if ys = [] then 0 else hd ys) =
    Some (let zs = dropWhile (\<lambda>x. \<not> cond x) ys in if zs = [] then 0 else hd zs)"
  using assms
proof (induction ys arbitrary: xs)
  case Nil
  then show ?case
    by (simp add: insert_pos.simps)
next
  case (Cons y ys)
  have "y \<noteq> 0"
    using Cons.prems by (auto simp: dlist_rel_def)
  then show ?case
    using Cons.IH [of "xs @ [y]"] Cons.prems dlist_peek_next [OF Cons.prems] by (simp add: insert_pos.simps)
qed

lemma dlist_insert_at:
  assumes rel: "dlist_rel h l xs" and n: "node \<notin> set (l # xs)" "node \<noteq> 0"
  shows "\<exists>h'. sys_dlist_insert_at l node cond h = Some h' \<and>
    dlist_rel h' l (takeWhile (\<lambda>x. \<not> cond x) xs @ node # dropWhile (\<lambda>x. \<not> cond x) xs)"
proof (cases "xs = []")
  case True
  then show ?thesis
    using dlist_append [OF rel n] rel by (simp add: sys_dlist_insert_at_def)
next
  case False
  let ?ys = "takeWhile (\<lambda>x. \<not> cond x) xs" and ?zs = "dropWhile (\<lambda>x. \<not> cond x) xs"
  have "insert_pos h l cond (sys_dlist_peek_head h l) = Some (if ?zs = [] then 0 else hd ?zs)"
    using insert_pos_eq [of h l "[]" xs cond] rel False by (simp add: dlist_peek_head [OF rel] Let_def)
  then show ?thesis
    using dlist_insert_before [of h l ?ys ?zs node] assms False by (simp add: sys_dlist_insert_at_def)
qed

lemma dlist_get:
  assumes "dlist_rel h l (x # xs)"
  shows "fst (sys_dlist_get l h) = x" and "dlist_rel (snd (sys_dlist_get l h)) l xs"
  using assms dlist_ends(1) [OF assms] unlink [of h l "[]" x xs] by (simp_all add: sys_dlist_get_def)

section \<open>The list as a first-in first-out buffer\<close>

text \<open>The nodes of a list, by following the links from the header; \<open>n\<close> bounds their number.\<close>

fun dlist_walk :: "nat \<Rightarrow> dheap \<Rightarrow> dnode \<Rightarrow> dnode \<Rightarrow> dnode list" where
  "dlist_walk 0 h l p = []"
| "dlist_walk (Suc n) h l p = (if p = l then [] else p # dlist_walk n h l (dnext h p))"

definition dlist_abs :: "dnode \<Rightarrow> dheap \<Rightarrow> dnode list" where
  "dlist_abs l h = dlist_walk (2 ^ 32) h l (dnext h l)"

definition dlist_inv :: "dnode \<Rightarrow> dheap \<Rightarrow> bool" where
  "dlist_inv l h \<longleftrightarrow> (\<exists>xs. dlist_rel h l xs)"

fun dlist_ok :: "dnode \<Rightarrow> dnode fifo_op \<Rightarrow> dheap \<Rightarrow> bool" where
  "dlist_ok l (Put ns) h \<longleftrightarrow> length ns = 1 \<and> hd ns \<notin> set (l # dlist_abs l h) \<and> hd ns \<noteq> 0"
| "dlist_ok l (Get n) h \<longleftrightarrow> n = 1 \<and> dlist_abs l h \<noteq> []"

definition dlist_put :: "dnode \<Rightarrow> dnode list \<Rightarrow> dheap \<Rightarrow> dheap" where
  "dlist_put l ns h = sys_dlist_append l (hd ns) h"

definition dlist_take :: "dnode \<Rightarrow> nat \<Rightarrow> dheap \<Rightarrow> dnode list \<times> dheap" where
  "dlist_take l n h = (case sys_dlist_get l h of (x, h) \<Rightarrow> ([x], h))"

lemma dlist_walk_eq:
  assumes "dlist_rel h l (xs @ ys)" and "length ys < n"
  shows "dlist_walk n h l (hd (ys @ [l])) = ys"
  using assms
proof (induction ys arbitrary: xs n)
  case Nil
  then show ?case
    by (cases n) simp_all
next
  case (Cons y ys)
  obtain k where k: "n = Suc k" "length ys < k"
    using Cons.prems(2) by (cases n) auto
  have "y \<noteq> l" "dnext h y = hd (ys @ [l])"
    using Cons.prems(1) by (cases ys; auto simp: dlist_rel_def dseg_append)+
  then show ?case
    using Cons.IH [of "xs @ [y]" k] Cons.prems(1) k by simp
qed

lemma dlist_abs_eq:
  assumes rel: "dlist_rel h l xs"
  shows "dlist_abs l h = xs"
proof -
  have "distinct (l # xs)"
    using rel by (simp add: dlist_rel_def)
  then have "Suc (length xs) = card (set (l # xs))"
    by (simp add: distinct_card)
  also have "\<dots> \<le> card (UNIV :: dnode set)"
    by (rule card_mono) simp_all
  finally have "length xs < 2 ^ 32"
    by (simp add: card_word)
  then show ?thesis
    using dlist_walk_eq [of h l "[]" xs "2 ^ 32"] rel by (simp add: dlist_abs_def dlist_ends(1) [OF rel])
qed

interpretation dlist: fifo "dlist_inv l" "dlist_abs l" "dlist_ok l" "dlist_put l" "dlist_take l" for l
proof (unfold_locales, goal_cases)
  case (1 h ns)
  then obtain xs where "dlist_rel h l xs"
    by (auto simp: dlist_inv_def)
  then show ?case
    using 1 dlist_append [of h l xs "hd ns"] by (auto simp: dlist_inv_def dlist_put_def dlist_abs_eq)
next
  case (2 h ns)
  then obtain xs n where x: "dlist_rel h l xs" "ns = [n]"
    by (auto simp: dlist_inv_def length_Suc_conv)
  then have "dlist_rel (dlist_put l ns h) l (xs @ [n])"
    using 2 dlist_append [of h l xs n] by (simp add: dlist_put_def dlist_abs_eq)
  then show ?case
    using x dlist_abs_eq by simp
next
  case (3 h n)
  then obtain x xs where x: "dlist_rel h l (x # xs)"
    by (auto simp: dlist_inv_def neq_Nil_conv dlist_abs_eq)
  show ?case
    using dlist_get(2) [OF x] by (auto simp: dlist_inv_def dlist_take_def split_beta)
next
  case (4 h n)
  then obtain x xs where x: "dlist_rel h l (x # xs)"
    by (auto simp: dlist_inv_def neq_Nil_conv dlist_abs_eq)
  then show ?case
    using dlist_get [OF x] by (simp add: dlist_take_def split_beta dlist_abs_eq)
qed

text \<open>
  A doubly-linked list used as a queue neither loses, duplicates nor reorders nodes: for
  any sequence of appends of fresh nodes and gets, the nodes got followed by the nodes left
  are the nodes that were linked followed by the nodes appended.
\<close>

lemma dlist_fifo:
  assumes "dlist_rel h l xs" and "run_fifo (dlist_ok l) (dlist_put l) (dlist_take l) ops h = Some (out, h')"
  shows "\<exists>ys. dlist_rel h' l ys \<and> xs @ fifo_input ops = out @ ys"
  using dlist.conservation [of l h ops out h'] assms dlist_abs_eq by (fastforce simp: dlist_inv_def)

section \<open>Properties\<close>

text \<open>
  C15: The pointer operations on doubly-linked lists implement operations on sequences. On a
  list that links \<open>xs @ ys\<close>, appending, prepending, inserting after or before a node, and
  inserting at the first node a condition holds for (a search that always ends) give lists
  that link, in both directions, the sequence with the new node at that place; removing the
  first node of \<open>ys\<close> links the sequence without it.
\<close>

theorem dlist_refines_sequences:
  assumes "dlist_rel h l (xs @ ys)" and "node \<notin> set (l # xs @ ys)" and "node \<noteq> 0"
  shows "dlist_rel (sys_dlist_append l node h) l (xs @ ys @ [node]) \<and>
    dlist_rel (sys_dlist_prepend l node h) l (node # xs @ ys) \<and>
    dlist_rel (sys_dlist_insert_after l (if xs = [] then 0 else last xs) node h) l (xs @ node # ys) \<and>
    dlist_rel (sys_dlist_insert_before l (if ys = [] then 0 else hd ys) node h) l (xs @ node # ys) \<and>
    (\<exists>h'. sys_dlist_insert_at l node cond h = Some h' \<and>
       dlist_rel h' l (takeWhile (\<lambda>x. \<not> cond x) (xs @ ys) @ node # dropWhile (\<lambda>x. \<not> cond x) (xs @ ys))) \<and>
    (ys \<noteq> [] \<longrightarrow> dlist_rel (sys_dlist_remove (hd ys) h) l (xs @ tl ys))"
  using dlist_append [OF assms] dlist_prepend [OF assms] dlist_insert_after [OF assms refl]
    dlist_insert_before [OF assms refl] dlist_insert_at [OF assms] unlink [of h l xs "hd ys" "tl ys"] assms(1)
  by simp

definition dlist12 :: dheap where
  "dlist12 = \<lparr>dnext = (\<lambda>_. 0)(4 := 8, 8 := 16, 16 := 4), dprev = (\<lambda>_. 0)(4 := 16, 8 := 4, 16 := 8)\<rparr>"

theorem dlist_refines_sequences_witness:
  "dlist_rel (sys_dlist_append 4 24 dlist12) 4 [8, 16, 24] \<and>
   (\<exists>h. sys_dlist_insert_at 4 12 (\<lambda>x. x > 12) dlist12 = Some h \<and> dlist_rel h 4 [8, 12, 16]) \<and>
   dlist_rel (sys_dlist_remove 16 dlist12) 4 [8]"
proof -
  have "dlist_rel dlist12 4 ([8] @ [16])"
    by (simp add: dlist12_def dlist_rel_def)
  from dlist_refines_sequences [OF this, of 24] dlist_refines_sequences [OF this, of 12 "\<lambda>x. x > 12"]
  show ?thesis
    by simp
qed

end
