(* ===== verification/Ring_Buffer.thy ===== *)
theory Ring_Buffer
  imports Ring
begin

text \<open>
  The ring buffer of misc/ring_buffer.c and include/misc/ring_buffer.h, in its two modes.
  In item mode the buffer holds items: a header word (16 bits of type, 8 bits of length, 8
  bits of value) followed by up to 255 data words. In byte mode it holds a byte stream that
  is also reachable by claiming contiguous areas. One slot stays free to tell a full buffer
  from an empty one.

  The two words of the union \<open>misc\<close> are the fields \<open>misc0\<close> (\<open>dropped_put_count\<close> or
  \<open>tmp_tail\<close>) and \<open>misc1\<close> (\<open>tmp_head\<close>). Memory is bytes in byte mode and aligned words in
  item mode; an instance uses one mode only, as the header demands.
\<close>

type_synonym wmem = "nat \<Rightarrow> u32"

record ring_buf =
  rbf_head :: u32
  rbf_tail :: u32
  misc0 :: u32
  misc1 :: u32
  rbf_size :: u32
  rbf_buf :: nat
  rbf_mask :: u32

section \<open>Operations\<close>

definition ring_buf_init :: "u32 \<Rightarrow> nat \<Rightarrow> ring_buf" where
  "ring_buf_init sz data =
     \<lparr>rbf_head = 0, rbf_tail = 0, misc0 = 0, misc1 = 0, rbf_size = sz, rbf_buf = data,
      rbf_mask = (if is_power_of_two sz then sz - 1 else 0)\<rparr>"

definition ring_buf_custom_space_get :: "u32 \<Rightarrow> u32 \<Rightarrow> u32 \<Rightarrow> u32" where
  "ring_buf_custom_space_get sz head tail =
     (if tail < head then head - tail - 1 else (sz - tail) + head - 1)"

definition ring_buf_is_empty :: "ring_buf \<Rightarrow> bool" where
  "ring_buf_is_empty b \<longleftrightarrow> rbf_head b = rbf_tail b"

definition ring_buf_reset :: "ring_buf \<Rightarrow> ring_buf" where
  "ring_buf_reset b = b\<lparr>rbf_head := 0, rbf_tail := 0, misc0 := 0, misc1 := 0\<rparr>"

definition ring_buf_space_get :: "ring_buf \<Rightarrow> u32" where
  "ring_buf_space_get b = ring_buf_custom_space_get (rbf_size b) (rbf_head b) (rbf_tail b)"

definition ring_buf_capacity_get :: "ring_buf \<Rightarrow> u32" where
  "ring_buf_capacity_get b = rbf_size b - 1"

subsection \<open>Items\<close>

text \<open>\<open>struct ring_element\<close>: bit fields, the first in the lowest bits.\<close>

definition ring_element :: "u16 \<Rightarrow> u8 \<Rightarrow> u8 \<Rightarrow> u32" where
  "ring_element ty len v = ucast ty OR push_bit 16 (ucast len) OR push_bit 24 (ucast v)"

definition element_type :: "u32 \<Rightarrow> u16" where
  "element_type e = ucast e"

definition element_length :: "u32 \<Rightarrow> u8" where
  "element_length e = ucast (drop_bit 16 e)"

definition element_value :: "u32 \<Rightarrow> u8" where
  "element_value e = ucast (drop_bit 24 e)"

abbreviation words_at :: "nat \<Rightarrow> wmem \<Rightarrow> nat \<Rightarrow> u32" where
  "words_at base m \<equiv> \<lambda>i. m (base + 4 * i)"

text \<open>The index arithmetic of both branches of \<open>if (likely(buf->mask))\<close>.\<close>

definition item_index :: "ring_buf \<Rightarrow> u32 \<Rightarrow> u32" where
  "item_index b x = (if rbf_mask b \<noteq> 0 then x AND rbf_mask b else x mod rbf_size b)"

definition ring_buf_item_put :: "ring_buf \<Rightarrow> u16 \<Rightarrow> u8 \<Rightarrow> nat \<Rightarrow> u8 \<Rightarrow> wmem \<Rightarrow> wmem \<times> ring_buf \<times> int" where
  "ring_buf_item_put b ty v data size32 m =
     (let sz = ucast size32 :: u32
      in if ring_buf_space_get b \<ge> sz + 1 then
           let m = m(rbf_buf b + 4 * unat (rbf_tail b) := ring_element ty size32 v);
               m = fold (\<lambda>i m. m(rbf_buf b + 4 * unat (item_index b (of_nat i + rbf_tail b + 1)) := m (data + 4 * i)))
                     [0..<unat sz] m
           in (m, b\<lparr>rbf_tail := item_index b (rbf_tail b + sz + 1)\<rparr>, 0)
         else (m, b\<lparr>misc0 := misc0 b + 1\<rparr>, - EMSGSIZE))"

text \<open>The last argument and result hold what \<open>type\<close>, \<open>value\<close> and \<open>size32\<close> point to.\<close>

definition ring_buf_item_get ::
    "ring_buf \<Rightarrow> nat \<Rightarrow> wmem \<Rightarrow> u16 \<times> u8 \<times> u8 \<Rightarrow> wmem \<times> ring_buf \<times> int \<times> (u16 \<times> u8 \<times> u8)" where
  "ring_buf_item_get b data m out =
     (case out of (ty, v, size32) \<Rightarrow>
        if ring_buf_is_empty b then (m, b, - EAGAIN, out)
        else
          let e = m (rbf_buf b + 4 * unat (rbf_head b))
          in if element_length e > size32 then (m, b, - EMSGSIZE, (ty, v, element_length e))
             else
               let m = fold (\<lambda>i m. m(data + 4 * i := m (rbf_buf b + 4 * unat (item_index b (of_nat i + rbf_head b + 1)))))
                         [0..<unat (element_length e)] m
               in (m, b\<lparr>rbf_head := item_index b (rbf_head b + ucast (element_length e) + 1)\<rparr>, 0,
                   (element_type e, element_value e, element_length e)))"

subsection \<open>Bytes\<close>

definition wrap :: "u32 \<Rightarrow> u32 \<Rightarrow> u32" where
  "wrap val mx = (if val \<ge> mx then val - mx else val)"

definition ring_buf_put_claim :: "ring_buf \<Rightarrow> u32 \<Rightarrow> ring_buf \<times> nat \<times> u32" where
  "ring_buf_put_claim b sz =
     (let space = ring_buf_custom_space_get (rbf_size b) (rbf_head b) (misc0 b);
          sz = min sz space;
          trail_size = rbf_size b - misc0 b;
          allocated = min trail_size sz
      in (b\<lparr>misc0 := wrap (misc0 b + allocated) (rbf_size b)\<rparr>, rbf_buf b + unat (misc0 b), allocated))"

definition ring_buf_put_finish :: "ring_buf \<Rightarrow> u32 \<Rightarrow> ring_buf \<times> int" where
  "ring_buf_put_finish b sz =
     (if sz > ring_buf_space_get b then (b, - EINVAL)
      else
        let b = b\<lparr>rbf_tail := wrap (rbf_tail b + sz) (rbf_size b)\<rparr>
        in (b\<lparr>misc0 := rbf_tail b\<rparr>, 0))"

text \<open>The \<open>do ... while (size && partial_size)\<close> loops of \<open>ring_buf_put\<close> and \<open>ring_buf_get\<close>.\<close>

lemma put_claim_le: "(b', data, n) = ring_buf_put_claim b sz \<Longrightarrow> n \<le> sz"
  by (simp add: ring_buf_put_claim_def Let_def min_le_iff_disj)

function put_loop :: "ring_buf \<Rightarrow> nat \<Rightarrow> u32 \<Rightarrow> u32 \<Rightarrow> mem \<Rightarrow> mem \<times> ring_buf \<times> u32" where
  "put_loop b data sz total_size m =
     (let (b, dst, partial_size) = ring_buf_put_claim b sz;
          m = memcpy dst data (unat partial_size) m;
          total_size = total_size + partial_size;
          rest = sz - partial_size
      in if rest \<noteq> 0 \<and> partial_size \<noteq> 0 then put_loop b (data + unat partial_size) rest total_size m
         else (m, b, total_size))"
  by auto
termination put_loop
proof (relation "measure (\<lambda>(b, data, sz, total_size, m). unat sz)", goal_cases)
  case (2 b data sz total_size m x b' y dst p m' total' rest)
  have "p \<le> sz" "p \<noteq> 0"
    using 2 put_claim_le by auto
  then have "unat (sz - p) < unat sz"
    using unat_gt_0 [of p] by (simp add: unat_sub word_le_nat_alt)
  then show ?case
    using 2 by simp
qed simp

declare put_loop.simps [simp del]

definition ring_buf_put :: "ring_buf \<Rightarrow> nat \<Rightarrow> u32 \<Rightarrow> mem \<Rightarrow> mem \<times> ring_buf \<times> u32" where
  "ring_buf_put b data sz m =
     (case put_loop b data sz 0 m of (m, b, total_size) \<Rightarrow> (m, fst (ring_buf_put_finish b total_size), total_size))"

definition ring_buf_get_claim :: "ring_buf \<Rightarrow> u32 \<Rightarrow> ring_buf \<times> nat \<times> u32" where
  "ring_buf_get_claim b sz =
     (let space = (rbf_size b - 1) - ring_buf_custom_space_get (rbf_size b) (misc1 b) (rbf_tail b);
          trail_size = rbf_size b - misc1 b;
          granted_size = min sz space;
          granted_size = min trail_size granted_size
      in (b\<lparr>misc1 := wrap (misc1 b + granted_size) (rbf_size b)\<rparr>, rbf_buf b + unat (misc1 b), granted_size))"

definition ring_buf_get_finish :: "ring_buf \<Rightarrow> u32 \<Rightarrow> ring_buf \<times> int" where
  "ring_buf_get_finish b sz =
     (let allocated = (rbf_size b - 1) - ring_buf_space_get b
      in if sz > allocated then (b, - EINVAL)
         else
           let b = b\<lparr>rbf_head := wrap (rbf_head b + sz) (rbf_size b)\<rparr>
           in (b\<lparr>misc1 := rbf_head b\<rparr>, 0))"

lemma get_claim_le: "(b', data, n) = ring_buf_get_claim b sz \<Longrightarrow> n \<le> sz"
  by (simp add: ring_buf_get_claim_def Let_def min_le_iff_disj)

function get_loop :: "ring_buf \<Rightarrow> nat \<Rightarrow> u32 \<Rightarrow> u32 \<Rightarrow> mem \<Rightarrow> mem \<times> ring_buf \<times> u32" where
  "get_loop b data sz total_size m =
     (let (b, src, partial_size) = ring_buf_get_claim b sz;
          m = memcpy data src (unat partial_size) m;
          total_size = total_size + partial_size;
          rest = sz - partial_size
      in if rest \<noteq> 0 \<and> partial_size \<noteq> 0 then get_loop b (data + unat partial_size) rest total_size m
         else (m, b, total_size))"
  by auto
termination get_loop
proof (relation "measure (\<lambda>(b, data, sz, total_size, m). unat sz)", goal_cases)
  case (2 b data sz total_size m x b' y dst p m' total' rest)
  have "p \<le> sz" "p \<noteq> 0"
    using 2 get_claim_le by auto
  then have "unat (sz - p) < unat sz"
    using unat_gt_0 [of p] by (simp add: unat_sub word_le_nat_alt)
  then show ?case
    using 2 by simp
qed simp

declare get_loop.simps [simp del]

definition ring_buf_get :: "ring_buf \<Rightarrow> nat \<Rightarrow> u32 \<Rightarrow> mem \<Rightarrow> mem \<times> ring_buf \<times> u32" where
  "ring_buf_get b data sz m =
     (case get_loop b data sz 0 m of (m, b, total_size) \<Rightarrow> (m, fst (ring_buf_get_finish b total_size), total_size))"

section \<open>Space\<close>

lemma word_eq_of_nat: "unat (w :: u32) = n \<Longrightarrow> w = of_nat n"
  by auto

definition rbf_wf :: "ring_buf \<Rightarrow> bool" where
  "rbf_wf b \<longleftrightarrow> 0 < unat (rbf_size b) \<and> unat (rbf_size b) \<le> 2 ^ 31 \<and>
     unat (rbf_head b) < unat (rbf_size b) \<and> unat (rbf_tail b) < unat (rbf_size b) \<and>
     rbf_mask b = (if is_power_of_two (rbf_size b) then rbf_size b - 1 else 0)"

abbreviation rbf_used :: "ring_buf \<Rightarrow> nat" where
  "rbf_used b \<equiv> ring_used (unat (rbf_size b)) (unat (rbf_head b)) (unat (rbf_tail b))"

lemma custom_space:
  assumes "unat sz \<le> 2 ^ 31" and "unat h < unat sz" and "unat t < unat sz"
  shows "unat (ring_buf_custom_space_get sz h t) = unat sz - 1 - ring_used (unat sz) (unat h) (unat t)"
proof (cases "t < h")
  case True
  then have l: "unat t < unat h"
    by (simp add: word_less_nat_alt)
  then have "unat (h - t) = unat h - unat t"
    by (simp add: unat_sub word_le_nat_alt)
  then have "unat (h - t - 1) = unat h - unat t - 1"
    using l by (subst unat_pred) simp_all
  then show ?thesis
    using True l assms by (simp add: ring_buf_custom_space_get_def ring_used_eq)
next
  case False
  then have l: "unat h \<le> unat t"
    by (simp add: word_less_nat_alt)
  have "unat (sz - t) = unat sz - unat t"
    using assms by (simp add: unat_sub word_le_nat_alt)
  then have "unat (sz - t + h) = unat sz - unat t + unat h"
    using assms by (simp add: unat_word_ariths)
  then have "unat (sz - t + h - 1) = unat sz - unat t + unat h - 1"
    using assms by (subst unat_pred) simp_all
  then show ?thesis
    using False l assms by (simp add: ring_buf_custom_space_get_def ring_used_eq)
qed

lemma wrap_mod:
  assumes "unat sz \<le> 2 ^ 31" and "unat t < unat sz" and "unat a \<le> unat sz"
  shows "unat (wrap (t + a) sz) = (unat t + unat a) mod unat sz"
proof -
  have "unat (t + a) = unat t + unat a"
    using assms by (simp add: unat_word_ariths)
  then show ?thesis
    using assms ring_index [of "unat t" "unat sz" "unat a"] by (auto simp: wrap_def word_le_nat_alt unat_sub)
qed

lemma space_get: "rbf_wf b \<Longrightarrow> unat (ring_buf_space_get b) = unat (rbf_size b) - 1 - rbf_used b"
  by (simp add: ring_buf_space_get_def rbf_wf_def custom_space)

section \<open>Byte mode\<close>

lemma min_unat: "unat (min v w) = min (unat v) (unat w)"
  by (simp add: min_def word_le_nat_alt)

lemma put_loop_effect:
  assumes "unat (rbf_size b) \<le> 2 ^ 31" and "unat (rbf_head b) < unat (rbf_size b)" and "unat (misc0 b) < unat (rbf_size b)"
    and "n = min (unat sz) (unat (rbf_size b) - 1 - ring_used (unat (rbf_size b)) (unat (rbf_head b)) (unat (misc0 b)))"
  shows "put_loop b data sz total_size m =
    (ring_copy_in (rbf_buf b) (unat (rbf_size b)) (unat (misc0 b)) data n m,
     b\<lparr>misc0 := of_nat ((unat (misc0 b) + n) mod unat (rbf_size b))\<rparr>, total_size + of_nat n)"
  using assms
proof (induction b data sz total_size m arbitrary: n rule: put_loop.induct)
  case (1 b data sz total_size m)
  let ?S = "unat (rbf_size b)" and ?t = "unat (misc0 b)"
  define F where "F = ?S - 1 - ring_used ?S (unat (rbf_head b)) ?t"
  define a where "a = snd (snd (ring_buf_put_claim b sz))"
  define b1 where "b1 = b\<lparr>misc0 := wrap (misc0 b + a) (rbf_size b)\<rparr>"
  define m1 where "m1 = memcpy (rbf_buf b + ?t) data (unat a) m"
  have claim: "ring_buf_put_claim b sz = (b1, rbf_buf b + ?t, a)"
    by (simp add: a_def b1_def ring_buf_put_claim_def Let_def)
  note p = "1.prems"
  have n: "n = min (unat sz) F" and nS: "n \<le> ?S"
    using p(2,4) by (simp_all add: F_def)
  have "unat (rbf_size b - misc0 b) = ?S - ?t"
    using p(3) by (simp add: unat_sub word_le_nat_alt)
  then have a: "unat a = min (?S - ?t) n"
    using custom_space [OF p(1-3)] by (simp add: a_def ring_buf_put_claim_def Let_def min_unat n F_def)
  have an: "unat a \<le> n" and S0: "0 < ?S"
    using a p(3) by simp_all
  have w: "unat (misc0 b1) = (?t + unat a) mod ?S"
    using wrap_mod [OF p(1,3), of a] a nS by (simp add: b1_def)
  have u: "ring_used ?S (unat (rbf_head b)) (unat (misc0 b1)) = ring_used ?S (unat (rbf_head b)) ?t + unat a"
  proof (unfold w, rule ring_used_put)
    have "unat a \<le> F"
      using an n by simp
    then show "ring_used ?S (unat (rbf_head b)) ?t + unat a < ?S"
      using ring_used_less [OF S0, of "unat (rbf_head b)" ?t] unfolding F_def by linarith
  qed
  have step: "ring_copy_in (rbf_buf b) ?S ?t data n m =
      ring_copy_in (rbf_buf b) ?S (unat (misc0 b1)) (data + unat a) (n - unat a) m1"
    unfolding w m1_def using p(3) nS a by (rule ring_copy_in_step)
  have rest: "unat (sz - a) = unat sz - unat a"
    using an n by (intro unat_sub) (simp add: word_le_nat_alt)
  show ?case
  proof (cases "sz - a \<noteq> 0 \<and> a \<noteq> 0")
    case True
    have IH: "put_loop b1 (data + unat a) (sz - a) (total_size + a) m1 =
      (ring_copy_in (rbf_buf b1) (unat (rbf_size b1)) (unat (misc0 b1)) (data + unat a) (n - unat a) m1,
       b1\<lparr>misc0 := of_nat ((unat (misc0 b1) + (n - unat a)) mod unat (rbf_size b1))\<rparr>,
       total_size + a + of_nat (n - unat a))"
      using True p(1,2) w S0 u an n
      by (intro "1.IH" [OF claim [symmetric] refl refl m1_def refl refl]) (auto simp: rest b1_def F_def)
    have "(unat (misc0 b1) + (n - unat a)) mod ?S = (?t + n) mod ?S"
      using mod_add_left_eq [of "?t + unat a" ?S "n - unat a"] an unfolding w by simp
    moreover have "a + of_nat (n - unat a) = (of_nat n :: u32)"
      using an by (simp add: of_nat_diff)
    ultimately show ?thesis
      using True IH step by (simp add: put_loop.simps [of b] claim m1_def b1_def add.assoc Let_def)
  next
    case False
    have na: "n = unat a"
    proof (cases "a = 0")
      case True
      then show ?thesis
        using a p(3) by simp
    next
      case nz: False
      then have "unat sz = unat a"
        using False rest by (metis an diff_is_0_eq le_antisym n min.bounded_iff unat_0)
      then show ?thesis
        using an n by simp
    qed
    then have "m1 = ring_copy_in (rbf_buf b) ?S ?t data n m"
      using step w S0 by simp
    moreover have "misc0 b1 = of_nat ((?t + n) mod ?S)"
      using w na by (simp add: word_eq_of_nat)
    ultimately show ?thesis
      using False na by (auto simp: put_loop.simps [of b] claim m1_def b1_def Let_def)
  qed
qed

lemma get_loop_effect:
  assumes "unat (rbf_size b) \<le> 2 ^ 31" and "unat (misc1 b) < unat (rbf_size b)" and "unat (rbf_tail b) < unat (rbf_size b)"
    and "n = min (unat sz) (ring_used (unat (rbf_size b)) (unat (misc1 b)) (unat (rbf_tail b)))"
  shows "get_loop b data sz total_size m =
    (ring_copy_out (rbf_buf b) (unat (rbf_size b)) (unat (misc1 b)) data n m,
     b\<lparr>misc1 := of_nat ((unat (misc1 b) + n) mod unat (rbf_size b))\<rparr>, total_size + of_nat n)"
  using assms
proof (induction b data sz total_size m arbitrary: n rule: get_loop.induct)
  case (1 b data sz total_size m)
  let ?S = "unat (rbf_size b)" and ?t = "unat (misc1 b)"
  define F where "F = ring_used ?S ?t (unat (rbf_tail b))"
  define a where "a = snd (snd (ring_buf_get_claim b sz))"
  define b1 where "b1 = b\<lparr>misc1 := wrap (misc1 b + a) (rbf_size b)\<rparr>"
  define m1 where "m1 = memcpy data (rbf_buf b + ?t) (unat a) m"
  have claim: "ring_buf_get_claim b sz = (b1, rbf_buf b + ?t, a)"
    by (simp add: a_def b1_def ring_buf_get_claim_def Let_def)
  note p = "1.prems"
  have S0: "0 < ?S"
    using p(2) by simp
  have F: "F < ?S"
    using ring_used_less [OF S0] by (simp add: F_def)
  have n: "n = min (unat sz) F" and nS: "n \<le> ?S"
    using p(4) F by (simp_all add: F_def)
  have "unat (rbf_size b - misc1 b) = ?S - ?t" "unat (rbf_size b - 1) = ?S - 1"
    using p(2) S0 by (simp_all add: unat_sub word_le_nat_alt unat_pred)
  moreover from this have "unat (rbf_size b - 1 - ring_buf_custom_space_get (rbf_size b) (misc1 b) (rbf_tail b)) = F"
    using custom_space [OF p(1-3)] F by (subst unat_sub) (simp_all add: word_le_nat_alt F_def)
  ultimately have a: "unat a = min (?S - ?t) n"
    by (simp add: a_def ring_buf_get_claim_def Let_def min_unat n)
  have an: "unat a \<le> n"
    using a by simp
  have w: "unat (misc1 b1) = (?t + unat a) mod ?S"
    using wrap_mod [OF p(1,2), of a] a nS by (simp add: b1_def)
  have u: "ring_used ?S (unat (misc1 b1)) (unat (rbf_tail b)) = F - unat a"
    unfolding w F_def using an n S0 by (intro ring_used_get) (simp_all add: F_def)
  have step: "ring_copy_out (rbf_buf b) ?S ?t data n m =
      ring_copy_out (rbf_buf b) ?S (unat (misc1 b1)) (data + unat a) (n - unat a) m1"
    unfolding w m1_def using p(2) nS a by (rule ring_copy_out_step)
  have rest: "unat (sz - a) = unat sz - unat a"
    using an n by (intro unat_sub) (simp add: word_le_nat_alt)
  show ?case
  proof (cases "sz - a \<noteq> 0 \<and> a \<noteq> 0")
    case True
    have IH: "get_loop b1 (data + unat a) (sz - a) (total_size + a) m1 =
      (ring_copy_out (rbf_buf b1) (unat (rbf_size b1)) (unat (misc1 b1)) (data + unat a) (n - unat a) m1,
       b1\<lparr>misc1 := of_nat ((unat (misc1 b1) + (n - unat a)) mod unat (rbf_size b1))\<rparr>,
       total_size + a + of_nat (n - unat a))"
      using True p(1,3) w S0 u an n
      by (intro "1.IH" [OF claim [symmetric] refl refl m1_def refl refl]) (auto simp: rest b1_def)
    have "(unat (misc1 b1) + (n - unat a)) mod ?S = (?t + n) mod ?S"
      using mod_add_left_eq [of "?t + unat a" ?S "n - unat a"] an unfolding w by simp
    moreover have "a + of_nat (n - unat a) = (of_nat n :: u32)"
      using an by (simp add: of_nat_diff)
    ultimately show ?thesis
      using True IH step by (simp add: get_loop.simps [of b] claim m1_def b1_def add.assoc Let_def)
  next
    case False
    have na: "n = unat a"
    proof (cases "a = 0")
      case True
      then show ?thesis
        using a p(2) by simp
    next
      case nz: False
      then have "unat sz = unat a"
        using False rest by (metis an diff_is_0_eq le_antisym n min.bounded_iff unat_0)
      then show ?thesis
        using an n by simp
    qed
    then have "m1 = ring_copy_out (rbf_buf b) ?S ?t data n m"
      using step w S0 by simp
    moreover have "misc1 b1 = of_nat ((?t + n) mod ?S)"
      using w na by (simp add: word_eq_of_nat)
    ultimately show ?thesis
      using False na by (auto simp: get_loop.simps [of b] claim m1_def b1_def Let_def)
  qed
qed

definition byte_wf :: "ring_buf \<Rightarrow> bool" where
  "byte_wf b \<longleftrightarrow> rbf_wf b \<and> misc0 b = rbf_tail b \<and> misc1 b = rbf_head b"

definition byte_contents :: "ring_buf \<Rightarrow> mem \<Rightarrow> u8 list" where
  "byte_contents b m = ring (bytes_at (rbf_buf b) m) (unat (rbf_size b)) (unat (rbf_head b)) (rbf_used b)"

abbreviation rbf_disjoint :: "ring_buf \<Rightarrow> nat \<Rightarrow> nat \<Rightarrow> bool" where
  "rbf_disjoint b data n \<equiv> disjoint_areas (rbf_buf b) (unat (rbf_size b)) data n"

lemma wrap_of_nat:
  assumes "unat sz \<le> 2 ^ 31" and "unat t < unat sz" and "n \<le> unat sz"
  shows "wrap (t + of_nat n) sz = of_nat ((unat t + n) mod unat sz)"
proof -
  have "unat (of_nat n :: u32) = n"
    using assms(3) by (rule unat_of_nat_le)
  then have "unat (wrap (t + of_nat n) sz) = (unat t + n) mod unat sz"
    using wrap_mod [OF assms(1,2), of "of_nat n"] assms(3) by simp
  then show ?thesis
    by (rule word_eq_of_nat)
qed

lemma unat_of_nat_mod: "0 < unat (w :: u32) \<Longrightarrow> unat (of_nat (k mod unat w) :: u32) = k mod unat w"
  by (rule unat_of_nat_le [of _ w]) (simp add: order_less_imp_le)

lemma ring_buf_put_effect:
  assumes wf: "byte_wf b" and n: "n = min (unat sz) (unat (ring_buf_space_get b))" and d: "rbf_disjoint b data n"
    and r: "ring_buf_put b data sz m = (m', b', k)"
  shows "k = of_nat n \<and> byte_wf b' \<and> byte_contents b' m' = byte_contents b m @ mem_read data n m"
proof -
  let ?S = "unat (rbf_size b)" and ?t = "unat (rbf_tail b)" and ?h = "unat (rbf_head b)"
  have w: "rbf_wf b" "misc0 b = rbf_tail b" "misc1 b = rbf_head b" and S: "?S \<le> 2 ^ 31" "?h < ?S" "?t < ?S" "0 < ?S"
    using wf by (simp_all add: byte_wf_def rbf_wf_def)
  have sp: "unat (ring_buf_space_get b) = ?S - 1 - rbf_used b"
    using w(1) by (rule space_get)
  have u: "rbf_used b + n < ?S"
    using ring_used_less [OF S(4), of ?h ?t] n sp by linarith
  have nn: "unat (of_nat n :: u32) = n"
    using n by (intro unat_of_nat_le [of _ sz]) simp
  define t' :: u32 where "t' = of_nat ((?t + n) mod ?S)"
  have t': "unat t' = (?t + n) mod ?S"
    using S(4) by (simp add: t'_def unat_of_nat_mod)
  have l: "put_loop b data sz 0 m = (ring_copy_in (rbf_buf b) ?S ?t data n m, b\<lparr>misc0 := t'\<rparr>, of_nat n)"
    using put_loop_effect [of b n sz data 0 m] S n sp by (simp add: w t'_def)
  have "\<not> (of_nat n :: u32) > ring_buf_space_get (b\<lparr>misc0 := t'\<rparr>)"
    using nn n by (simp add: word_less_nat_alt ring_buf_space_get_def)
  moreover have "wrap (rbf_tail b + of_nat n) (rbf_size b) = t'"
    unfolding t'_def using S u by (intro wrap_of_nat) simp_all
  ultimately have res: "m' = ring_copy_in (rbf_buf b) ?S ?t data n m" "b' = b\<lparr>misc0 := t', rbf_tail := t'\<rparr>" "k = of_nat n"
    using r l by (auto simp: ring_buf_put_def ring_buf_put_finish_def)
  have u': "rbf_used b' = rbf_used b + n"
    using u t' by (simp add: res ring_used_put)
  have "byte_wf b'"
    using w S t' by (simp add: byte_wf_def rbf_wf_def res)
  moreover have "byte_contents b' m' = byte_contents b m @ mem_read data n m"
    using ring_copy_in_append [OF d _ S(4), of "rbf_used b" ?h m] u ring_used_tail [OF S(3), of ?h]
    unfolding byte_contents_def u' by (simp add: res)
  ultimately show ?thesis
    using res(3) by simp
qed

lemma ring_buf_get_effect:
  assumes wf: "byte_wf b" and n: "n = min (unat sz) (rbf_used b)" and d: "rbf_disjoint b data n"
    and r: "ring_buf_get b data sz m = (m', b', k)"
  shows "k = of_nat n \<and> byte_wf b' \<and> mem_read data n m' = take n (byte_contents b m) \<and>
    byte_contents b' m' = drop n (byte_contents b m)"
proof -
  let ?S = "unat (rbf_size b)" and ?t = "unat (rbf_tail b)" and ?h = "unat (rbf_head b)"
  have w: "rbf_wf b" "misc0 b = rbf_tail b" "misc1 b = rbf_head b" and S: "?S \<le> 2 ^ 31" "?h < ?S" "?t < ?S" "0 < ?S"
    using wf by (simp_all add: byte_wf_def rbf_wf_def)
  have u: "n \<le> rbf_used b" "rbf_used b < ?S"
    using ring_used_less [OF S(4), of ?h ?t] n by simp_all
  have nS: "n \<le> ?S"
    using u by simp
  have nn: "unat (of_nat n :: u32) = n"
    using nS by (rule unat_of_nat_le)
  define h' :: u32 where "h' = of_nat ((?h + n) mod ?S)"
  have h': "unat h' = (?h + n) mod ?S"
    using S(4) by (simp add: h'_def unat_of_nat_mod)
  have l: "get_loop b data sz 0 m = (ring_copy_out (rbf_buf b) ?S ?h data n m, b\<lparr>misc1 := h'\<rparr>, of_nat n)"
    using get_loop_effect [of b n sz data 0 m] S n by (simp add: w h'_def)
  have "unat (rbf_size b - 1) = ?S - 1"
    using S(4) by (simp add: unat_pred)
  then have "unat (rbf_size b - 1 - ring_buf_space_get b) = rbf_used b"
    using u(2) space_get [OF w(1)] by (subst unat_sub) (simp_all add: word_le_nat_alt)
  then have "\<not> (of_nat n :: u32) > rbf_size b - 1 - ring_buf_space_get (b\<lparr>misc1 := h'\<rparr>)"
    using nn u(1) by (simp add: word_less_nat_alt ring_buf_space_get_def)
  moreover have "wrap (rbf_head b + of_nat n) (rbf_size b) = h'"
    unfolding h'_def using S nS by (intro wrap_of_nat) simp_all
  ultimately have res: "m' = ring_copy_out (rbf_buf b) ?S ?h data n m" "b' = b\<lparr>misc1 := h', rbf_head := h'\<rparr>" "k = of_nat n"
    using r l by (auto simp: ring_buf_get_def ring_buf_get_finish_def Let_def)
  have u': "rbf_used b' = rbf_used b - n"
    using u(1) S(4) h' by (simp add: res ring_used_get)
  have "byte_wf b'"
    using w S h' by (simp add: byte_wf_def rbf_wf_def res)
  moreover have "mem_read data n m' = take n (byte_contents b m)"
    using ring_copy_out_eq(1) [OF d S(2) nS, of m] u(1) by (simp add: res byte_contents_def ring_take)
  moreover have "byte_contents b' m' = drop n (byte_contents b m)"
    using ring_copy_out_ring [OF d S(2) nS, of m "unat h'" "rbf_used b - n"] u(1)
    unfolding byte_contents_def u' by (simp add: res ring_drop h')
  ultimately show ?thesis
    using res(3) by simp
qed

section \<open>Item mode\<close>

type_synonym item = "u16 \<times> u8 \<times> u32 list"

fun item_words :: "item \<Rightarrow> u32 list" where
  "item_words (ty, v, ws) = ring_element ty (of_nat (length ws)) v # ws"

abbreviation item_ok :: "item \<Rightarrow> bool" where
  "item_ok x \<equiv> length (snd (snd x)) < 256"

lemma ring_element_fields [simp]:
  "element_type (ring_element ty len v) = ty"
  "element_length (ring_element ty len v) = len"
  "element_value (ring_element ty len v) = v"
  by (rule bit_word_eqI; auto simp: element_type_def element_length_def element_value_def ring_element_def bit_simps
      dest: bit_imp_le_length)+

function parse_items :: "u32 list \<Rightarrow> item list" where
  "parse_items [] = []"
| "parse_items (e # ws) =
     (element_type e, element_value e, take (unat (element_length e)) ws) #
     parse_items (drop (unat (element_length e)) ws)"
  by pat_completeness auto
termination parse_items
  by (relation "measure length") auto

lemma parse_items_append:
  "item_ok x \<Longrightarrow> parse_items (item_words x @ ws) = x # parse_items ws"
  by (cases x) (simp add: unsigned_of_nat take_bit_nat_eq_self)

lemma parse_items_concat: "\<forall>x\<in>set xs. item_ok x \<Longrightarrow> parse_items (concat (map item_words xs)) = xs"
  by (induction xs) (simp_all add: parse_items_append)

definition word_read :: "nat \<Rightarrow> nat \<Rightarrow> wmem \<Rightarrow> u32 list" where
  "word_read a n m = map (\<lambda>i. m (a + 4 * i)) [0..<n]"

definition rbf_words :: "ring_buf \<Rightarrow> wmem \<Rightarrow> u32 list" where
  "rbf_words b m = ring (words_at (rbf_buf b) m) (unat (rbf_size b)) (unat (rbf_head b)) (rbf_used b)"

lemma length_word_read [simp]: "length (word_read a n m) = n"
  by (simp add: word_read_def)

lemma word_read_nth [simp]: "i < n \<Longrightarrow> word_read a n m ! i = m (a + 4 * i)"
  by (simp add: word_read_def)

lemma item_index_mod:
  assumes "rbf_wf b"
  shows "unat (item_index b x) = unat x mod unat (rbf_size b)"
proof (cases "rbf_mask b = 0")
  case True
  then show ?thesis
    by (simp add: item_index_def unat_mod)
next
  case False
  then have "is_power_of_two (rbf_size b)" "rbf_mask b = rbf_size b - 1"
    using assms by (auto simp: rbf_wf_def split: if_splits)
  then show ?thesis
    using False and_mask_mod [of "rbf_size b" x] by (simp add: item_index_def)
qed

text \<open>A loop that copies word by word, with its targets different from each other and from the sources.\<close>

lemma fold_copy:
  assumes "inj_on dst {..<n}" and "\<And>i j. i < n \<Longrightarrow> j < n \<Longrightarrow> src i \<noteq> dst j"
  shows "(\<forall>i<n. fold (\<lambda>i m. m(dst i := m (src i))) [0..<n] m (dst i) = m (src i)) \<and>
    (\<forall>x. (\<forall>i<n. x \<noteq> dst i) \<longrightarrow> fold (\<lambda>i m. m(dst i := m (src i))) [0..<n] m x = m x)"
  using assms
proof (induction n)
  case (Suc n)
  have inj: "inj_on dst {..<n}"
    using Suc.prems(1) by (rule inj_on_subset) auto
  have "dst i \<noteq> dst n" if "i < n" for i
    using Suc.prems(1) that by (auto dest: inj_onD)
  then show ?case
    using Suc.IH [OF inj] Suc.prems(2) by (auto simp: less_Suc_eq)
qed simp

lemma slots_inj: "n < sz \<Longrightarrow> inj_on (\<lambda>i. base + 4 * ((t + i) mod sz)) {..n :: nat}"
proof (rule inj_onI)
  fix i j assume "n < sz" "i \<in> {..n}" "j \<in> {..n}" "base + 4 * ((t + i) mod sz) = base + 4 * ((t + j) mod sz)"
  then show "i = j"
    using ring_slot_neq [of i j j sz t] ring_slot_neq [of j i i sz t] by (cases i j rule: linorder_cases) auto
qed

lemma unat_item_pos:
  assumes "rbf_wf b" and "unat x < unat (rbf_size b)" and "i < 256"
  shows "unat (item_index b (of_nat i + x + 1)) = (unat x + Suc i) mod unat (rbf_size b)"
proof -
  have "unat (of_nat i :: u32) = i"
    using assms(3) by (simp add: unsigned_of_nat take_bit_nat_eq_self)
  then have "unat (of_nat i + x + 1) = unat x + Suc i"
    using assms by (simp add: unat_word_ariths rbf_wf_def)
  then show ?thesis
    using item_index_mod [OF assms(1)] by simp
qed

lemma unat_ucast_u8: "unat (ucast (w :: u8) :: u32) = unat w"
proof -
  have "unat w < 2 ^ 32"
    using unsigned_less [of w, where 'a = nat] by simp
  then show ?thesis
    by (simp add: unsigned_ucast_eq take_bit_nat_eq_self)
qed

lemma ucast_of_nat_u8:
  assumes "n < 256"
  shows "ucast (of_nat n :: u8) = (of_nat n :: u32)"
  using assms by (intro word_eq_of_nat) (simp add: unat_ucast_u8 unsigned_of_nat take_bit_nat_eq_self)

lemma item_slots:
  assumes "rbf_wf b" and "unat x < unat (rbf_size b)" and "n < 256"
  shows "fold (\<lambda>i m. m(p i := m (rbf_buf b + 4 * unat (item_index b (of_nat i + x + 1))))) [0..<n] m =
      fold (\<lambda>i m. m(p i := m (rbf_buf b + 4 * ((unat x + Suc i) mod unat (rbf_size b))))) [0..<n] m"
    and "fold (\<lambda>i m. m(rbf_buf b + 4 * unat (item_index b (of_nat i + x + 1)) := m (p i))) [0..<n] m =
      fold (\<lambda>i m. m(rbf_buf b + 4 * ((unat x + Suc i) mod unat (rbf_size b)) := m (p i))) [0..<n] m"
  using assms by (auto intro!: fold_cong simp: unat_item_pos)

lemma ring_buf_item_put_effect:
  assumes wf: "rbf_wf b" and n: "n = unat size32" and sp: "n < unat (ring_buf_space_get b)"
    and d: "disjoint_areas (rbf_buf b) (4 * unat (rbf_size b)) data (4 * n)"
    and r: "ring_buf_item_put b ty v data size32 m = (m', b', k)"
  shows "k = 0 \<and> rbf_wf b' \<and> rbf_words b' m' = rbf_words b m @ item_words (ty, v, word_read data n m)"
proof -
  let ?S = "unat (rbf_size b)" and ?t = "unat (rbf_tail b)" and ?h = "unat (rbf_head b)" and ?B = "rbf_buf b"
  have S: "?S \<le> 2 ^ 31" "?h < ?S" "?t < ?S" "0 < ?S"
    using wf by (simp_all add: rbf_wf_def)
  have u: "rbf_used b + Suc n < ?S"
    using ring_used_less [OF S(4), of ?h ?t] sp space_get [OF wf] by linarith
  have n256: "n < 256"
    using n unsigned_less [of size32, where 'a = nat] by simp
  let ?dst = "\<lambda>i. ?B + 4 * ((?t + Suc i) mod ?S)"
  define m1 where "m1 = m(?B + 4 * ?t := ring_element ty size32 v)"
  define m2 where "m2 = fold (\<lambda>i m. m(?dst i := m (data + 4 * i))) [0..<n] m1"
  have "unat (ucast size32 + 1 :: u32) = Suc n"
    using n n256 by (simp add: unat_word_ariths unat_ucast_u8)
  then have "ucast size32 + 1 \<le> ring_buf_space_get b"
    using sp by (simp add: word_le_nat_alt)
  moreover have pos: "unat (item_index b (rbf_tail b + ucast size32 + 1)) = (?t + Suc n) mod ?S"
    using unat_item_pos [OF wf S(3) n256] n by (simp add: add.commute)
  ultimately have res: "k = 0" "m' = m2" "b' = b\<lparr>rbf_tail := item_index b (rbf_tail b + ucast size32 + 1)\<rparr>"
    using r item_slots(2) [OF wf S(3) n256, of "\<lambda>i. data + 4 * i" m1] n
    by (auto simp: ring_buf_item_put_def Let_def m1_def m2_def unat_ucast_u8)
  have inj: "inj_on ?dst {..<n}"
    using slots_inj [of n ?S ?B "Suc ?t"] u by (auto elim: inj_on_subset)
  have slot: "?B \<le> ?B + 4 * (j mod ?S)" "?B + 4 * (j mod ?S) < ?B + 4 * ?S" for j
    using S(4) by simp_all
  have src: "data + 4 * i \<noteq> ?B + 4 * (j mod ?S)" if "i < n" for i j
    using d that slot [of j] by (auto simp: disjoint_areas_def)
  note fc = fold_copy [OF inj, of "\<lambda>i. data + 4 * i" m1, folded m2_def, OF src]
  have t: "(?h + rbf_used b + i) mod ?S = (?t + i) mod ?S" for i
    using ring_used_tail [OF S(3), of ?h] by (metis mod_add_left_eq)
  have old: "ring (words_at ?B m2) ?S ?h (rbf_used b) = rbf_words b m"
    unfolding rbf_words_def
  proof (rule ring_update_free [where k = "Suc n"])
    fix j assume j: "j < ?S" "\<And>i. i < Suc n \<Longrightarrow> j \<noteq> (?h + rbf_used b + i) mod ?S"
    have "j \<noteq> (?t + i) mod ?S" if "i < Suc n" for i
      using j(2) [OF that] unfolding t .
    from this [of 0] this [of "Suc _"] have "j \<noteq> ?t" "\<forall>i<n. j \<noteq> (?t + Suc i) mod ?S"
      using S(3) by simp_all
    then show "m2 (?B + 4 * j) = m (?B + 4 * j)"
      using fc by (simp add: m1_def)
  qed (use u in simp)
  have "m2 (?B + 4 * ?t) = ring_element ty size32 v"
  proof -
    have "?t \<noteq> (?t + Suc i) mod ?S" if "i < n" for i
      using ring_slot_neq [of 0 1 "Suc i" ?S ?t] that u S(3) by simp
    then show ?thesis
      using fc by (simp add: m1_def)
  qed
  moreover have "m2 (?dst i) = m (data + 4 * i)" if "i < n" for i
    using fc that src [of i ?t] S(3) by (simp add: m1_def)
  ultimately have new: "ring (words_at ?B m2) ?S (?h + rbf_used b) (Suc n) = item_words (ty, v, word_read data n m)"
    using n S(3) by (intro nth_equalityI) (auto simp: t less_Suc_eq_0_disj)
  have u': "rbf_used b' = rbf_used b + Suc n"
    using ring_used_put [OF u] by (simp add: res pos)
  have "rbf_words b' m' = rbf_words b m @ item_words (ty, v, word_read data n m)"
    unfolding rbf_words_def [of b'] u' using old new ring_append [of "words_at ?B m2" ?S ?h "rbf_used b" "Suc n"]
    by (simp add: res)
  then show ?thesis
    using wf S(4) by (simp add: res rbf_wf_def pos)
qed

lemma ring_buf_item_get_effect:
  assumes wf: "rbf_wf b" and c: "rbf_words b m = item_words (ty, v, ws) @ rest" and ok: "length ws < 256"
    and r: "ring_buf_item_get b data m (ty0, v0, size32) = (m', b', k, out)"
  shows "(unat size32 < length ws \<longrightarrow> m' = m \<and> b' = b \<and> k = - EMSGSIZE \<and> out = (ty0, v0, of_nat (length ws))) \<and>
    (length ws \<le> unat size32 \<longrightarrow> disjoint_areas (rbf_buf b) (4 * unat (rbf_size b)) data (4 * length ws) \<longrightarrow>
       k = 0 \<and> out = (ty, v, of_nat (length ws)) \<and> word_read data (length ws) m' = ws \<and> rbf_wf b' \<and> rbf_words b' m' = rest)"
proof -
  let ?S = "unat (rbf_size b)" and ?t = "unat (rbf_tail b)" and ?h = "unat (rbf_head b)" and ?B = "rbf_buf b"
    and ?n = "length ws"
  have S: "?S \<le> 2 ^ 31" "?h < ?S" "?t < ?S" "0 < ?S"
    using wf by (simp_all add: rbf_wf_def)
  have u: "rbf_used b = Suc ?n + length rest"
    using arg_cong [OF c, of length] by (simp add: rbf_words_def)
  have ne: "rbf_head b \<noteq> rbf_tail b"
    using u ring_used_eq [OF S(2,3)] by auto
  have e: "m (?B + 4 * ?h) = ring_element ty (of_nat ?n) v"
    using arg_cong [OF c, of "\<lambda>xs. xs ! 0"] u S(2) by (simp add: rbf_words_def)
  have l: "unat (of_nat ?n :: u8) = ?n"
    using ok by (simp add: unsigned_of_nat take_bit_nat_eq_self)
  show ?thesis
  proof (cases "?n \<le> unat size32")
    case False
    then show ?thesis
      using r e ne l by (auto simp: ring_buf_item_get_def ring_buf_is_empty_def Let_def word_less_nat_alt)
  next
    case True
    let ?src = "\<lambda>i. ?B + 4 * ((?h + Suc i) mod ?S)"
    define m2 where "m2 = fold (\<lambda>i m. m(data + 4 * i := m (?src i))) [0..<?n] m"
    have pos: "unat (item_index b (rbf_head b + ucast (of_nat ?n :: u8) + 1)) = (?h + Suc ?n) mod ?S"
      using unat_item_pos [OF wf S(2) ok] ok
      by (simp add: add.commute ucast_of_nat_u8)
    have res: "k = 0" "m' = m2" "b' = b\<lparr>rbf_head := item_index b (rbf_head b + ucast (of_nat ?n :: u8) + 1)\<rparr>"
      "out = (ty, v, of_nat ?n)"
      using r item_slots(1) [OF wf S(2) ok, of "\<lambda>i. data + 4 * i" m] e ne l True
      by (auto simp: ring_buf_item_get_def ring_buf_is_empty_def Let_def m2_def word_less_nat_alt)
    have "word_read data ?n m2 = ws \<and> rbf_wf b' \<and> rbf_words b' m2 = rest"
      if d: "disjoint_areas (rbf_buf b) (4 * ?S) data (4 * ?n)"
    proof -
      have slot: "?B + 4 * (j mod ?S) < ?B + 4 * ?S" for j
        using S(4) by simp
      have src: "?B + 4 * (i mod ?S) \<noteq> data + 4 * j" if "j < ?n" for i j
        using d that slot [of i] by (auto simp: disjoint_areas_def)
      have "inj_on (\<lambda>i. data + 4 * i) {..<?n}"
        by (auto simp: inj_on_def)
      note fc = fold_copy [OF this, of ?src m, folded m2_def, OF src]
      have "word_read data ?n m2 = ws"
      proof (rule nth_equalityI)
        fix i assume "i < length (word_read data ?n m2)"
        then have i: "i < ?n"
          by simp
        have "m (?src i) = ws ! i"
          using arg_cong [OF c, of "\<lambda>xs. xs ! Suc i"] u i by (simp add: rbf_words_def nth_append)
        then show "word_read data ?n m2 ! i = ws ! i"
          using fc i by simp
      qed simp
      moreover have "rbf_wf b'"
        using wf S(4) by (simp add: res rbf_wf_def pos)
      moreover have "words_at ?B m2 (j mod ?S) = words_at ?B m (j mod ?S)" for j
        using fc src by simp
      then have "ring (words_at ?B m2) ?S i j = ring (words_at ?B m) ?S i j" for i j
        by (simp add: ring_def)
      moreover have "rbf_used b' = length rest"
        using ring_used_get [of "Suc ?n" ?S ?h ?t] u S(4) by (simp add: res pos)
      then have "rbf_words b' m2 = ring (words_at ?B m2) ?S (?h + Suc ?n) (length rest)"
        by (simp add: rbf_words_def res pos)
      moreover have "drop (Suc ?n) (rbf_words b m) = rest"
        using c by simp
      ultimately show ?thesis
        using ring_drop [of "Suc ?n" "rbf_used b" "words_at ?B m" ?S ?h] u by (simp add: rbf_words_def)
    qed
    then show ?thesis
      using True res by auto
  qed
qed

section \<open>Both modes as first-in first-out buffers\<close>

definition rb_byte_inv :: "mem \<times> ring_buf \<Rightarrow> bool" where
  "rb_byte_inv x \<longleftrightarrow> byte_wf (snd x)"

definition rb_byte_abs :: "mem \<times> ring_buf \<Rightarrow> u8 list" where
  "rb_byte_abs x = byte_contents (snd x) (fst x)"

fun rb_byte_ok :: "nat \<Rightarrow> u8 fifo_op \<Rightarrow> mem \<times> ring_buf \<Rightarrow> bool" where
  "rb_byte_ok data (Put xs) (m, b) \<longleftrightarrow> length xs \<le> unat (ring_buf_space_get b) \<and> rbf_disjoint b data (length xs)"
| "rb_byte_ok data (Get n) (m, b) \<longleftrightarrow> n \<le> rbf_used b \<and> rbf_disjoint b data n"

definition rb_byte_put :: "nat \<Rightarrow> u8 list \<Rightarrow> mem \<times> ring_buf \<Rightarrow> mem \<times> ring_buf" where
  "rb_byte_put data xs x =
     (case ring_buf_put (snd x) data (of_nat (length xs)) (mem_write data xs (fst x)) of (m, b, _) \<Rightarrow> (m, b))"

definition rb_byte_get :: "nat \<Rightarrow> nat \<Rightarrow> mem \<times> ring_buf \<Rightarrow> u8 list \<times> mem \<times> ring_buf" where
  "rb_byte_get data n x =
     (case ring_buf_get (snd x) data (of_nat n) (fst x) of (m, b, _) \<Rightarrow> (mem_read data n m, (m, b)))"

lemma rb_byte_put:
  assumes wf: "byte_wf b" and n: "length xs \<le> unat (ring_buf_space_get b)" and d: "rbf_disjoint b data (length xs)"
  shows "byte_wf (snd (rb_byte_put data xs (m, b))) \<and> rb_byte_abs (rb_byte_put data xs (m, b)) = byte_contents b m @ xs"
proof -
  let ?m = "mem_write data xs m" and ?n = "of_nat (length xs) :: u32"
  obtain m' b' k where r: "ring_buf_put b data ?n ?m = (m', b', k)"
    by (metis prod_cases3)
  have u: "length xs = min (unat ?n) (unat (ring_buf_space_get b))"
    using n unat_of_nat_le [OF n] by simp
  have "byte_contents b ?m = byte_contents b m"
    unfolding byte_contents_def using d wf
    by (intro ring_bytes_outside) (auto simp: disjoint_areas_def mem_write_outside byte_wf_def rbf_wf_def)
  then show ?thesis
    using ring_buf_put_effect [OF wf u d r] r by (simp add: rb_byte_put_def rb_byte_abs_def)
qed

lemma rb_byte_get:
  assumes wf: "byte_wf b" and n: "n \<le> rbf_used b" and d: "rbf_disjoint b data n"
  shows "byte_wf (snd (snd (rb_byte_get data n (m, b)))) \<and>
    byte_contents b m = fst (rb_byte_get data n (m, b)) @ rb_byte_abs (snd (rb_byte_get data n (m, b)))"
proof -
  obtain m' b' k where r: "ring_buf_get b data (of_nat n) m = (m', b', k)"
    by (metis prod_cases3)
  have S: "0 < unat (rbf_size b)"
    using wf by (simp add: byte_wf_def rbf_wf_def)
  have "n \<le> unat (rbf_size b)"
    using n ring_used_less [OF S, of "unat (rbf_head b)" "unat (rbf_tail b)"] by simp
  then have "unat (of_nat n :: u32) = n"
    by (rule unat_of_nat_le)
  then have u: "n = min (unat (of_nat n :: u32)) (rbf_used b)"
    using n by simp
  show ?thesis
    using ring_buf_get_effect [OF wf u d r] r by (simp add: rb_byte_get_def rb_byte_abs_def)
qed

interpretation bytes: fifo rb_byte_inv rb_byte_abs "rb_byte_ok data" "rb_byte_put data" "rb_byte_get data" for data
proof (unfold_locales, goal_cases)
  case (1 x xs)
  then show ?case
    using rb_byte_put [of "snd x" xs data "fst x"] by (cases x) (simp add: rb_byte_inv_def)
next
  case (2 x xs)
  then show ?case
    using rb_byte_put [of "snd x" xs data "fst x"] by (cases x) (simp add: rb_byte_inv_def rb_byte_abs_def [of "(_, _)"])
next
  case (3 x n)
  then show ?case
    using rb_byte_get [of "snd x" n data "fst x"] by (cases x) (simp add: rb_byte_inv_def)
next
  case (4 x n)
  then show ?case
    using rb_byte_get [of "snd x" n data "fst x"] by (cases x) (simp add: rb_byte_inv_def rb_byte_abs_def [of "(_, _)"])
qed

text \<open>In item mode the buffer holds the items of the list \<open>xs\<close>.\<close>

definition rb_items :: "ring_buf \<Rightarrow> wmem \<Rightarrow> item list \<Rightarrow> bool" where
  "rb_items b m xs \<longleftrightarrow> rbf_wf b \<and> (\<forall>x\<in>set xs. item_ok x) \<and> rbf_words b m = concat (map item_words xs)"

definition rb_item_inv :: "wmem \<times> ring_buf \<Rightarrow> bool" where
  "rb_item_inv x \<longleftrightarrow> (\<exists>xs. rb_items (snd x) (fst x) xs)"

definition rb_item_abs :: "wmem \<times> ring_buf \<Rightarrow> item list" where
  "rb_item_abs x = parse_items (rbf_words (snd x) (fst x))"

abbreviation rbw_disjoint :: "ring_buf \<Rightarrow> nat \<Rightarrow> nat \<Rightarrow> bool" where
  "rbw_disjoint b data n \<equiv> disjoint_areas (rbf_buf b) (4 * unat (rbf_size b)) data (4 * n)"

fun rb_item_ok :: "nat \<Rightarrow> item fifo_op \<Rightarrow> wmem \<times> ring_buf \<Rightarrow> bool" where
  "rb_item_ok data (Put xs) (m, b) \<longleftrightarrow> length xs = 1 \<and> item_ok (hd xs) \<and>
     length (snd (snd (hd xs))) < unat (ring_buf_space_get b) \<and> rbw_disjoint b data (length (snd (snd (hd xs))))"
| "rb_item_ok data (Get n) (m, b) \<longleftrightarrow> n = 1 \<and> \<not> ring_buf_is_empty b \<and> rbw_disjoint b data 255"

definition word_write :: "nat \<Rightarrow> u32 list \<Rightarrow> wmem \<Rightarrow> wmem" where
  "word_write a ws m = (\<lambda>x. if a \<le> x \<and> x < a + 4 * length ws \<and> (x - a) mod 4 = 0 then ws ! ((x - a) div 4) else m x)"

definition rb_item_put :: "nat \<Rightarrow> item list \<Rightarrow> wmem \<times> ring_buf \<Rightarrow> wmem \<times> ring_buf" where
  "rb_item_put data xs x =
     (case hd xs of (ty, v, ws) \<Rightarrow>
        case ring_buf_item_put (snd x) ty v data (of_nat (length ws)) (word_write data ws (fst x)) of (m, b, _) \<Rightarrow> (m, b))"

definition rb_item_get :: "nat \<Rightarrow> nat \<Rightarrow> wmem \<times> ring_buf \<Rightarrow> item list \<times> wmem \<times> ring_buf" where
  "rb_item_get data n x =
     (case ring_buf_item_get (snd x) data (fst x) (0, 0, 255) of
        (m, b, _, (ty, v, size32)) \<Rightarrow> ([(ty, v, word_read data (unat size32) m)], (m, b)))"

lemma word_read_write: "word_read a (length ws) (word_write a ws m) = ws"
  by (rule nth_equalityI) (auto simp: word_write_def)

lemma rb_items_abs: "rb_items b m xs \<Longrightarrow> rb_item_abs (m, b) = xs"
  by (simp add: rb_items_def rb_item_abs_def parse_items_concat)

lemma rb_items_put:
  assumes it: "rb_items b m xs" and ok: "length ws < 256" "length ws < unat (ring_buf_space_get b)"
    and d: "rbw_disjoint b data (length ws)"
  shows "rb_items (snd (rb_item_put data [(ty, v, ws)] (m, b))) (fst (rb_item_put data [(ty, v, ws)] (m, b)))
    (xs @ [(ty, v, ws)])"
proof -
  let ?m = "word_write data ws m" and ?n = "of_nat (length ws) :: u8"
  obtain m' b' k where r: "ring_buf_item_put b ty v data ?n ?m = (m', b', k)"
    by (metis prod_cases3)
  have u: "length ws = unat ?n"
    using ok(1) by (simp add: unsigned_of_nat take_bit_nat_eq_self)
  have wf: "rbf_wf b"
    using it by (simp add: rb_items_def)
  have S: "0 < unat (rbf_size b)"
    using wf by (simp add: rbf_wf_def)
  have "words_at (rbf_buf b) ?m (j mod unat (rbf_size b)) = words_at (rbf_buf b) m (j mod unat (rbf_size b))" for j
    using d mod_less_divisor [OF S, of j] by (auto simp: word_write_def disjoint_areas_def)
  then have "rbf_words b ?m = rbf_words b m"
    by (simp add: rbf_words_def ring_def)
  then show ?thesis
    using ring_buf_item_put_effect [OF wf u ok(2) d r] r it ok(1)
    by (auto simp: rb_item_put_def rb_items_def word_read_write)
qed

lemma rb_items_get:
  assumes it: "rb_items b m ((ty, v, ws) # xs)" and d: "rbw_disjoint b data 255"
  shows "fst (rb_item_get data 1 (m, b)) = [(ty, v, ws)]"
    and "rb_items (snd (snd (rb_item_get data 1 (m, b)))) (fst (snd (rb_item_get data 1 (m, b)))) xs"
proof -
  obtain m' b' k ty' v' n where r: "ring_buf_item_get b data m (0, 0, 255) = (m', b', k, (ty', v', n))"
    by (metis prod_cases3 prod_cases4)
  have i: "rbf_wf b" "rbf_words b m = item_words (ty, v, ws) @ concat (map item_words xs)" "length ws < 256"
    using it by (simp_all add: rb_items_def)
  have "length ws \<le> unat (255 :: u8)" "rbw_disjoint b data (length ws)"
    using i(3) d by (auto simp: disjoint_areas_def)
  then have e: "ty' = ty" "v' = v" "n = of_nat (length ws)" "word_read data (length ws) m' = ws" "rbf_wf b'"
    "rbf_words b' m' = concat (map item_words xs)"
    using ring_buf_item_get_effect [OF i r] by simp_all
  have "unat n = length ws"
    using i(3) by (simp add: e unsigned_of_nat take_bit_nat_eq_self)
  then show "fst (rb_item_get data 1 (m, b)) = [(ty, v, ws)]"
    "rb_items (snd (snd (rb_item_get data 1 (m, b)))) (fst (snd (rb_item_get data 1 (m, b)))) xs"
    using e r it by (simp_all add: rb_item_get_def rb_items_def)
qed

lemma rb_items_empty: "rb_items b m xs \<Longrightarrow> ring_buf_is_empty b \<longleftrightarrow> xs = []"
proof -
  assume it: "rb_items b m xs"
  have "unat (rbf_head b) < unat (rbf_size b)" "unat (rbf_tail b) < unat (rbf_size b)"
    using it by (simp_all add: rb_items_def rbf_wf_def)
  then have "ring_buf_is_empty b \<longleftrightarrow> rbf_used b = 0"
    unfolding ring_buf_is_empty_def word_unat_eq_iff [of "rbf_head b"] by (rule ring_used_0 [symmetric])
  moreover have "rbf_words b m = concat (map item_words xs)"
    using it by (simp add: rb_items_def)
  from arg_cong [OF this, of length] have "rbf_used b = length (concat (map item_words xs))"
    by (simp only: rbf_words_def length_ring)
  ultimately show ?thesis
    by (cases xs) auto
qed

interpretation items: fifo rb_item_inv rb_item_abs "rb_item_ok data" "rb_item_put data" "rb_item_get data" for data
proof (unfold_locales, goal_cases)
  case (1 x xs)
  obtain m b ty v ws ys where x: "x = (m, b)" "xs = [(ty, v, ws)]" "rb_items b m ys"
    using 1 by (cases x; cases xs) (auto simp: rb_item_inv_def)
  then show ?case
    using rb_items_put [OF x(3), of ws data ty v] 1 unfolding rb_item_inv_def by auto
next
  case (2 x xs)
  obtain m b ty v ws ys where x: "x = (m, b)" "xs = [(ty, v, ws)]" "rb_items b m ys"
    using 2 by (cases x; cases xs) (auto simp: rb_item_inv_def)
  then show ?case
    using rb_items_put [OF x(3), of ws data ty v, THEN rb_items_abs] 2 rb_items_abs [OF x(3)] by simp
next
  case (3 x n)
  obtain m b ty v ws ys where x: "x = (m, b)" "rb_items b m ((ty, v, ws) # ys)"
    using 3 rb_items_empty by (cases x) (fastforce simp: rb_item_inv_def neq_Nil_conv)
  then show ?case
    using rb_items_get(2) [OF x(2), of data] 3 by (auto simp: rb_item_inv_def)
next
  case (4 x n)
  obtain m b ty v ws ys where x: "x = (m, b)" "rb_items b m ((ty, v, ws) # ys)"
    using 4 rb_items_empty by (cases x) (fastforce simp: rb_item_inv_def neq_Nil_conv)
  then show ?case
    using rb_items_get(1) [OF x(2), of data] rb_items_get(2) [OF x(2), of data, THEN rb_items_abs] 4
      rb_items_abs [OF x(2)] by simp
qed

section \<open>Properties\<close>

text \<open>
  C25: Items come out as they went in. From a buffer that holds the items \<open>xs\<close>, after any
  sequence of item puts (while there is room) and item gets (while there are items), the
  items received followed by those stored are \<open>xs\<close> followed by the items put: type, value
  and data words of each, in order.
\<close>

theorem ring_buf_items_in_order:
  assumes "rb_items b m xs"
    and "run_fifo (rb_item_ok data) (rb_item_put data) (rb_item_get data) ops (m, b) = Some (out, (m', b'))"
  shows "\<exists>ys. rb_items b' m' ys \<and> xs @ fifo_input ops = out @ ys"
proof -
  have "rb_item_inv (m, b)"
    using assms(1) by (auto simp: rb_item_inv_def)
  from items.conservation [OF this assms(2)] obtain ys where
    "rb_items b' m' ys" "rb_item_abs (m, b) @ fifo_input ops = out @ rb_item_abs (m', b')"
    by (auto simp: rb_item_inv_def)
  then show ?thesis
    using rb_items_abs [OF assms(1)] rb_items_abs [of b' m' ys] by auto
qed

lemma rb_items_init: "rb_items (ring_buf_init 4 64) m []"
  by (simp add: rb_items_def rbf_wf_def ring_buf_init_def is_power_of_two_def rbf_words_def ring_used_eq)

theorem ring_buf_items_in_order_witness:
  "case run_fifo (rb_item_ok 8) (rb_item_put 8) (rb_item_get 8) [Put [(5, 6, [7, 8])]] ((\<lambda>_. 0), ring_buf_init 4 1064) of
     Some (out, (m, b)) \<Rightarrow> rb_items b m [(5, 6, [7, 8])] | None \<Rightarrow> False"
proof -
  have i: "rb_items (ring_buf_init 4 1064) (\<lambda>_. 0) []"
    by (simp add: rb_items_def rbf_wf_def ring_buf_init_def is_power_of_two_def rbf_words_def ring_used_eq)
  let ?r = "run_fifo (rb_item_ok 8) (rb_item_put 8) (rb_item_get 8) [Put [(5, 6, [7, 8])]] ((\<lambda>_. 0), ring_buf_init 4 1064)"
  have "\<exists>m b. ?r = Some ([], (m, b))"
    by (simp add: ring_buf_init_def ring_buf_space_get_def ring_buf_custom_space_get_def disjoint_areas_def)
  then obtain m b where r: "?r = Some ([], (m, b))"
    by blast
  show ?thesis
    unfolding r using ring_buf_items_in_order [OF i r] by simp
qed

text \<open>
  C27: In byte mode the buffer is a first-in first-out byte stream: a put accepts as many bytes
  as there is room for and appends them to the stored bytes, a get takes as many as there are
  (at most the number asked for) from the front, both report the number, the loops over the
  claimed areas end, and the buffer stays well formed.
\<close>

theorem ring_buf_bytes_put_get:
  assumes "byte_wf b" and "n = min (unat sz) (unat (ring_buf_space_get b))" and "rbf_disjoint b data n"
    and "ring_buf_put b data sz m = (m1, b1, k1)"
    and "j = min (unat sz') (rbf_used b1)" and "rbf_disjoint b1 data' j"
    and "ring_buf_get b1 data' sz' m1 = (m2, b2, k2)"
  shows "k1 = of_nat n \<and> byte_wf b1 \<and> byte_contents b1 m1 = byte_contents b m @ mem_read data n m \<and>
    k2 = of_nat j \<and> byte_wf b2 \<and> byte_contents b1 m1 = mem_read data' j m2 @ byte_contents b2 m2"
proof -
  note p = ring_buf_put_effect [OF assms(1-4)]
  then have g: "k2 = of_nat j \<and> byte_wf b2 \<and> mem_read data' j m2 = take j (byte_contents b1 m1) \<and>
      byte_contents b2 m2 = drop j (byte_contents b1 m1)"
    using ring_buf_get_effect [OF _ assms(5-7)] by blast
  then have "byte_contents b1 m1 = mem_read data' j m2 @ byte_contents b2 m2"
    by (metis append_take_drop_id)
  with p g show ?thesis
    by blast
qed

theorem ring_buf_bytes_put_get_witness:
  "case ring_buf_put (ring_buf_init 5 64) 8 6 (\<lambda>a. of_nat a) of (m1, b1, k1) \<Rightarrow>
   case ring_buf_get b1 16 3 m1 of (m2, b2, k2) \<Rightarrow>
     k1 = 4 \<and> k2 = 3 \<and> [8, 9, 10, 11] = mem_read 16 3 m2 @ byte_contents b2 m2"
proof -
  let ?b = "ring_buf_init 5 64" and ?m = "\<lambda>a. of_nat a :: u8"
  have wf: "byte_wf ?b" "4 = min (unat (6 :: u32)) (unat (ring_buf_space_get ?b))" "rbf_disjoint ?b 8 4"
    "byte_contents ?b ?m = []" "mem_read 8 4 ?m = [8, 9, 10, 11]"
    by (simp_all add: byte_wf_def rbf_wf_def ring_buf_init_def is_power_of_two_def ring_buf_space_get_def
        ring_buf_custom_space_get_def disjoint_areas_def byte_contents_def ring_used_eq mem_read_def upt_rec)
  obtain m1 b1 k1 where r1: "ring_buf_put ?b 8 6 ?m = (m1, b1, k1)"
    by (metis prod_cases3)
  obtain m2 b2 k2 where r2: "ring_buf_get b1 16 3 m1 = (m2, b2, k2)"
    by (metis prod_cases3)
  have b1: "snd (ring_buf_put ?b 8 6 ?m) = (ring_buf_init 5 64\<lparr>rbf_tail := 4, misc0 := 4\<rparr>, 4)"
    by code_simp
  then have "3 = min (unat (3 :: u32)) (rbf_used b1)" "rbf_disjoint b1 16 3"
    using r1 by (simp_all add: ring_buf_init_def ring_used_eq disjoint_areas_def)
  from ring_buf_bytes_put_get [OF wf(1-3) r1 this r2, unfolded wf(4,5)]
  have "k1 = 4" "k2 = 3" "byte_contents b1 m1 = [8, 9, 10, 11]"
    "byte_contents b1 m1 = mem_read 16 3 m2 @ byte_contents b2 m2"
    by auto
  then show ?thesis
    unfolding r1 by (auto simp: r2)
qed

text \<open>
  Errors of the item mode. A put that finds too little room returns \<open>-EMSGSIZE\<close>, counts the
  dropped item and changes nothing else; a get from an empty buffer returns \<open>-EAGAIN\<close>; a get
  into an area that is too small returns \<open>-EMSGSIZE\<close>, reports the size needed and leaves the
  item in the buffer.
\<close>

theorem ring_buf_item_errors:
  assumes "rb_items b m xs"
  shows "(unat (ring_buf_space_get b) \<le> unat size32 \<longrightarrow>
       ring_buf_item_put b ty v data size32 m = (m, b\<lparr>misc0 := misc0 b + 1\<rparr>, - EMSGSIZE)) \<and>
    (xs = [] \<longrightarrow> ring_buf_item_get b data m (ty, v, size32) = (m, b, - EAGAIN, (ty, v, size32))) \<and>
    (xs \<noteq> [] \<and> unat size32 < length (snd (snd (hd xs))) \<longrightarrow>
       ring_buf_item_get b data m (ty, v, size32) = (m, b, - EMSGSIZE, (ty, v, of_nat (length (snd (snd (hd xs)))))))"
proof -
  have "ring_buf_item_put b ty v data size32 m = (m, b\<lparr>misc0 := misc0 b + 1\<rparr>, - EMSGSIZE)"
    if "unat (ring_buf_space_get b) \<le> unat size32"
  proof -
    have "unat (ucast size32 + 1 :: u32) = Suc (unat size32)"
      using unsigned_less [of size32, where 'a = nat] by (simp add: unat_word_ariths unat_ucast_u8)
    then show ?thesis
      using that by (simp add: ring_buf_item_put_def Let_def word_le_nat_alt)
  qed
  moreover have "ring_buf_item_get b data m (ty, v, size32) = (m, b, - EAGAIN, (ty, v, size32))" if "xs = []"
    using that rb_items_empty [OF assms] by (simp add: ring_buf_item_get_def)
  moreover have "ring_buf_item_get b data m (ty, v, size32) =
      (m, b, - EMSGSIZE, (ty, v, of_nat (length (snd (snd (hd xs))))))"
    if ne: "xs \<noteq> []" and small: "unat size32 < length (snd (snd (hd xs)))"
  proof -
    obtain t w ws ys where xs: "xs = (t, w, ws) # ys"
      using ne by (cases xs) auto
    obtain m' b' k out where r: "ring_buf_item_get b data m (ty, v, size32) = (m', b', k, out)"
      by (metis prod_cases4)
    have "rbf_wf b" "rbf_words b m = item_words (t, w, ws) @ concat (map item_words ys)" "length ws < 256"
      using assms by (simp_all add: rb_items_def xs)
    from ring_buf_item_get_effect [OF this r] show ?thesis
      using r small by (simp add: xs)
  qed
  ultimately show ?thesis
    by blast
qed

theorem ring_buf_item_errors_witness:
  "ring_buf_item_put (ring_buf_init 4 64) 1 2 8 3 (\<lambda>_. 0) =
     ((\<lambda>_. 0), ring_buf_init 4 64\<lparr>misc0 := 1\<rparr>, - EMSGSIZE)"
proof -
  have "unat (ring_buf_space_get (ring_buf_init 4 64)) \<le> unat (3 :: u8)" "misc0 (ring_buf_init 4 64) = 0"
    by (simp_all add: ring_buf_init_def ring_buf_space_get_def ring_buf_custom_space_get_def)
  then show ?thesis
    using ring_buf_item_errors [OF rb_items_init, of "3 :: u8"] by simp
qed

end
