(* ===== verification/Mempool.thy ===== *)
theory Mempool
  imports Waitable
begin

unbundle bit_operations_syntax

text \<open>
  Memory pools: kernel/mempool.c and the pool structures and sizing macros of
  include/kernel.h. A level's free list is the list of the addresses of its free blocks
  (Dlist_Links shows that the linked list in the blocks implements such lists). The free
  bits of a level are one word inside the level (\<open>bits\<close>) or an array behind the pool's
  buffer (\<open>bits_p\<close>): both share the word \<open>lvl_bits\<close>, as in the C union, and \<open>m\<close> gives the
  words in memory. Accessing a word of an inline array past its only one overwrites the
  fields that follow it; the model then sets the flag \<open>stray\<close>. Addresses and sizes
  are natural numbers.
\<close>

record k_mem_block =
  data :: nat
  id_pool :: nat
  id_level :: nat
  id_block :: nat

record k_mem_pool_lvl =
  lvl_bits :: u32
  lvl_free :: "nat list"

record k_mem_pool =
  pool_buf :: nat
  max_sz :: nat
  n_max :: nat
  n_levels :: nat
  max_inline_level :: nat
  levels :: "nat \<Rightarrow> k_mem_pool_lvl"
  pool_wait_q :: wqid
  stray :: bool

type_synonym wmem = "nat \<Rightarrow> u32"
type_synonym pool_state = "wmem \<times> k_mem_pool"

section \<open>Sizes\<close>

definition ALIGN4 :: "nat \<Rightarrow> nat" where
  "ALIGN4 n = (n + 3) div 4 * 4"

definition MPOOL_HAVE_LVL :: "nat \<Rightarrow> nat \<Rightarrow> nat \<Rightarrow> nat" where
  "MPOOL_HAVE_LVL maxsz minsz l = (if minsz \<le> drop_bit (2 * l) maxsz then 1 else 0)"

definition MPOOL_LVLS :: "nat \<Rightarrow> nat \<Rightarrow> nat" where
  "MPOOL_LVLS maxsz minsz = (\<Sum>l\<leftarrow>[0..<16]. MPOOL_HAVE_LVL maxsz minsz l)"

definition MPOOL_LBIT_WORDS_UNCLAMPED :: "nat \<Rightarrow> nat \<Rightarrow> nat" where
  "MPOOL_LBIT_WORDS_UNCLAMPED nmax l = (push_bit (2 * l) nmax + 31) div 32"

definition MPOOL_LBIT_WORDS :: "nat \<Rightarrow> nat \<Rightarrow> nat" where
  "MPOOL_LBIT_WORDS nmax l =
     (if MPOOL_LBIT_WORDS_UNCLAMPED nmax l < 2 then 0 else MPOOL_LBIT_WORDS_UNCLAMPED nmax l)"

definition MPOOL_LBIT_BYTES :: "nat \<Rightarrow> nat \<Rightarrow> nat \<Rightarrow> nat \<Rightarrow> nat" where
  "MPOOL_LBIT_BYTES maxsz minsz l nmax =
     (if l \<le> MPOOL_LVLS maxsz minsz then 4 * MPOOL_LBIT_WORDS nmax l else 0)"

definition MPOOL_BITS_SIZE :: "nat \<Rightarrow> nat \<Rightarrow> nat \<Rightarrow> nat" where
  "MPOOL_BITS_SIZE maxsz minsz nmax = (\<Sum>l\<leftarrow>[0..<16]. MPOOL_LBIT_BYTES maxsz minsz l nmax)"

text \<open>
  The pool \<open>K_MEM_POOL_DEFINE\<close> sets up at address \<open>buf\<close>, static data being zero, and the
  number of bytes it reserves there.
\<close>

definition K_MEM_POOL_DEFINE :: "nat \<Rightarrow> wqid \<Rightarrow> nat \<Rightarrow> nat \<Rightarrow> nat \<Rightarrow> k_mem_pool" where
  "K_MEM_POOL_DEFINE buf w minsz maxsz nmax =
     \<lparr>pool_buf = buf, max_sz = maxsz, n_max = nmax, n_levels = MPOOL_LVLS maxsz minsz, max_inline_level = 0,
      levels = (\<lambda>_. \<lparr>lvl_bits = 0, lvl_free = []\<rparr>), pool_wait_q = w, stray = False\<rparr>"

definition mpool_reserved :: "nat \<Rightarrow> nat \<Rightarrow> nat \<Rightarrow> nat" where
  "mpool_reserved minsz maxsz nmax = ALIGN4 (maxsz * nmax) + MPOOL_BITS_SIZE maxsz minsz nmax"

section \<open>Blocks and free bits\<close>

definition get_pool :: "(nat \<Rightarrow> k_mem_pool) \<Rightarrow> nat \<Rightarrow> k_mem_pool" where
  "get_pool pools i = pools i"

definition block_ptr :: "k_mem_pool \<Rightarrow> nat \<Rightarrow> nat \<Rightarrow> nat" where
  "block_ptr p lsz block = pool_buf p + lsz * block"

definition block_num :: "k_mem_pool \<Rightarrow> nat \<Rightarrow> nat \<Rightarrow> nat" where
  "block_num p block sz = (block - pool_buf p) div sz"

definition level_empty :: "k_mem_pool \<Rightarrow> nat \<Rightarrow> bool" where
  "level_empty p l \<longleftrightarrow> lvl_free (levels p l) = []"

datatype bit_word = Inline nat nat | External nat

definition get_bit_ptr :: "k_mem_pool \<Rightarrow> nat \<Rightarrow> nat \<Rightarrow> bit_word \<times> nat" where
  "get_bit_ptr p level bn =
     (if level \<le> max_inline_level p then Inline level (bn div 32)
      else External (unat (lvl_bits (levels p level)) + 4 * (bn div 32)),
      bn mod 32)"

fun read_word :: "bit_word \<Rightarrow> pool_state \<Rightarrow> u32" where
  "read_word (Inline l i) (m, p) = (if i = 0 then lvl_bits (levels p l) else 0)"
| "read_word (External a) (m, p) = m a"

definition set_level :: "nat \<Rightarrow> (k_mem_pool_lvl \<Rightarrow> k_mem_pool_lvl) \<Rightarrow> k_mem_pool \<Rightarrow> k_mem_pool" where
  "set_level l f p = p\<lparr>levels := (levels p)(l := f (levels p l))\<rparr>"

fun write_word :: "bit_word \<Rightarrow> u32 \<Rightarrow> pool_state \<Rightarrow> pool_state" where
  "write_word (Inline l i) w (m, p) =
     (m, if i = 0 then set_level l (\<lambda>v. v\<lparr>lvl_bits := w\<rparr>) p else p\<lparr>stray := True\<rparr>)"
| "write_word (External a) w (m, p) = (m(a := w), p)"

definition set_free_bit :: "nat \<Rightarrow> nat \<Rightarrow> pool_state \<Rightarrow> pool_state" where
  "set_free_bit level bn x =
     (case get_bit_ptr (snd x) level bn of (w, b) \<Rightarrow> write_word w (read_word w x OR push_bit b 1) x)"

definition clear_free_bit :: "nat \<Rightarrow> nat \<Rightarrow> pool_state \<Rightarrow> pool_state" where
  "clear_free_bit level bn x =
     (case get_bit_ptr (snd x) level bn of (w, b) \<Rightarrow> write_word w (read_word w x AND NOT (push_bit b 1)) x)"

definition partner_bits :: "nat \<Rightarrow> nat \<Rightarrow> pool_state \<Rightarrow> u32" where
  "partner_bits level bn x =
     (case get_bit_ptr (snd x) level bn of (w, b) \<Rightarrow> drop_bit (4 * (b div 4)) (read_word w x) AND 15)"

definition buf_size :: "k_mem_pool \<Rightarrow> nat" where
  "buf_size p = n_max p * max_sz p"

definition block_fits :: "k_mem_pool \<Rightarrow> nat \<Rightarrow> nat \<Rightarrow> bool" where
  "block_fits p block bsz \<longleftrightarrow> block + bsz - 1 - pool_buf p < buf_size p"

definition set_free_list :: "nat \<Rightarrow> (nat list \<Rightarrow> nat list) \<Rightarrow> pool_state \<Rightarrow> pool_state" where
  "set_free_list l f x = (fst x, set_level l (\<lambda>v. v\<lparr>lvl_free := f (lvl_free v)\<rparr>) (snd x))"

section \<open>Initialisation\<close>

definition init_level :: "nat \<Rightarrow> nat \<Rightarrow> k_mem_pool \<times> nat \<times> nat \<Rightarrow> k_mem_pool \<times> nat \<times> nat" where
  "init_level buflen i y =
     (case y of (p, bits, sz) \<Rightarrow>
        let nblocks = buflen div sz;
            p = set_level i (\<lambda>v. v\<lparr>lvl_free := []\<rparr>) p;
            (p, bits) =
              (if nblocks < 32 then (p\<lparr>max_inline_level := i\<rparr>, bits)
               else (set_level i (\<lambda>v. v\<lparr>lvl_bits := of_nat bits\<rparr>) p, bits + 4 * ((nblocks + 31) div 32)))
        in (p, bits, ALIGN4 (sz div 4)))"

definition init_levels :: "k_mem_pool \<Rightarrow> k_mem_pool \<times> nat \<times> nat" where
  "init_levels p =
     (let buflen = n_max p * max_sz p
      in fold (init_level buflen) [0..<n_levels p] (p, pool_buf p + buflen, max_sz p))"

definition init_blocks :: "pool_state \<Rightarrow> pool_state" where
  "init_blocks x =
     fold (\<lambda>i x. let block = block_ptr (snd x) (max_sz (snd x)) i
                 in set_free_bit 0 i (set_free_list 0 (\<lambda>xs. xs @ [block]) x))
       [0..<n_max (snd x)] x"

definition init_mem_pool :: "kernel \<times> pool_state \<Rightarrow> kernel \<times> pool_state" where
  "init_mem_pool y =
     (case y of (s, m, p) \<Rightarrow>
        (s\<lparr>wait_qs := (wait_qs s)(pool_wait_q p := [])\<rparr>, init_blocks (m, fst (init_levels p))))"

definition init_static_pools ::
    "nat \<Rightarrow> kernel \<times> wmem \<times> (nat \<Rightarrow> k_mem_pool) \<Rightarrow> kernel \<times> wmem \<times> (nat \<Rightarrow> k_mem_pool)" where
  "init_static_pools n =
     fold (\<lambda>i y. case y of (s, m, pools) \<Rightarrow>
             case init_mem_pool (s, m, pools i) of (s, m, p) \<Rightarrow> (s, m, pools(i := p))) [0..<n]"

section \<open>Allocating and freeing\<close>

definition alloc_block :: "nat \<Rightarrow> nat \<Rightarrow> pool_state \<Rightarrow> pool_state \<times> nat option" where
  "alloc_block l lsz x =
     (case lvl_free (levels (snd x) l) of
        [] \<Rightarrow> (x, None)
      | block # _ \<Rightarrow>
          (clear_free_bit l (block_num (snd x) block lsz) (set_free_list l tl x), Some block))"

text \<open>
  The section of \<open>free_block\<close> that runs with interrupts locked. It gives the block to free
  at the next larger level, or \<open>None\<close> when the function returns.
\<close>

definition free_block_locked :: "nat \<Rightarrow> nat \<Rightarrow> nat \<Rightarrow> pool_state \<Rightarrow> pool_state \<times> nat option" where
  "free_block_locked level lsz bn x =
     (let block = block_ptr (snd x) lsz bn;
          x = set_free_bit level bn x
      in if level \<noteq> 0 \<and> partner_bits level bn x = 15 then
           (fold (\<lambda>i x.
              let b = 4 * (bn div 4) + i;
                  x = clear_free_bit level b x
              in if b \<noteq> bn \<and> block_fits (snd x) (block_ptr (snd x) lsz b) lsz
                 then set_free_list level (remove1 (block_ptr (snd x) lsz b)) x else x) [0..<4] x,
            Some (bn div 4))
         else if block_fits (snd x) block lsz then (set_free_list level (\<lambda>xs. xs @ [block]) x, None)
         else (x, None))"

fun free_block :: "nat \<Rightarrow> (nat \<Rightarrow> nat) \<Rightarrow> nat \<Rightarrow> pool_state \<Rightarrow> pool_state" where
  "free_block level lsizes bn x =
     (case (free_block_locked level (lsizes level) bn x, level) of
        ((x, Some bn), Suc level) \<Rightarrow> free_block level lsizes bn x
      | ((x, _), _) \<Rightarrow> x)"

definition break_block :: "nat \<Rightarrow> nat \<Rightarrow> (nat \<Rightarrow> nat) \<Rightarrow> pool_state \<Rightarrow> pool_state \<times> nat" where
  "break_block block l lsizes x =
     (let bn = block_num (snd x) block (lsizes l)
      in (fold (\<lambda>i x.
            let lbn = 4 * bn + i;
                lsz = lsizes (l + 1);
                block2 = lsz * i + block;
                x = set_free_bit (l + 1) lbn x
            in if block_fits (snd x) block2 lsz then set_free_list (l + 1) (\<lambda>xs. xs @ [block2]) x else x)
            [1..<4] x,
          block))"

primrec lsizes :: "k_mem_pool \<Rightarrow> nat \<Rightarrow> nat" where
  "lsizes p 0 = ALIGN4 (max_sz p)"
| "lsizes p (Suc i) = ALIGN4 (lsizes p i div 4)"

fun find_levels :: "k_mem_pool \<Rightarrow> nat \<Rightarrow> nat list \<Rightarrow> nat option \<times> nat option \<Rightarrow> nat option \<times> nat option" where
  "find_levels p sz [] r = r"
| "find_levels p sz (i # is) (alloc_l, free_l) =
     (if lsizes p i < sz then (alloc_l, free_l)
      else find_levels p sz is (Some i, if level_empty p i then free_l else Some i))"

fun break_blocks :: "(nat \<Rightarrow> nat) \<Rightarrow> nat list \<Rightarrow> pool_state \<times> nat \<Rightarrow> pool_state \<times> nat" where
  "break_blocks lsz [] y = y"
| "break_blocks lsz (l # ls) (x, blk) = break_blocks lsz ls (break_block blk l lsz x)"

definition pool_alloc :: "nat \<Rightarrow> k_mem_block \<Rightarrow> nat \<Rightarrow> pool_state \<Rightarrow> pool_state \<times> k_mem_block \<times> int" where
  "pool_alloc i block sz x =
     (case find_levels (snd x) sz [0..<n_levels (snd x)] (None, None) of
        (Some alloc_l, Some free_l) \<Rightarrow>
          (let lsz = lsizes (snd x)
           in case alloc_block free_l (lsz free_l) x of
                (x, None) \<Rightarrow> (x, block, - EAGAIN)
              | (x, Some blk) \<Rightarrow>
                  case break_blocks lsz [free_l..<alloc_l] (x, blk) of (x, blk) \<Rightarrow>
                    (x, block\<lparr>data := blk, id_pool := i mod 2 ^ 8, id_level := alloc_l mod 2 ^ 4,
                              id_block := block_num (snd x) blk (lsz alloc_l) mod 2 ^ 20\<rparr>, 0))
      | _ \<Rightarrow> (x, block\<lparr>data := 0\<rparr>, - ENOMEM))"

section \<open>The interface of the pools\<close>

type_synonym pools_state = "kernel \<times> wmem \<times> (nat \<Rightarrow> k_mem_pool)"

definition k_mem_pool_alloc_try ::
    "(fn_ptr \<Rightarrow> toid \<Rightarrow> kernel \<Rightarrow> kernel) \<Rightarrow> nat \<Rightarrow> k_mem_block \<Rightarrow> nat \<Rightarrow> int \<Rightarrow> pools_state
      \<Rightarrow> pools_state \<times> k_mem_block \<times> int outcome" where
  "k_mem_pool_alloc_try call i block sz timeout y =
     (case y of (s, m, pools) \<Rightarrow>
        case pool_alloc i block sz (m, get_pool pools i) of ((m, p), block, ret) \<Rightarrow>
          let pools = pools(i := p)
          in if ret = 0 \<or> timeout = K_NO_WAIT \<or> ret = - EAGAIN \<or> ret \<noteq> 0 \<and> ret \<noteq> - ENOMEM
             then ((s, m, pools), block, Returned ret)
             else
               let s = pend_current_thread call (pool_wait_q p) timeout s
               in ((Swap s, m, pools), block, Switched_out))"

definition k_mem_pool_alloc ::
    "(fn_ptr \<Rightarrow> toid \<Rightarrow> kernel \<Rightarrow> kernel) \<Rightarrow> nat \<Rightarrow> k_mem_block \<Rightarrow> nat \<Rightarrow> int \<Rightarrow> pools_state
      \<Rightarrow> int \<times> pools_state \<times> k_mem_block \<times> int outcome" where
  "k_mem_pool_alloc call i block sz timeout y =
     (case y of (s, m, pools) \<Rightarrow>
        let s = kassert (\<not> (is_in_isr s \<and> timeout \<noteq> K_NO_WAIT)) s;
            end_tick = (if 0 < timeout then sint (tick_get s) + ms_to_ticks timeout else 0)
        in (end_tick, k_mem_pool_alloc_try call i block sz timeout (s, m, pools)))"

text \<open>
  The rest of the loop when the thread runs again: \<open>end_tick\<close>, \<open>timeout\<close> and \<open>block\<close> are its
  local variables. The new timeout is the one of the next round.
\<close>

definition k_mem_pool_alloc_resume ::
    "(fn_ptr \<Rightarrow> toid \<Rightarrow> kernel \<Rightarrow> kernel) \<Rightarrow> nat \<Rightarrow> k_mem_block \<Rightarrow> nat \<Rightarrow> int \<Rightarrow> int \<Rightarrow> pools_state
      \<Rightarrow> int \<times> pools_state \<times> k_mem_block \<times> int outcome" where
  "k_mem_pool_alloc_resume call i block sz timeout end_tick y =
     (if timeout \<noteq> K_FOREVER then
        let timeout = sint (word_of_int (end_tick - sint (tick_get (fst y))) :: u32)
        in if timeout < 0 then (timeout, y, block, Returned (- EAGAIN))
           else (timeout, k_mem_pool_alloc_try call i block sz timeout y)
      else (timeout, k_mem_pool_alloc_try call i block sz timeout y))"

function wake_all :: "wqid \<Rightarrow> kernel \<Rightarrow> kernel" where
  "wake_all w s =
     (case wait_qs s w of
        [] \<Rightarrow> s
      | th # _ \<Rightarrow> wake_all w (ready_thread th (fst (abort_thread_timeout th (unpend_thread th s)))))"
  by auto

termination wake_all
  by (relation "measure (\<lambda>(w, s). length (wait_qs s w))")
    (auto simp: abort_thread_timeout_def unpend_thread_def dlist_remove_k_q_node_def Let_def)

declare wake_all.simps [simp del]

definition k_mem_pool_free :: "k_mem_block \<Rightarrow> pools_state \<Rightarrow> pools_state" where
  "k_mem_pool_free block y =
     (case y of (s, m, pools) \<Rightarrow>
        let p = get_pool pools (id_pool block);
            (m, p') = free_block (id_level block) (lsizes p) (id_block block) (m, p);
            need_sched = wait_qs s (pool_wait_q p) \<noteq> [];
            s = wake_all (pool_wait_q p) s;
            s = (if need_sched \<and> \<not> is_in_isr s then reschedule_threads s else s)
        in (s, m, pools(id_pool block := p')))"

text \<open>
  The heap is pool \<open>h\<close>; \<open>descs\<close> gives the block descriptor (8 bytes) stored at an address.
\<close>

definition k_malloc ::
    "nat \<Rightarrow> nat \<Rightarrow> k_mem_block \<Rightarrow> pools_state \<times> (nat \<Rightarrow> k_mem_block) \<Rightarrow> (pools_state \<times> (nat \<Rightarrow> k_mem_block)) \<times> nat" where
  "k_malloc h sz block z =
     (case z of (y, descs) \<Rightarrow>
        case k_mem_pool_alloc (\<lambda>_ _ s. s) h block (sz + 8) K_NO_WAIT y of (_, y, block, r) \<Rightarrow>
          if r = Returned 0 then ((y, descs(data block := block)), data block + 8)
          else ((y, descs), 0))"

definition k_free ::
    "nat \<Rightarrow> pools_state \<times> (nat \<Rightarrow> k_mem_block) \<Rightarrow> pools_state \<times> (nat \<Rightarrow> k_mem_block)" where
  "k_free ptr z =
     (case z of (y, descs) \<Rightarrow>
        if ptr \<noteq> 0 then (k_mem_pool_free (descs (ptr - 8)) y, descs) else (y, descs))"

end
