(* ===== verification/Buddy.thy ===== *)
theory Buddy
  imports Prelude
begin

text \<open>
  Splitting and merging of blocks in quarters, the idea behind the memory pools of
  kernel/mempool.c. A pool has \<open>L\<close> levels and \<open>n\<close> blocks of the largest size (level 0);
  block \<open>b\<close> of level \<open>l\<close> consists of the blocks \<open>4 * b, ..., 4 * b + 3\<close> of level \<open>l + 1\<close>.
  The smallest blocks are the units. A set of blocks is a partition when every unit lies in
  exactly one of them; the invariant of a pool is that its free blocks and the blocks in use
  form a partition, and that no four quarters of a block are all free.
\<close>

type_synonym block = "nat \<times> nat"

definition anc :: "nat \<Rightarrow> nat \<Rightarrow> nat \<Rightarrow> nat" where
  "anc L u l = u div 4 ^ (L - 1 - l)"

definition units :: "nat \<Rightarrow> nat \<Rightarrow> nat" where
  "units L n = n * 4 ^ (L - 1)"

definition valid_block :: "nat \<Rightarrow> nat \<Rightarrow> block \<Rightarrow> bool" where
  "valid_block L n x \<longleftrightarrow> fst x < L \<and> snd x < n * 4 ^ fst x"

definition partition_blocks :: "nat \<Rightarrow> nat \<Rightarrow> block set \<Rightarrow> bool" where
  "partition_blocks L n S \<longleftrightarrow> (\<forall>x\<in>S. valid_block L n x) \<and> (\<forall>u<units L n. \<exists>!l. l < L \<and> (l, anc L u l) \<in> S)"

definition children :: "block \<Rightarrow> block set" where
  "children x = {(Suc (fst x), c) |c. c div 4 = snd x}"

section \<open>Units and their blocks\<close>

lemma anc_Suc: "Suc l < L \<Longrightarrow> anc L u (Suc l) div 4 = anc L u l"
proof -
  assume "Suc l < L"
  then have "L - 1 - l = Suc (L - 1 - Suc l)"
    by simp
  then show ?thesis
    unfolding anc_def by (simp add: div_mult2_eq mult.commute [of 4] del: diff_Suc_eq_diff_pred)
qed

lemma anc_eq_above:
  assumes "anc L u l = anc L v l" and "j \<le> l" and "l < L"
  shows "anc L u j = anc L v j"
  using assms
proof (induction "l - j" arbitrary: j)
  case (Suc k)
  then have "anc L u (Suc j) = anc L v (Suc j)" "Suc j < L"
    by simp_all
  then show ?case
    using anc_Suc [of j L u] anc_Suc [of j L v] by simp
qed simp

lemma anc_valid:
  assumes "u < units L n" and "l < L"
  shows "anc L u l < n * 4 ^ l"
proof -
  have "(4 :: nat) ^ (L - 1) = 4 ^ l * 4 ^ (L - 1 - l)"
    using assms(2) by (simp flip: power_add)
  then show ?thesis
    using assms(1) by (simp add: anc_def units_def less_mult_imp_div_less mult.assoc)
qed

lemma unit_of_block:
  assumes "valid_block L n (l, b)"
  obtains u where "u < units L n" and "anc L u l = b"
proof
  have "(4 :: nat) ^ (L - 1) = 4 ^ l * 4 ^ (L - 1 - l)"
    using assms by (simp add: valid_block_def flip: power_add)
  then show "b * 4 ^ (L - 1 - l) < units L n"
    using assms by (simp add: valid_block_def units_def mult.assoc [symmetric])
  show "anc L (b * 4 ^ (L - 1 - l)) l = b"
    by (simp add: anc_def)
qed

lemma children_valid: "valid_block L n (l, b) \<Longrightarrow> Suc l < L \<Longrightarrow> x \<in> children (l, b) \<Longrightarrow> valid_block L n x"
  by (auto simp: valid_block_def children_def)

lemma partitionD:
  assumes "partition_blocks L n S" and "u < units L n" and "(l, anc L u l) \<in> S" and "(k, anc L u k) \<in> S"
  shows "l = k"
proof -
  have "l < L" "k < L"
    using assms(1,3,4) by (auto simp: partition_blocks_def valid_block_def)
  then show ?thesis
    using assms unfolding partition_blocks_def by blast
qed

lemma partition_obtain:
  assumes "partition_blocks L n S" and "u < units L n"
  obtains l where "l < L" and "(l, anc L u l) \<in> S"
  using assms unfolding partition_blocks_def by blast

text \<open>Two different blocks of a partition have no unit in common.\<close>

lemma partition_disjoint:
  assumes "partition_blocks L n S" and "(l, b) \<in> S" and "(k, c) \<in> S" and "u < units L n"
    and "anc L u l = b" and "anc L u k = c"
  shows "(l, b) = (k, c)"
  using partitionD [of L n S u l k] assms by auto

lemma partition_no_parent:
  assumes p: "partition_blocks L n S" and x: "(Suc l, b) \<in> S"
  shows "(l, b div 4) \<notin> S"
proof
  assume y: "(l, b div 4) \<in> S"
  have v: "valid_block L n (Suc l, b)"
    using p x by (auto simp: partition_blocks_def)
  then obtain u where u: "u < units L n" "anc L u (Suc l) = b"
    by (rule unit_of_block)
  have "anc L u l = b div 4"
    using anc_Suc [of l L u] v u by (simp add: valid_block_def)
  then show False
    using partitionD [OF p u(1), of "Suc l" l] x y u by simp
qed

lemma split_partition:
  assumes p: "partition_blocks L n S" and x: "(l, b) \<in> S" and l: "Suc l < L"
  shows "partition_blocks L n (S - {(l, b)} \<union> children (l, b))"
  unfolding partition_blocks_def
proof (intro conjI allI impI ballI)
  fix y assume "y \<in> S - {(l, b)} \<union> children (l, b)"
  then show "valid_block L n y"
    using p x children_valid [OF _ l, of n b y] by (auto simp: partition_blocks_def)
next
  fix u assume u: "u < units L n"
  obtain k where k: "k < L" "(k, anc L u k) \<in> S"
    using p u by (rule partition_obtain)
  have ch: "(j, anc L u j) \<in> children (l, b) \<longleftrightarrow> j = Suc l \<and> anc L u l = b" for j
    using anc_Suc [OF l, of u] by (auto simp: children_def)
  note un = partitionD [OF p u k(2)]
  show "\<exists>!j. j < L \<and> (j, anc L u j) \<in> S - {(l, b)} \<union> children (l, b)"
  proof (cases "anc L u l = b")
    case True
    then have kl: "k = l"
      using un [of l] x by simp
    show ?thesis
    proof (rule ex1I [of _ "Suc l"])
      show "Suc l < L \<and> (Suc l, anc L u (Suc l)) \<in> S - {(l, b)} \<union> children (l, b)"
        using ch True l by auto
    next
      fix j assume "j < L \<and> (j, anc L u j) \<in> S - {(l, b)} \<union> children (l, b)"
      then show "j = Suc l"
        using un [of j] ch True kl by auto
    qed
  next
    case False
    show ?thesis
    proof (rule ex1I [of _ k])
      show "k < L \<and> (k, anc L u k) \<in> S - {(l, b)} \<union> children (l, b)"
        using ch k False by auto
    next
      fix j assume "j < L \<and> (j, anc L u j) \<in> S - {(l, b)} \<union> children (l, b)"
      then show "j = k"
        using un [of j] ch x False by auto
    qed
  qed
qed

lemma merge_partition:
  assumes p: "partition_blocks L n S" and x: "children (l, b) \<subseteq> S" and l: "Suc l < L"
  shows "partition_blocks L n (S - children (l, b) \<union> {(l, b)})"
  unfolding partition_blocks_def
proof (intro conjI allI impI ballI)
  have "(Suc l, 4 * b) \<in> S"
    using x by (auto simp: children_def)
  then have "valid_block L n (Suc l, 4 * b)"
    using p by (auto simp: partition_blocks_def)
  then have "valid_block L n (l, b)"
    by (simp add: valid_block_def)
  moreover fix y assume "y \<in> S - children (l, b) \<union> {(l, b)}"
  ultimately show "valid_block L n y"
    using p by (auto simp: partition_blocks_def)
next
  fix u assume u: "u < units L n"
  obtain k where k: "k < L" "(k, anc L u k) \<in> S"
    using p u by (rule partition_obtain)
  have ch: "(j, anc L u j) \<in> children (l, b) \<longleftrightarrow> j = Suc l \<and> anc L u l = b" for j
    using anc_Suc [OF l, of u] by (auto simp: children_def)
  note un = partitionD [OF p u k(2)]
  show "\<exists>!j. j < L \<and> (j, anc L u j) \<in> S - children (l, b) \<union> {(l, b)}"
  proof (cases "anc L u l = b")
    case True
    then have kl: "k = Suc l"
      using un [of "Suc l"] x ch by auto
    show ?thesis
    proof (rule ex1I [of _ l])
      show "l < L \<and> (l, anc L u l) \<in> S - children (l, b) \<union> {(l, b)}"
        using ch True l by auto
    next
      fix j assume "j < L \<and> (j, anc L u j) \<in> S - children (l, b) \<union> {(l, b)}"
      then show "j = l"
        using un [of j] ch True kl by auto
    qed
  next
    case False
    show ?thesis
    proof (rule ex1I [of _ k])
      show "k < L \<and> (k, anc L u k) \<in> S - children (l, b) \<union> {(l, b)}"
        using ch k False by auto
    next
      fix j assume "j < L \<and> (j, anc L u j) \<in> S - children (l, b) \<union> {(l, b)}"
      then show "j = k"
        using un [of j] ch False by auto
    qed
  qed
qed

section \<open>Free lists\<close>

type_synonym free_lists = "nat \<Rightarrow> nat list"

definition free_blocks :: "nat \<Rightarrow> free_lists \<Rightarrow> block set" where
  "free_blocks L F = {(l, b). l < L \<and> b \<in> set (F l)}"

definition merged :: "nat \<Rightarrow> free_lists \<Rightarrow> bool" where
  "merged L F \<longleftrightarrow> (\<forall>l b. Suc l < L \<longrightarrow> \<not> children (l, b) \<subseteq> free_blocks L F)"

text \<open>The invariant, with the set \<open>A\<close> of the blocks in use.\<close>

definition pool_inv :: "nat \<Rightarrow> nat \<Rightarrow> free_lists \<Rightarrow> block set \<Rightarrow> bool" where
  "pool_inv L n F A \<longleftrightarrow> (\<forall>l<L. distinct (F l)) \<and> free_blocks L F \<inter> A = {} \<and>
     partition_blocks L n (free_blocks L F \<union> A) \<and> merged L F"

text \<open>
  Freeing block \<open>b\<close> of level \<open>l\<close>: when its three partners are free they leave the list and
  the parent is freed instead, otherwise \<open>b\<close> goes to the end of the list.
\<close>

definition partners_free :: "nat \<Rightarrow> nat \<Rightarrow> free_lists \<Rightarrow> bool" where
  "partners_free l b F \<longleftrightarrow> (\<forall>i<4. 4 * (b div 4) + i \<in> insert b (set (F l)))"

definition buddy_merge :: "nat \<Rightarrow> nat \<Rightarrow> free_lists \<Rightarrow> free_lists" where
  "buddy_merge l b F = F(l := filter (\<lambda>c. c div 4 \<noteq> b div 4) (F l))"

definition buddy_append :: "nat \<Rightarrow> nat \<Rightarrow> free_lists \<Rightarrow> free_lists" where
  "buddy_append l b F = F(l := F l @ [b])"

definition buddy_break :: "nat \<Rightarrow> nat \<Rightarrow> free_lists \<Rightarrow> free_lists" where
  "buddy_break l b F = F(Suc l := F (Suc l) @ [4 * b + 1, 4 * b + 2, 4 * b + 3])"

lemma quarter_iff: "c div 4 = (d :: nat) \<longleftrightarrow> (\<exists>i<4. c = 4 * d + i)"
proof
  assume "c div 4 = d"
  then have "c = 4 * d + c mod 4" "c mod 4 < 4"
    by auto
  then show "\<exists>i<4. c = 4 * d + i"
    by blast
qed auto

lemma ex_less_4: "(\<exists>i<4. P i) \<longleftrightarrow> P 0 \<or> P 1 \<or> P 2 \<or> P (3 :: nat)"
  by (simp add: numeral_eq_Suc Ex_less_Suc disj_ac)

lemma children_eq: "children (l, b) = {Suc l} \<times> {4 * b, 4 * b + 1, 4 * b + 2, 4 * b + 3}"
  unfolding children_def quarter_iff ex_less_4 by auto

lemma children_iff: "children (l, d) \<subseteq> S \<longleftrightarrow> (\<forall>i<4. (Suc l, 4 * d + i) \<in> S)"
  by (auto simp: children_def quarter_iff)

lemma free_blocks_append:
  "l < L \<Longrightarrow> free_blocks L (F(l := F l @ xs)) = free_blocks L F \<union> {l} \<times> set xs"
  by (auto simp: free_blocks_def split: if_splits)

lemma merged_subset: "merged L F \<Longrightarrow> free_blocks L F' \<subseteq> free_blocks L F \<Longrightarrow> merged L F'"
  unfolding merged_def by blast

lemma pool_inv_merge:
  assumes l: "Suc l < L" and inv: "pool_inv L n F (insert (Suc l, b) A)" and n: "(Suc l, b) \<notin> A"
    and pf: "partners_free (Suc l) b F"
  shows "pool_inv L n (buddy_merge (Suc l) b F) (insert (l, b div 4) A)" and "(l, b div 4) \<notin> A"
proof -
  let ?S = "free_blocks L F \<union> insert (Suc l, b) A" and ?F = "buddy_merge (Suc l) b F"
  have p: "partition_blocks L n ?S" and d: "\<forall>k<L. distinct (F k)" and m: "merged L F"
    and dj: "free_blocks L F \<inter> A = {}" "(Suc l, b) \<notin> free_blocks L F"
    using inv by (auto simp: pool_inv_def)
  have ch: "children (l, b div 4) \<subseteq> insert (Suc l, b) (free_blocks L F)"
    using pf l by (auto simp: partners_free_def children_iff free_blocks_def)
  have f: "free_blocks L ?F = free_blocks L F - children (l, b div 4)"
    using l by (auto simp: buddy_merge_def free_blocks_def children_def split: if_splits)
  have A: "A \<inter> children (l, b div 4) = {}"
    using ch dj n by blast
  have "partition_blocks L n (?S - children (l, b div 4) \<union> {(l, b div 4)})"
    using p ch l by (intro merge_partition) auto
  moreover have b: "(Suc l, b) \<in> children (l, b div 4)"
    by (simp add: children_def)
  then have "?S - children (l, b div 4) \<union> {(l, b div 4)} = free_blocks L ?F \<union> insert (l, b div 4) A"
    using A by (auto simp: f)
  moreover have np: "(l, b div 4) \<notin> ?S"
    using p by (rule partition_no_parent) simp
  moreover have "\<forall>k<L. distinct (?F k)"
    using d by (simp add: buddy_merge_def)
  ultimately show "pool_inv L n ?F (insert (l, b div 4) A)" "(l, b div 4) \<notin> A"
    using dj m merged_subset [of L F ?F] by (auto simp: pool_inv_def f)
qed

lemma pool_inv_append:
  assumes l: "l < L" and inv: "pool_inv L n F (insert (l, b) A)" and n: "(l, b) \<notin> A"
    and pf: "l = 0 \<or> \<not> partners_free l b F"
  shows "pool_inv L n (buddy_append l b F) A"
proof -
  let ?S = "free_blocks L F \<union> insert (l, b) A" and ?F = "buddy_append l b F"
  have p: "partition_blocks L n ?S" and d: "\<forall>k<L. distinct (F k)" and m: "merged L F"
    and dj: "free_blocks L F \<inter> A = {}" "(l, b) \<notin> free_blocks L F"
    using inv by (auto simp: pool_inv_def)
  have f: "free_blocks L ?F = insert (l, b) (free_blocks L F)"
    using free_blocks_append [OF l, of F "[b]"] by (simp add: buddy_append_def)
  have "\<not> children (k, c) \<subseteq> free_blocks L ?F" if k: "Suc k < L" for k c
  proof
    assume sub: "children (k, c) \<subseteq> free_blocks L ?F"
    have "\<not> children (k, c) \<subseteq> free_blocks L F"
      using m k by (simp add: merged_def)
    then have "(l, b) \<in> children (k, c)"
      using sub by (auto simp: f)
    then have "l = Suc k" "c = b div 4"
      by (auto simp: children_def)
    then show False
      using sub pf by (auto simp: f children_iff free_blocks_def partners_free_def buddy_append_def)
  qed
  then have "merged L ?F"
    by (simp add: merged_def)
  moreover have "?S = free_blocks L ?F \<union> A"
    by (auto simp: f)
  moreover have "\<forall>k<L. distinct (?F k)"
    using d dj(2) l by (auto simp: buddy_append_def free_blocks_def)
  ultimately show ?thesis
    unfolding pool_inv_def using dj p n by (auto simp: f)
qed

lemma pool_inv_break:
  assumes inv: "pool_inv L n F (insert (l, b) A)" and n: "(l, b) \<notin> A" and l: "Suc l < L"
  shows "pool_inv L n (buddy_break l b F) (insert (Suc l, 4 * b) A)" and "(Suc l, 4 * b) \<notin> A"
proof -
  let ?S = "free_blocks L F \<union> insert (l, b) A" and ?F = "buddy_break l b F"
  have p: "partition_blocks L n ?S" and d: "\<forall>k<L. distinct (F k)" and m: "merged L F"
    and dj: "free_blocks L F \<inter> A = {}" "(l, b) \<notin> free_blocks L F"
    using inv by (auto simp: pool_inv_def)
  have new: "x \<notin> ?S" if x: "x \<in> children (l, b)" for x
  proof
    assume S: "x \<in> ?S"
    obtain c where "x = (Suc l, c)" "c div 4 = b"
      using x by (auto simp: children_def)
    then show False
      using partition_no_parent [OF p] S by blast
  qed
  have f: "free_blocks L ?F = free_blocks L F \<union> {Suc l} \<times> {4 * b + 1, 4 * b + 2, 4 * b + 3}"
    using free_blocks_append [OF l, of F "[4 * b + 1, 4 * b + 2, 4 * b + 3]"] by (simp add: buddy_break_def)
  note ch = children_eq [of l b]
  have "?S - {(l, b)} \<union> children (l, b) = free_blocks L ?F \<union> insert (Suc l, 4 * b) A"
    using n dj by (auto simp: f ch)
  then have part: "partition_blocks L n (free_blocks L ?F \<union> insert (Suc l, 4 * b) A)"
    using split_partition [OF p _ l, of b] by simp
  have q: "(Suc l, 4 * b) \<notin> free_blocks L ?F"
    using new [of "(Suc l, 4 * b)"] by (auto simp: f ch)
  have "\<not> children (k, c) \<subseteq> free_blocks L ?F" if k: "Suc k < L" for k c
  proof
    assume sub: "children (k, c) \<subseteq> free_blocks L ?F"
    have "\<not> children (k, c) \<subseteq> free_blocks L F"
      using m k by (simp add: merged_def)
    then obtain x where "x \<in> children (k, c)" "x \<in> children (l, b)"
      using sub by (auto simp: f ch)
    then have "(k, c) = (l, b)"
      by (auto simp: children_def)
    then show False
      using sub q by (auto simp: ch)
  qed
  then have "merged L ?F"
    by (simp add: merged_def)
  moreover have "distinct (?F k)" if "k < L" for k
    using d that new l by (auto simp: buddy_break_def ch free_blocks_def)
  moreover have "free_blocks L ?F \<inter> insert (Suc l, 4 * b) A = {}"
    using dj q new by (auto simp: f ch)
  ultimately show "pool_inv L n ?F (insert (Suc l, 4 * b) A)"
    using part by (simp add: pool_inv_def)
  show "(Suc l, 4 * b) \<notin> A"
    using new [of "(Suc l, 4 * b)"] by (simp add: ch)
qed

lemma pool_inv_take:
  assumes "pool_inv L n F A" and "l < L" and "F l = b # bs"
  shows "pool_inv L n (F(l := bs)) (insert (l, b) A)" and "(l, b) \<notin> A"
proof -
  have d: "distinct (b # bs)"
    using assms by (metis pool_inv_def)
  have f: "free_blocks L (F(l := bs)) = free_blocks L F - {(l, b)}" "(l, b) \<in> free_blocks L F"
    using assms(2,3) d by (auto simp: free_blocks_def split: if_splits)
  moreover from this have "free_blocks L (F(l := bs)) \<union> insert (l, b) A = free_blocks L F \<union> A"
    by auto
  ultimately show "pool_inv L n (F(l := bs)) (insert (l, b) A)" "(l, b) \<notin> A"
    using assms(1) d merged_subset [of L F "F(l := bs)"] by (auto simp: pool_inv_def)
qed

text \<open>When no block is in use all merging has been done: the free blocks are those of level 0.\<close>

lemma pool_inv_all_free:
  assumes inv: "pool_inv L n F {}" and L: "0 < L"
  shows "set (F 0) = {..<n}" and "0 < l \<Longrightarrow> l < L \<Longrightarrow> F l = []"
proof -
  let ?S = "free_blocks L F"
  have p: "partition_blocks L n ?S" and m: "merged L F"
    using inv by (auto simp: pool_inv_def)
  have v: "valid_block L n x" if "x \<in> ?S" for x
    using p that by (simp add: partition_blocks_def)
  have top: "F k = []" if "0 < k" "k < L" for k
    using that
  proof (induction "L - k" arbitrary: k rule: less_induct)
    case less
    obtain j where j: "k = Suc j"
      using less.prems(1) by (cases k) auto
    show ?case
    proof (rule ccontr)
      assume "F k \<noteq> []"
      then have "(k, hd (F k)) \<in> ?S"
        using less.prems(2) by (simp add: free_blocks_def)
      then obtain b where b: "(k, b) \<in> ?S"
        by blast
      then obtain u where u: "u < units L n" "anc L u k = b"
        using v unit_of_block by blast
      have "(k, c) \<in> ?S" if c: "c div 4 = b div 4" for c
      proof -
        have "valid_block L n (k, c)"
          using v [OF b] c less_mult_imp_div_less [of b "n * 4 ^ j" 4]
          by (auto simp: valid_block_def j)
        then obtain w where w: "w < units L n" "anc L w k = c"
          by (rule unit_of_block)
        obtain i where i: "i < L" "(i, anc L w i) \<in> ?S"
          using p w(1) by (rule partition_obtain)
        have "i \<le> k"
        proof (rule ccontr)
          assume "\<not> i \<le> k"
          then show False
            using less.hyps [of i] i less.prems by (auto simp: free_blocks_def)
        qed
        moreover have "i \<noteq> k \<longrightarrow> False"
        proof
          assume "i \<noteq> k"
          then have "i \<le> j"
            using \<open>i \<le> k\<close> j by simp
          have "anc L u j = anc L w j"
            using anc_Suc [of j L u] anc_Suc [of j L w] less.prems(2) u w c by (simp add: j)
          then have "anc L u i = anc L w i"
            using \<open>i \<le> j\<close> less.prems(2) j by (intro anc_eq_above [of L u j w i]) simp_all
          then show False
            using partitionD [OF p u(1), of i k] i b u(2) \<open>i \<noteq> k\<close> by simp
        qed
        ultimately show ?thesis
          using i(2) w(2) by auto
      qed
      then have "children (j, b div 4) \<subseteq> ?S"
        by (auto simp: children_def j)
      then show False
        using m less.prems(2) j by (simp add: merged_def)
    qed
  qed
  then show "F l = []" if "0 < l" "l < L"
    using that by simp
  show "set (F 0) = {..<n}"
  proof (intro set_eqI iffI)
    fix b assume "b \<in> set (F 0)"
    then show "b \<in> {..<n}"
      using v [of "(0, b)"] L by (simp add: free_blocks_def valid_block_def)
  next
    fix b assume "b \<in> {..<n}"
    then have "valid_block L n (0, b)"
      using L by (simp add: valid_block_def)
    then obtain u where u: "u < units L n" "anc L u 0 = b"
      by (rule unit_of_block)
    obtain i where i: "i < L" "(i, anc L u i) \<in> ?S"
      using p u(1) by (rule partition_obtain)
    then have "i = 0"
      using top [of i] by (cases i) (auto simp: free_blocks_def)
    then show "b \<in> set (F 0)"
      using i u by (simp add: free_blocks_def)
  qed
qed

lemma pool_inv_init: "0 < L \<Longrightarrow> pool_inv L n ((\<lambda>_. [])(0 := [0..<n])) {}"
proof -
  assume L: "0 < L"
  let ?F = "(\<lambda>_. [])(0 := [0..<n])"
  have f: "free_blocks L ?F = {0} \<times> {..<n}"
    using L by (auto simp: free_blocks_def)
  have "anc L u 0 < n" if "u < units L n" for u
    using anc_valid [OF that L] by simp
  then have "partition_blocks L n (free_blocks L ?F)"
    using L by (auto simp: partition_blocks_def f valid_block_def)
  moreover have "merged L ?F"
    by (auto simp: merged_def f children_eq)
  ultimately show ?thesis
    by (simp add: pool_inv_def)
qed

end
