(* ===== verification/Mempool_Inv.thy ===== *)
theory Mempool_Inv
  imports Mempool Buddy
begin

unbundle bit_operations_syntax

text \<open>
  The free lists and free bits of a memory pool (kernel/mempool.c) represent a pool in the
  sense of theory Buddy: every section that runs with interrupts locked keeps this, and the
  initialisation establishes it with all blocks free.
\<close>

section \<open>Geometry\<close>

text \<open>
  The sizes the documentation of the pools asks for (doc/kernel/memory/pools.rst): the
  largest size is a power of 4 times the smallest one, which is a multiple of 4.
\<close>

definition exact_sizes :: "k_mem_pool \<Rightarrow> bool" where
  "exact_sizes p \<longleftrightarrow> 0 < n_levels p \<and> 0 < n_max p \<and> 0 < max_sz p \<and> 4 ^ n_levels p dvd max_sz p"

definition nblocks :: "k_mem_pool \<Rightarrow> nat \<Rightarrow> nat" where
  "nblocks p l = n_max p * 4 ^ l"

definition blk :: "k_mem_pool \<Rightarrow> nat \<Rightarrow> nat \<Rightarrow> nat" where
  "blk p l b = block_ptr p (lsizes p l) b"

definition geom :: "k_mem_pool \<Rightarrow> nat \<times> nat \<times> nat \<times> nat \<times> wqid" where
  "geom p = (pool_buf p, max_sz p, n_max p, n_levels p, pool_wait_q p)"

lemma lsizes_geom: "geom p = geom p' \<Longrightarrow> lsizes p l = lsizes p' l"
  by (induction l) (simp_all add: geom_def)

lemma geom_eq:
  assumes "geom p = geom p'"
  shows "lsizes p = lsizes p'" "block_ptr p = block_ptr p'" "block_num p = block_num p'"
    "block_fits p = block_fits p'" "n_levels p = n_levels p'" "nblocks p = nblocks p'" "blk p = blk p'"
    "n_max p = n_max p'" "max_sz p = max_sz p'" "pool_buf p = pool_buf p'"
proof -
  show l: "lsizes p = lsizes p'"
    using lsizes_geom [OF assms] by blast
  show "block_ptr p = block_ptr p'" "block_num p = block_num p'"
    "block_fits p = block_fits p'" "n_levels p = n_levels p'" "nblocks p = nblocks p'" "blk p = blk p'"
    "n_max p = n_max p'" "max_sz p = max_sz p'" "pool_buf p = pool_buf p'"
    using assms l by (auto simp: geom_def fun_eq_iff block_ptr_def block_num_def block_fits_def buf_size_def
        nblocks_def blk_def)
qed

lemma ALIGN4_id: "4 dvd n \<Longrightarrow> ALIGN4 n = n"
  by (auto simp: ALIGN4_def)

lemma exact_div:
  assumes "exact_sizes p" and "l < n_levels p"
  shows "max_sz p = 4 ^ l * (max_sz p div 4 ^ l)" and "4 dvd max_sz p div 4 ^ l" and "0 < max_sz p div 4 ^ l"
proof -
  have d: "4 ^ l * 4 dvd max_sz p"
    using assms power_le_dvd [of 4 "n_levels p" "max_sz p" "Suc l"] by (simp add: exact_sizes_def mult.commute)
  then show e: "max_sz p = 4 ^ l * (max_sz p div 4 ^ l)"
    by (metis dvd_mult_div_cancel dvd_mult_left)
  show "4 dvd max_sz p div 4 ^ l"
    using d by (metis dvd_div_iff_mult dvd_mult_left mult.commute power_not_zero zero_neq_numeral)
  show "0 < max_sz p div 4 ^ l"
    using assms(1) e by (metis exact_sizes_def mult_0_right neq0_conv)
qed

lemma lsizes_exact: "exact_sizes p \<Longrightarrow> l < n_levels p \<Longrightarrow> lsizes p l = max_sz p div 4 ^ l"
proof (induction l)
  case 0
  then show ?case
    using exact_div(2) [of p 0] by (simp add: ALIGN4_id)
next
  case (Suc l)
  then show ?case
    using exact_div(2) [of p "Suc l"] by (simp add: ALIGN4_id div_mult2_eq [symmetric] mult.commute)
qed

declare lsizes.simps [simp del]

lemma lsizes_pos: "exact_sizes p \<Longrightarrow> l < n_levels p \<Longrightarrow> 0 < lsizes p l"
  using exact_div(3) lsizes_exact by metis

lemma lsizes_quarter: "exact_sizes p \<Longrightarrow> Suc l < n_levels p \<Longrightarrow> lsizes p l = 4 * lsizes p (Suc l)"
  using exact_div(2) [of p l] lsizes_exact [of p l] lsizes_exact [of p "Suc l"]
  by (simp add: div_mult2_eq mult.commute [of 4])

lemma lsizes_total: "exact_sizes p \<Longrightarrow> l < n_levels p \<Longrightarrow> lsizes p l * nblocks p l = buf_size p"
  using exact_div(1) [of p l] by (simp add: lsizes_exact nblocks_def buf_size_def mult.commute)

lemma block_num_blk [simp]: "exact_sizes p \<Longrightarrow> l < n_levels p \<Longrightarrow> block_num p (blk p l b) (lsizes p l) = b"
  using lsizes_pos [of p l] by (simp add: block_num_def blk_def block_ptr_def)

lemma blk_inside:
  assumes "exact_sizes p" and "l < n_levels p" and "b < nblocks p l"
  shows "pool_buf p \<le> blk p l b" and "blk p l b + lsizes p l \<le> pool_buf p + buf_size p"
proof -
  have "lsizes p l * Suc b \<le> lsizes p l * nblocks p l"
    using assms(3) by (intro mult_le_mono2) simp
  then show "blk p l b + lsizes p l \<le> pool_buf p + buf_size p"
    unfolding lsizes_total [OF assms(1,2)] by (simp add: blk_def block_ptr_def)
qed (simp add: blk_def block_ptr_def)

lemma block_fits_blk:
  "exact_sizes p \<Longrightarrow> l < n_levels p \<Longrightarrow> b < nblocks p l \<Longrightarrow> block_fits p (blk p l b) (lsizes p l)"
  using blk_inside [of p l b] lsizes_pos [of p l] unfolding block_fits_def by linarith

lemma blk_inj: "exact_sizes p \<Longrightarrow> l < n_levels p \<Longrightarrow> blk p l b = blk p l c \<longleftrightarrow> b = c"
  using block_num_blk by metis

lemma blk_quarter:
  "exact_sizes p \<Longrightarrow> Suc l < n_levels p \<Longrightarrow> lsizes p (Suc l) * i + blk p l b = blk p (Suc l) (4 * b + i)"
  using lsizes_quarter [of p l] by (simp add: blk_def block_ptr_def algebra_simps)

section \<open>The bit arrays\<close>

definition bit_layout :: "k_mem_pool \<Rightarrow> bool" where
  "bit_layout p \<longleftrightarrow>
     (\<forall>l<n_levels p. l \<le> max_inline_level p \<longrightarrow> nblocks p l \<le> 32) \<and>
     (\<forall>l k. max_inline_level p < l \<longrightarrow> l < k \<longrightarrow> k < n_levels p \<longrightarrow>
        unat (lvl_bits (levels p l)) + 4 * ((nblocks p l + 31) div 32) \<le> unat (lvl_bits (levels p k)))"

definition loc :: "k_mem_pool \<Rightarrow> nat \<Rightarrow> nat \<Rightarrow> bit_word" where
  "loc p l b = fst (get_bit_ptr p l b)"

definition has_bit :: "pool_state \<Rightarrow> nat \<Rightarrow> nat \<Rightarrow> bool" where
  "has_bit x l b \<longleftrightarrow> bit (read_word (loc (snd x) l b) x) (b mod 32)"

definition same_layout :: "k_mem_pool \<Rightarrow> k_mem_pool \<Rightarrow> bool" where
  "same_layout p p' \<longleftrightarrow> geom p' = geom p \<and> max_inline_level p' = max_inline_level p \<and> stray p' = stray p \<and>
     (\<forall>l>max_inline_level p. lvl_bits (levels p' l) = lvl_bits (levels p l))"

lemma same_layout_loc: "same_layout p p' \<Longrightarrow> loc p' l b = loc p l b"
  by (simp add: same_layout_def loc_def get_bit_ptr_def)

lemma same_layout_bits: "same_layout p p' \<Longrightarrow> bit_layout p' = bit_layout p"
  unfolding same_layout_def bit_layout_def by (auto simp: geom_eq [of p' p])

lemma word_in_array: "b < n \<Longrightarrow> 4 * (b div 32) < 4 * ((n + 31) div (32 :: nat))"
  by linarith

lemma loc_eq_iff:
  assumes "bit_layout p" and "l < n_levels p" and "k < n_levels p" and "b < nblocks p l" and "c < nblocks p k"
  shows "loc p l b = loc p k c \<longleftrightarrow> l = k \<and> b div 32 = c div 32"
proof -
  have "External (unat (lvl_bits (levels p i)) + 4 * (d div 32)) \<noteq> External (unat (lvl_bits (levels p j)) + 4 * (e div 32))"
    if "max_inline_level p < i" "i < j" "j < n_levels p" "d < nblocks p i" for i j d e
  proof -
    have "unat (lvl_bits (levels p i)) + 4 * ((nblocks p i + 31) div 32) \<le> unat (lvl_bits (levels p j))"
      using assms(1) that unfolding bit_layout_def by blast
    then show ?thesis
      using word_in_array [OF that(4)] by simp
  qed
  from this [where i = l and j = k and d = b and e = c] this [where i = k and j = l and d = c and e = b] show ?thesis
    using assms(2-5) by (cases l k rule: linorder_cases) (auto simp: loc_def get_bit_ptr_def)
qed

lemma loc_inline: "bit_layout p \<Longrightarrow> l < n_levels p \<Longrightarrow> b < nblocks p l \<Longrightarrow> l \<le> max_inline_level p \<Longrightarrow> loc p l b = Inline l 0"
  unfolding bit_layout_def loc_def get_bit_ptr_def by (auto simp: not_le dest: less_le_trans)

lemma read_write_word:
  assumes "\<And>l i. w = Inline l i \<Longrightarrow> i = 0" and "\<And>l i. w' = Inline l i \<Longrightarrow> i = 0"
  shows "read_word w' (write_word w v x) = (if w = w' then v else read_word w' x)"
  using assms by (cases x; cases w; cases w') (auto simp: set_level_def)

lemma loc_Inline:
  assumes "bit_layout p" and "l < n_levels p" and "b < nblocks p l" and "loc p l b = Inline k i"
  shows "i = 0"
  using loc_inline [OF assms(1-3)] assms(4) by (cases "l \<le> max_inline_level p") (auto simp: loc_def get_bit_ptr_def)

lemma write_loc:
  assumes "bit_layout (snd x)" and "l < n_levels (snd x)" and "b < nblocks (snd x) l"
  shows "same_layout (snd x) (snd (write_word (loc (snd x) l b) v x))"
    and "lvl_free (levels (snd (write_word (loc (snd x) l b) v x)) k) = lvl_free (levels (snd x) k)"
    and "k < n_levels (snd x) \<Longrightarrow> c < nblocks (snd x) k \<Longrightarrow>
      read_word (loc (snd x) k c) (write_word (loc (snd x) l b) v x) =
        (if l = k \<and> b div 32 = c div 32 then v else read_word (loc (snd x) k c) x)"
proof -
  obtain m p where x: "x = (m, p)"
    by fastforce
  show "same_layout (snd x) (snd (write_word (loc (snd x) l b) v x))"
    "lvl_free (levels (snd (write_word (loc (snd x) l b) v x)) k) = lvl_free (levels (snd x) k)"
    using loc_inline [OF assms]
    by (cases "l \<le> max_inline_level p"; simp add: x loc_def get_bit_ptr_def same_layout_def geom_def set_level_def)+
  assume k: "k < n_levels (snd x)" "c < nblocks (snd x) k"
  show "read_word (loc (snd x) k c) (write_word (loc (snd x) l b) v x) =
      (if l = k \<and> b div 32 = c div 32 then v else read_word (loc (snd x) k c) x)"
    using read_write_word [OF loc_Inline [OF assms] loc_Inline [OF assms(1) k], where v = v and x = x]
      loc_eq_iff [OF assms(1,2) k(1) assms(3) k(2)] by simp
qed

lemma bit_div_mod: "b div 32 = c div 32 \<Longrightarrow> b mod 32 = c mod 32 \<longleftrightarrow> b = (c :: nat)"
  by (metis div_mult_mod_eq)

lemma get_bit_ptr_eq: "get_bit_ptr p l b = (loc p l b, b mod 32)"
  by (simp add: loc_def get_bit_ptr_def)

lemma has_bit_write:
  assumes "bit_layout (snd x)" and "l < n_levels (snd x)" and "b < nblocks (snd x) l"
    and "k < n_levels (snd x)" and "c < nblocks (snd x) k"
  shows "has_bit (write_word (loc (snd x) l b) v x) k c \<longleftrightarrow>
    (if l = k \<and> b div 32 = c div 32 then bit v (c mod 32) else has_bit x k c)"
  unfolding has_bit_def same_layout_loc [OF write_loc(1) [OF assms(1-3)]]
  using write_loc(3) [OF assms] by simp

lemma has_bit_loc:
  "l = k \<and> b div 32 = c div 32 \<Longrightarrow> has_bit x k c \<longleftrightarrow> bit (read_word (loc (snd x) l b) x) (c mod 32)"
  by (simp add: has_bit_def loc_def get_bit_ptr_def)

lemma bit_set_clear:
  "bit ((w :: u32) OR push_bit (n mod 32) 1) (m mod 32) \<longleftrightarrow> bit w (m mod 32) \<or> m mod 32 = n mod 32"
  "bit ((w :: u32) AND NOT (push_bit (n mod 32) 1)) (m mod 32) \<longleftrightarrow> bit w (m mod 32) \<and> m mod 32 \<noteq> n mod 32"
  by (auto simp: bit_simps)

lemma same_word: "l = k \<and> b div 32 = c div 32 \<Longrightarrow> c mod 32 = b mod 32 \<longleftrightarrow> k = l \<and> c = (b :: nat)"
  using bit_div_mod [of b c] by auto

lemma bit_update_cases:
  assumes "P \<longleftrightarrow> (if l = k \<and> b div 32 = c div 32 then Q else has_bit x k c)"
    and "Q \<longleftrightarrow> f (c mod 32 = b mod 32) (bit (read_word (loc (snd x) l b) x) (c mod 32))" and "f False = (\<lambda>h. h)"
  shows "P \<longleftrightarrow> f (k = l \<and> c = b) (has_bit x k c)"
proof (cases "l = k \<and> b div 32 = c div 32")
  case True
  have "P = Q"
    using assms(1) unfolding if_P [OF True] .
  then show ?thesis
    using assms(2) unfolding has_bit_loc [OF True] same_word [OF True] by (rule trans)
next
  case False
  then have "\<not> (k = l \<and> c = b)"
    by blast
  then show ?thesis
    unfolding assms(1) if_not_P [OF False] by (simp only: assms(3))
qed

lemma set_free_bit:
  assumes "bit_layout (snd x)" and "l < n_levels (snd x)" and "b < nblocks (snd x) l"
  shows "same_layout (snd x) (snd (set_free_bit l b x))"
    and "lvl_free (levels (snd (set_free_bit l b x)) k) = lvl_free (levels (snd x) k)"
    and "k < n_levels (snd x) \<Longrightarrow> c < nblocks (snd x) k \<Longrightarrow>
      has_bit (set_free_bit l b x) k c \<longleftrightarrow> k = l \<and> c = b \<or> has_bit x k c"
proof -
  let ?w = "read_word (loc (snd x) l b) x OR push_bit (b mod 32) 1"
  have e: "set_free_bit l b x = write_word (loc (snd x) l b) ?w x"
    by (simp add: set_free_bit_def get_bit_ptr_eq)
  show "same_layout (snd x) (snd (set_free_bit l b x))"
    "lvl_free (levels (snd (set_free_bit l b x)) k) = lvl_free (levels (snd x) k)"
    using write_loc [OF assms] unfolding e by simp_all
  assume "k < n_levels (snd x)" "c < nblocks (snd x) k"
  then have "has_bit (set_free_bit l b x) k c \<longleftrightarrow>
      (if l = k \<and> b div 32 = c div 32 then bit ?w (c mod 32) else has_bit x k c)"
    unfolding e by (rule has_bit_write [OF assms])
  then show "has_bit (set_free_bit l b x) k c \<longleftrightarrow> k = l \<and> c = b \<or> has_bit x k c"
    by (rule bit_update_cases [where f = "\<lambda>e h. e \<or> h"]) (simp_all only: bit_set_clear disj_commute simp_thms)
qed

lemma clear_free_bit:
  assumes "bit_layout (snd x)" and "l < n_levels (snd x)" and "b < nblocks (snd x) l"
  shows "same_layout (snd x) (snd (clear_free_bit l b x))"
    and "lvl_free (levels (snd (clear_free_bit l b x)) k) = lvl_free (levels (snd x) k)"
    and "k < n_levels (snd x) \<Longrightarrow> c < nblocks (snd x) k \<Longrightarrow>
      has_bit (clear_free_bit l b x) k c \<longleftrightarrow> \<not> (k = l \<and> c = b) \<and> has_bit x k c"
proof -
  let ?w = "read_word (loc (snd x) l b) x AND NOT (push_bit (b mod 32) 1)"
  have e: "clear_free_bit l b x = write_word (loc (snd x) l b) ?w x"
    by (simp add: clear_free_bit_def get_bit_ptr_eq)
  show "same_layout (snd x) (snd (clear_free_bit l b x))"
    "lvl_free (levels (snd (clear_free_bit l b x)) k) = lvl_free (levels (snd x) k)"
    using write_loc [OF assms] unfolding e by simp_all
  assume "k < n_levels (snd x)" "c < nblocks (snd x) k"
  then have "has_bit (clear_free_bit l b x) k c \<longleftrightarrow>
      (if l = k \<and> b div 32 = c div 32 then bit ?w (c mod 32) else has_bit x k c)"
    unfolding e by (rule has_bit_write [OF assms])
  then show "has_bit (clear_free_bit l b x) k c \<longleftrightarrow> \<not> (k = l \<and> c = b) \<and> has_bit x k c"
    by (rule bit_update_cases [where f = "\<lambda>e h. \<not> e \<and> h"]) (simp_all only: bit_set_clear conj_commute simp_thms)
qed

lemma and_15_eq: "w AND 15 = (15 :: u32) \<longleftrightarrow> (\<forall>i<4. bit w i)"
proof -
  have "(15 :: u32) = mask 4"
    by (simp add: mask_eq_exp_minus_1)
  moreover have "w AND mask 4 = mask 4 \<longleftrightarrow> (\<forall>n<32. n < 4 \<longrightarrow> bit w n)"
    by (auto simp: bit_eq_iff bit_and_iff bit_mask_iff)
  moreover have "(\<forall>n<32. n < 4 \<longrightarrow> bit w n) \<longleftrightarrow> (\<forall>i<4. bit w i)"
    by force
  ultimately show ?thesis
    by simp
qed

lemma partner_bits_iff: "partner_bits l b x = 15 \<longleftrightarrow> (\<forall>i<4. has_bit x l (4 * (b div 4) + i))"
proof -
  have "(4 * (b div 4) + i) mod 32 = 4 * (b mod 32 div 4) + i \<and> b div 32 = (4 * (b div 4) + i) div 32" if "i < 4" for i
    using that mod_mult2_eq [of "4 * (b div 4) + i" 4 8] mod_mult2_eq [of b 4 8]
      div_mult2_eq [of "4 * (b div 4) + i" 4 8] div_mult2_eq [of b 4 8] by simp
  then show ?thesis
    unfolding partner_bits_def get_bit_ptr_eq by (auto simp: and_15_eq bit_drop_bit_eq has_bit_loc [of l l b])
qed

section \<open>Free lists and free bits\<close>

text \<open>
  The abstraction. \<open>pool_rel p x B F\<close>: the pool in state \<open>x\<close> has the shape of \<open>p\<close>, its
  lists hold the blocks \<open>F\<close> and its bits are set for the blocks \<open>B\<close>. In \<open>pool_ok\<close> lists and
  bits agree, and with the blocks in use they form a pool in the sense of theory Buddy.
\<close>

definition pool_rel :: "k_mem_pool \<Rightarrow> pool_state \<Rightarrow> (nat \<Rightarrow> nat set) \<Rightarrow> free_lists \<Rightarrow> bool" where
  "pool_rel p x B F \<longleftrightarrow> exact_sizes p \<and> geom (snd x) = geom p \<and> bit_layout (snd x) \<and> \<not> stray (snd x) \<and>
     (\<forall>l<n_levels p. lvl_free (levels (snd x) l) = map (blk p l) (F l)) \<and>
     (\<forall>l<n_levels p. \<forall>b<nblocks p l. has_bit x l b \<longleftrightarrow> b \<in> B l)"

definition pool_ok :: "k_mem_pool \<Rightarrow> pool_state \<Rightarrow> free_lists \<Rightarrow> block set \<Rightarrow> bool" where
  "pool_ok p x F A \<longleftrightarrow> pool_rel p x (\<lambda>l. set (F l)) F \<and> pool_inv (n_levels p) (n_max p) F A"

lemma pool_relD:
  assumes "pool_rel p x B F"
  shows "exact_sizes p" "geom (snd x) = geom p" "bit_layout (snd x)" "\<not> stray (snd x)"
    "l < n_levels p \<Longrightarrow> lvl_free (levels (snd x) l) = map (blk p l) (F l)"
    "l < n_levels p \<Longrightarrow> b < nblocks p l \<Longrightarrow> has_bit x l b \<longleftrightarrow> b \<in> B l"
  using assms by (auto simp: pool_rel_def)

lemma pool_rel_layout:
  assumes r: "pool_rel p x B F" and s: "same_layout (snd x) (snd x')"
    and f: "\<And>k. lvl_free (levels (snd x') k) = lvl_free (levels (snd x) k)"
    and b: "\<And>k c. k < n_levels p \<Longrightarrow> c < nblocks p k \<Longrightarrow> has_bit x' k c \<longleftrightarrow> c \<in> B' k"
  shows "pool_rel p x' B' F"
  using r s b same_layout_bits [OF s] by (simp add: pool_rel_def same_layout_def f)

lemma pool_rel_set_bit:
  assumes r: "pool_rel p x B F" and l: "l < n_levels p" "b < nblocks p l"
  shows "pool_rel p (set_free_bit l b x) (B(l := insert b (B l))) F"
proof -
  note g = geom_eq [OF pool_relD(2) [OF r]]
  note s = set_free_bit [OF pool_relD(3) [OF r], unfolded g, OF l]
  show ?thesis
    using r s(1,2) by (rule pool_rel_layout) (use s(3) pool_relD(6) [OF r] in auto)
qed

lemma pool_rel_clear_bit:
  assumes r: "pool_rel p x B F" and l: "l < n_levels p" "b < nblocks p l"
  shows "pool_rel p (clear_free_bit l b x) (B(l := B l - {b})) F"
proof -
  note g = geom_eq [OF pool_relD(2) [OF r]]
  note s = clear_free_bit [OF pool_relD(3) [OF r], unfolded g, OF l]
  show ?thesis
    using r s(1,2) by (rule pool_rel_layout) (use s(3) pool_relD(6) [OF r] in auto)
qed

lemma set_free_list_sel [simp]:
  "geom (snd (set_free_list l f x)) = geom (snd x)"
  "lvl_free (levels (snd (set_free_list l f x)) k) =
     (if k = l then f (lvl_free (levels (snd x) l)) else lvl_free (levels (snd x) k))"
  "same_layout (snd x) (snd (set_free_list l f x))"
  by (simp_all add: set_free_list_def set_level_def geom_def same_layout_def)

lemma has_bit_set_free_list [simp]: "has_bit (set_free_list l f x) k c = has_bit x k c"
proof -
  have "read_word w (set_free_list l f x) = read_word w x" for w
    by (cases x; cases w) (simp_all add: set_free_list_def set_level_def)
  then show ?thesis
    by (simp add: has_bit_def same_layout_loc [OF set_free_list_sel(3)])
qed

lemma pool_rel_list:
  assumes "pool_rel p x B F" and "l < n_levels p" and "f (map (blk p l) (F l)) = map (blk p l) ys"
  shows "pool_rel p (set_free_list l f x) B (F(l := ys))"
  using assms same_layout_bits [OF set_free_list_sel(3)] set_free_list_sel(3) [of x l f]
  by (auto simp: pool_rel_def same_layout_def)

lemma pool_rel_B:
  "pool_rel p x B F \<Longrightarrow> (\<And>l. l < n_levels p \<Longrightarrow> B l = B' l) \<Longrightarrow> (\<And>l. l < n_levels p \<Longrightarrow> F l = F' l) \<Longrightarrow> pool_rel p x B' F'"
  unfolding pool_rel_def by metis

lemma pool_ok_valid:
  assumes "pool_ok p x F A"
  shows "l < n_levels p \<Longrightarrow> b \<in> set (F l) \<Longrightarrow> b < nblocks p l" and "(l, b) \<in> A \<Longrightarrow> l < n_levels p \<and> b < nblocks p l"
    and "l < n_levels p \<Longrightarrow> distinct (F l)" and "(l, b) \<in> A \<Longrightarrow> b \<notin> set (F l)"
proof -
  note i = assms [unfolded pool_ok_def pool_inv_def partition_blocks_def]
  have "\<forall>y\<in>free_blocks (n_levels p) F \<union> A. valid_block (n_levels p) (n_max p) y"
    using i by blast
  then have v: "(k, c) \<in> free_blocks (n_levels p) F \<union> A \<Longrightarrow> k < n_levels p \<and> c < nblocks p k" for k c
    unfolding valid_block_def nblocks_def by (metis fst_conv snd_conv)
  show "b < nblocks p l" if "l < n_levels p" "b \<in> set (F l)"
    using v [of l b] that by (simp add: free_blocks_def)
  show "l < n_levels p \<and> b < nblocks p l" if "(l, b) \<in> A"
    using v that by blast
  then show "b \<notin> set (F l)" if "(l, b) \<in> A"
    using i that by (auto simp: free_blocks_def)
  show "distinct (F l)" if "l < n_levels p"
    using i that by blast
qed

lemma pool_okD:
  assumes "pool_ok p x F A"
  shows "exact_sizes p" "geom (snd x) = geom p" "pool_rel p x (\<lambda>l. set (F l)) F" "pool_inv (n_levels p) (n_max p) F A"
  using assms pool_relD(1,2) [of p x "\<lambda>l. set (F l)" F] by (auto simp: pool_ok_def)

section \<open>The locked sections keep the pool\<close>

lemma alloc_block_ok:
  assumes ok: "pool_ok p x F A" and l: "l < n_levels p" and F: "F l = b # bs"
  obtains x' where "alloc_block l (lsizes p l) x = (x', Some (blk p l b))"
    and "pool_ok p x' (F(l := bs)) (insert (l, b) A)" and "(l, b) \<notin> A"
proof -
  note D = pool_okD [OF ok] note g = geom_eq [OF D(2)]
  let ?x = "clear_free_bit l b (set_free_list l tl x)"
  have b: "b < nblocks p l" "b \<notin> set bs"
    using pool_ok_valid(1,3) [OF ok l] F by auto
  have "pool_rel p (set_free_list l tl x) (\<lambda>k. set (F k)) (F(l := bs))"
    using pool_rel_list [OF D(3) l, of tl bs] by (simp add: F)
  from pool_rel_clear_bit [OF this l b(1)] have "pool_rel p ?x (\<lambda>k. set ((F(l := bs)) k)) (F(l := bs))"
    by (rule pool_rel_B) (use F b in auto)
  moreover have "alloc_block l (lsizes p l) x = (?x, Some (blk p l b))"
    using D(1) l pool_relD(5) [OF D(3) l] by (simp add: alloc_block_def F g)
  ultimately show ?thesis
    using that pool_inv_take [OF D(4) l F] by (simp add: pool_ok_def)
qed

lemma alloc_block_None: "pool_ok p x F A \<Longrightarrow> l < n_levels p \<Longrightarrow> F l = [] \<Longrightarrow> alloc_block l lsz x = (x, None)"
  using pool_relD(5) [OF pool_okD(3)] by (simp add: alloc_block_def)

lemma pool_rel_free_child:
  assumes r: "pool_rel p x B F" and l: "l < n_levels p" "c < nblocks p l"
    and "x' = set_free_bit l c x" and "blk' = blk p l c"
  shows "pool_rel p (if block_fits (snd x') blk' (lsizes p l) then set_free_list l (\<lambda>xs. xs @ [blk']) x' else x')
    (B(l := insert c (B l))) (F(l := F l @ [c]))"
proof -
  note s = pool_rel_set_bit [OF r l]
  show ?thesis
    using block_fits_blk [OF pool_relD(1) [OF r] l] pool_rel_list [OF s l(1), of "\<lambda>xs. xs @ [blk']" "F l @ [c]"]
    by (simp add: assms(4,5) geom_eq [OF pool_relD(2) [OF s]])
qed

lemma break_block_ok:
  assumes ok: "pool_ok p x F (insert (l, b) A)" and n: "(l, b) \<notin> A" and l: "Suc l < n_levels p"
  obtains x' where "break_block (blk p l b) l (lsizes p) x = (x', blk p (Suc l) (4 * b))"
    and "pool_ok p x' (buddy_break l b F) (insert (Suc l, 4 * b) A)" and "(Suc l, 4 * b) \<notin> A"
proof -
  note D = pool_okD [OF ok] note g = geom_eq [OF D(2)]
  define f where "f = (\<lambda>i x. if block_fits (snd (set_free_bit (Suc l) (4 * b + i) x)) (lsizes p (Suc l) * i + blk p l b) (lsizes p (Suc l))
    then set_free_list (Suc l) (\<lambda>xs. xs @ [lsizes p (Suc l) * i + blk p l b]) (set_free_bit (Suc l) (4 * b + i) x)
    else set_free_bit (Suc l) (4 * b + i) x)"
  have "b < nblocks p l"
    using pool_ok_valid(2) [OF ok, of l b] by simp
  then have v: "4 * b + i < nblocks p (Suc l)" if "i < 4" for i
    using that by (simp add: nblocks_def)
  have step: "pool_rel p (f i y) (B(Suc l := insert (4 * b + i) (B (Suc l)))) (G(Suc l := G (Suc l) @ [4 * b + i]))"
    if "pool_rel p y B G" "i < 4" for y B G i
    unfolding f_def using that(1) l v [OF that(2)] refl blk_quarter [OF D(1) l] by (rule pool_rel_free_child)
  have "pool_rel p (f 3 (f 2 (f 1 x))) (\<lambda>k. set (buddy_break l b F k)) (buddy_break l b F)"
    by (rule pool_rel_B [OF step [OF step [OF step [OF D(3)]]]]) (auto simp: buddy_break_def)
  moreover have "break_block (blk p l b) l (lsizes p) x = (fold f [1..<4] x, blk p l b)"
    unfolding break_block_def Let_def g block_num_blk [OF D(1) Suc_lessD [OF l]] f_def Suc_eq_plus1 ..
  moreover have "fold f [1..<4] x = f 3 (f 2 (f 1 x))" "blk p l b = blk p (Suc l) (4 * b)"
    using blk_quarter [OF D(1) l, of 0 b] by (simp_all add: upt_rec flip: numeral_2_eq_2 numeral_3_eq_3)
  ultimately show ?thesis
    using that pool_inv_break [OF D(4) n l] by (simp add: pool_ok_def)
qed

lemma remove1_map_blk:
  "exact_sizes p \<Longrightarrow> l < n_levels p \<Longrightarrow> distinct xs \<Longrightarrow>
    remove1 (blk p l c) (map (blk p l) xs) = map (blk p l) (filter (\<lambda>d. d \<noteq> c) xs)"
  by (induction xs) (auto simp: blk_inj intro!: arg_cong [where f = "map (blk p l)"] filter_True [symmetric])

lemma pool_rel_unlink:
  assumes "pool_rel p x B F" and l: "l < n_levels p" and "distinct (F l)" and "\<And>i. i \<in> set is \<Longrightarrow> 4 * q + i < nblocks p l"
    and f: "f = (\<lambda>i x.
       let b' = 4 * q + i;
           x = clear_free_bit l b' x
       in if b' \<noteq> b \<and> block_fits (snd x) (block_ptr (snd x) (lsizes p l) b') (lsizes p l)
          then set_free_list l (remove1 (block_ptr (snd x) (lsizes p l) b')) x else x)"
  shows "pool_rel p (fold f is x) (B(l := B l - (\<lambda>i. 4 * q + i) ` set is))
    (F(l := filter (\<lambda>d. d \<notin> (\<lambda>i. 4 * q + i) ` set is - {b}) (F l)))"
  using assms(1,3,4)
proof (induction "is" arbitrary: x B F)
  case Nil
  then show ?case
    by simp
next
  case (Cons i "is")
  let ?c = "4 * q + i" and ?G = "\<lambda>F. F(l := filter (\<lambda>d. d \<noteq> 4 * q + i \<or> d = b) (F l))"
  have c: "?c < nblocks p l"
    using Cons.prems(3) by simp
  note r = pool_rel_clear_bit [OF Cons.prems(1) l c] note D = pool_relD(1,2) [OF r] note g = geom_eq [OF D(2)]
  have "pool_rel p (f i x) (B(l := B l - {?c})) (?G F)"
  proof (cases "?c = b")
    case True
    then have "?G F = F"
      by (auto simp: fun_eq_iff intro!: filter_True)
    then show ?thesis
      using r True by (simp add: f)
  next
    case False
    then have "f i x = set_free_list l (remove1 (blk p l ?c)) (clear_free_bit l ?c x)"
      using block_fits_blk [OF D(1) l c] by (simp add: f Let_def g blk_def)
    moreover have "filter (\<lambda>d. d \<noteq> ?c) (F l) = filter (\<lambda>d. d \<noteq> ?c \<or> d = b) (F l)"
      using False by (auto intro!: filter_cong)
    ultimately show ?thesis
      using pool_rel_list [OF r l, of "remove1 (blk p l ?c)"] remove1_map_blk [OF D(1) l Cons.prems(2), of ?c] by simp
  qed
  moreover have "distinct (?G F l)" "\<And>j. j \<in> set is \<Longrightarrow> 4 * q + j < nblocks p l"
    using Cons.prems(2,3) by simp_all
  ultimately have "pool_rel p (fold f is (f i x)) ((B(l := B l - {?c}))(l := (B(l := B l - {?c})) l - (\<lambda>i. 4 * q + i) ` set is))
      ((?G F)(l := filter (\<lambda>d. d \<notin> (\<lambda>i. 4 * q + i) ` set is - {b}) (?G F l)))"
    by (rule Cons.IH)
  then show ?case
    unfolding fold_simps by (rule pool_rel_B) (auto intro!: filter_cong)
qed

lemma partner_valid: "b < nblocks p (Suc l) \<Longrightarrow> i < 4 \<Longrightarrow> 4 * (b div 4) + i < nblocks p (Suc l)"
proof -
  have "nblocks p (Suc l) = 4 * nblocks p l"
    by (simp add: nblocks_def)
  then show "b < nblocks p (Suc l) \<Longrightarrow> i < 4 \<Longrightarrow> 4 * (b div 4) + i < nblocks p (Suc l)"
    using less_mult_imp_div_less [of b "nblocks p l" 4] by linarith
qed

lemma partners_free_bits:
  assumes ok: "pool_ok p x F (insert (l, b) A)"
  shows "l \<noteq> 0 \<Longrightarrow> partner_bits l b (set_free_bit l b x) = 15 \<longleftrightarrow> partners_free l b F"
proof -
  assume "l \<noteq> 0"
  then obtain k where k: "l = Suc k"
    by (cases l) auto
  have l: "l < n_levels p" "b < nblocks p l"
    using pool_ok_valid(2) [OF ok, of l b] by auto
  then have "4 * (b div 4) + i < nblocks p l" if "i < 4" for i
    using that partner_valid by (simp add: k)
  then show ?thesis
    unfolding partner_bits_iff partners_free_def
    using pool_relD(6) [OF pool_rel_set_bit [OF pool_okD(3) [OF ok] l] l(1)] by auto
qed

lemma free_block_locked_append:
  assumes ok: "pool_ok p x F (insert (l, b) A)" and n: "(l, b) \<notin> A" and pf: "l = 0 \<or> \<not> partners_free l b F"
  obtains x' where "free_block_locked l (lsizes p l) b x = (x', None)" and "pool_ok p x' (buddy_append l b F) A"
proof -
  note D = pool_okD [OF ok] note g = geom_eq [OF D(2)]
  have l: "l < n_levels p" "b < nblocks p l"
    using pool_ok_valid(2) [OF ok, of l b] by auto
  note s = pool_rel_set_bit [OF D(3) l]
  let ?x = "set_free_list l (\<lambda>xs. xs @ [blk p l b]) (set_free_bit l b x)"
  have "pool_rel p ?x ((\<lambda>l. set (F l))(l := insert b (set (F l)))) (F(l := F l @ [b]))"
    by (rule pool_rel_list [OF s l(1)]) simp
  then have "pool_rel p ?x (\<lambda>k. set (buddy_append l b F k)) (buddy_append l b F)"
    by (rule pool_rel_B) (auto simp: buddy_append_def)
  moreover have "l \<noteq> 0 \<longrightarrow> partner_bits l b (set_free_bit l b x) \<noteq> 15"
    using pf partners_free_bits [OF ok] by blast
  then have "free_block_locked l (lsizes p l) b x = (?x, None)"
    using block_fits_blk [OF D(1) l] geom_eq [OF pool_relD(2) [OF s]]
    by (auto simp add: free_block_locked_def Let_def blk_def [symmetric] g)
  ultimately show ?thesis
    using that pool_inv_append [OF l(1) D(4) n pf] by (simp add: pool_ok_def)
qed

lemma free_block_locked_merge:
  assumes ok: "pool_ok p x F (insert (Suc l, b) A)" and n: "(Suc l, b) \<notin> A" and pf: "partners_free (Suc l) b F"
  obtains x' where "free_block_locked (Suc l) (lsizes p (Suc l)) b x = (x', Some (b div 4))"
    and "pool_ok p x' (buddy_merge (Suc l) b F) (insert (l, b div 4) A)" and "(l, b div 4) \<notin> A"
proof -
  note D = pool_okD [OF ok] note g = geom_eq [OF D(2)]
  have l: "Suc l < n_levels p" "b < nblocks p (Suc l)"
    using pool_ok_valid(2) [OF ok, of "Suc l" b] by auto
  note s = pool_rel_set_bit [OF D(3) l]
  define f where "f = (\<lambda>i x.
       let b' = 4 * (b div 4) + i;
           x = clear_free_bit (Suc l) b' x
       in if b' \<noteq> b \<and> block_fits (snd x) (block_ptr (snd x) (lsizes p (Suc l)) b') (lsizes p (Suc l))
          then set_free_list (Suc l) (remove1 (block_ptr (snd x) (lsizes p (Suc l)) b')) x else x)"
  have v: "4 * (b div 4) + i < nblocks p (Suc l)" if "i \<in> set [0..<4]" for i
    using partner_valid [OF l(2)] that by simp
  note q = quarter_iff [of _ "b div 4"]
  have b: "b \<notin> set (F (Suc l))"
    using pool_ok_valid(4) [OF ok, of "Suc l" b] by simp
  have im: "d \<in> (\<lambda>i. 4 * (b div 4) + i) ` set [0..<4] \<longleftrightarrow> d div 4 = b div 4" for d
    unfolding q image_iff Bex_def set_upt atLeastLessThan_iff by auto
  have "pool_rel p (fold f [0..<4] (set_free_bit (Suc l) b x)) (\<lambda>k. set (buddy_merge (Suc l) b F k)) (buddy_merge (Suc l) b F)"
    using pool_rel_unlink [OF s l(1) pool_ok_valid(3) [OF ok l(1)] v f_def]
    by (rule pool_rel_B) (use b in \<open>auto simp: buddy_merge_def im intro!: filter_cong\<close>)
  moreover have "free_block_locked (Suc l) (lsizes p (Suc l)) b x = (fold f [0..<4] (set_free_bit (Suc l) b x), Some (b div 4))"
    using pf partners_free_bits [OF ok] unfolding free_block_locked_def Let_def f_def by simp
  ultimately show ?thesis
    using that pool_inv_merge [OF l(1) D(4) n pf] by (simp add: pool_ok_def)
qed

section \<open>Initialisation gives a pool with all blocks free\<close>

definition level_words :: "nat \<Rightarrow> nat \<Rightarrow> nat" where
  "level_words n l = (if n * 4 ^ l < 32 then 0 else (n * 4 ^ l + 31) div 32)"

definition words_before :: "nat \<Rightarrow> nat \<Rightarrow> nat" where
  "words_before n i = (\<Sum>l<i. level_words n l)"

lemma words_before_Suc: "words_before n (Suc i) = words_before n i + level_words n i"
  by (simp add: words_before_def)

lemma words_before_mono: "i \<le> k \<Longrightarrow> words_before n i \<le> words_before n k"
  unfolding words_before_def by (rule sum_mono2) auto

lemma nblocks_mono: "l \<le> k \<Longrightarrow> nblocks p l \<le> nblocks p k"
  by (simp add: nblocks_def power_increasing)

text \<open>The state of the loop over the levels before level \<open>i\<close>.\<close>

definition init_loop_inv :: "k_mem_pool \<Rightarrow> nat \<Rightarrow> k_mem_pool \<times> nat \<times> nat \<Rightarrow> bool" where
  "init_loop_inv p i y \<longleftrightarrow>
     (case y of (q, bits, sz) \<Rightarrow>
        geom q = geom p \<and> stray q = stray p \<and> (i < n_levels p \<longrightarrow> sz = lsizes p i) \<and>
        bits = pool_buf p + buf_size p + 4 * words_before (n_max p) i \<and>
        max_inline_level q \<le> i - 1 \<and> (\<forall>l<i. l \<le> max_inline_level q \<longleftrightarrow> nblocks p l < 32) \<and>
        (\<forall>l. if l < i then lvl_free (levels q l) = [] \<and>
                lvl_bits (levels q l) =
                  (if nblocks p l < 32 then lvl_bits (levels p l)
                   else of_nat (pool_buf p + buf_size p + 4 * words_before (n_max p) l))
              else levels q l = levels p l))"

lemma init_level_inv:
  assumes inv: "init_loop_inv p i y" and e: "exact_sizes p" and i: "i < n_levels p"
    and n: "nblocks p 0 < 32"
  shows "init_loop_inv p (Suc i) (init_level (buf_size p) i y)"
proof -
  obtain q bits sz where y: "y = (q, bits, sz)"
    by (cases y) auto
  have sz: "sz = lsizes p i"
    using inv i by (simp add: y init_loop_inv_def)
  have nb: "buf_size p div sz = nblocks p i"
    using lsizes_total [OF e i] lsizes_pos [OF e i] sz by (metis nonzero_mult_div_cancel_left neq0_conv)
  have lw: "level_words (n_max p) i = (if nblocks p i < 32 then 0 else (nblocks p i + 31) div 32)"
    by (simp add: level_words_def nblocks_def)
  have mono: "l \<le> i \<Longrightarrow> nblocks p i < 32 \<Longrightarrow> nblocks p l < 32" for l
    using nblocks_mono le_less_trans by blast
  have mi: "\<not> nblocks p i < 32 \<Longrightarrow> max_inline_level q < i"
    using inv n by (cases i) (auto simp: y init_loop_inv_def)
  have sz': "Suc i < n_levels p \<longrightarrow> ALIGN4 (sz div 4) = lsizes p (Suc i)"
    by (simp add: sz lsizes.simps)
  show ?thesis
    using inv sz' mono mi unfolding y init_loop_inv_def init_level_def Let_def split_conv nb
    by (cases "nblocks p i < 32")
      (auto simp: geom_def set_level_def words_before_Suc lw less_Suc_eq le_less)
qed

lemma init_levels_inv:
  assumes e: "exact_sizes p" and n: "n_max p < 32" and m: "max_inline_level p = 0"
  shows "init_loop_inv p (n_levels p) (init_levels p)"
proof -
  have "init_loop_inv p i (fold (init_level (buf_size p)) [0..<i] (p, pool_buf p + buf_size p, max_sz p))"
    if "i \<le> n_levels p" for i
    using that
  proof (induction i)
    case 0
    have "lsizes p 0 = max_sz p"
      using e lsizes_exact [of p 0] by (simp add: exact_sizes_def)
    then show ?case
      by (simp add: init_loop_inv_def words_before_def m)
  next
    case (Suc i)
    then show ?case
      using init_level_inv [OF _ e, of i] n by (simp add: nblocks_def)
  qed
  then show ?thesis
    by (simp add: init_levels_def buf_size_def Let_def)
qed

text \<open>
  A pool as \<open>K_MEM_POOL_DEFINE\<close> leaves it, in zeroed memory: fewer than 32 blocks at level 0,
  and the bit arrays below address \<open>2 ^ 32\<close>.
\<close>

definition fresh_pool :: "pool_state \<Rightarrow> bool" where
  "fresh_pool x \<longleftrightarrow>
     (case x of (m, p) \<Rightarrow>
        exact_sizes p \<and> n_max p < 32 \<and> max_inline_level p = 0 \<and> \<not> stray p \<and>
        (\<forall>l<n_levels p. levels p l = \<lparr>lvl_bits = 0, lvl_free = []\<rparr>) \<and>
        pool_buf p + buf_size p + 4 * words_before (n_max p) (n_levels p) < 2 ^ 32 \<and>
        (\<forall>a\<in>{pool_buf p + buf_size p..<pool_buf p + buf_size p + 4 * words_before (n_max p) (n_levels p)}. m a = 0))"

definition pool_start :: "pool_state \<Rightarrow> pool_state" where
  "pool_start x = init_blocks (fst x, fst (init_levels (snd x)))"

lemma init_levels_bits:
  assumes f: "fresh_pool (m, p)" and l: "l < n_levels p"
  shows "l \<le> max_inline_level (fst (init_levels p)) \<longleftrightarrow> nblocks p l < 32"
    and "unat (lvl_bits (levels (fst (init_levels p)) l)) =
      (if nblocks p l < 32 then 0 else pool_buf p + buf_size p + 4 * words_before (n_max p) l)"
    and "lvl_free (levels (fst (init_levels p)) l) = []"
    and "geom (fst (init_levels p)) = geom p" and "\<not> stray (fst (init_levels p))"
proof -
  have inv: "init_loop_inv p (n_levels p) (init_levels p)"
    using f by (intro init_levels_inv) (auto simp: fresh_pool_def)
  obtain q bits sz where y: "init_levels p = (q, bits, sz)"
    by (cases "init_levels p") auto
  have "words_before (n_max p) l \<le> words_before (n_max p) (n_levels p)"
    using l by (intro words_before_mono) simp
  then have "pool_buf p + buf_size p + 4 * words_before (n_max p) l < 2 ^ 32"
    using f by (simp add: fresh_pool_def)
  then have u: "unat (of_nat (pool_buf p + buf_size p + 4 * words_before (n_max p) l) :: u32) =
      pool_buf p + buf_size p + 4 * words_before (n_max p) l"
    by (simp only: unat_of_nat take_bit_nat_eq_self_iff len_of_numeral_defs) simp
  have "lvl_bits (levels q l) =
      (if nblocks p l < 32 then lvl_bits (levels p l)
       else of_nat (pool_buf p + buf_size p + 4 * words_before (n_max p) l))" "lvl_bits (levels p l) = 0"
    using inv l f unfolding y init_loop_inv_def fresh_pool_def by (simp_all only: split_conv) auto
  then show "unat (lvl_bits (levels (fst (init_levels p)) l)) =
      (if nblocks p l < 32 then 0 else pool_buf p + buf_size p + 4 * words_before (n_max p) l)"
    unfolding y fst_conv by (simp only: u split: if_split) simp
  show "l \<le> max_inline_level (fst (init_levels p)) \<longleftrightarrow> nblocks p l < 32"
    "lvl_free (levels (fst (init_levels p)) l) = []"
    "geom (fst (init_levels p)) = geom p" "\<not> stray (fst (init_levels p))"
    using inv l f unfolding y init_loop_inv_def fresh_pool_def by simp_all
qed

lemma init_levels_layout:
  assumes f: "fresh_pool (m, p)"
  shows "bit_layout (fst (init_levels p))"
proof -
  let ?q = "fst (init_levels p)"
  have g: "n_levels ?q = n_levels p" "nblocks ?q = nblocks p"
    using init_levels_bits(4) [OF f, of 0] f by (simp_all add: fresh_pool_def exact_sizes_def geom_eq [of ?q p])
  have "unat (lvl_bits (levels ?q l)) + 4 * ((nblocks p l + 31) div 32) \<le> unat (lvl_bits (levels ?q k))"
    if "max_inline_level ?q < l" "l < k" "k < n_levels p" for l k
  proof -
    have nb: "\<not> nblocks p l < 32" "\<not> nblocks p k < 32"
      using init_levels_bits(1) [OF f, of l] init_levels_bits(1) [OF f, of k] that by auto
    have "words_before (n_max p) (Suc l) \<le> words_before (n_max p) k"
      using that by (intro words_before_mono) simp
    moreover have "level_words (n_max p) l = (nblocks p l + 31) div 32"
      using nb(1) by (simp add: level_words_def nblocks_def)
    ultimately show ?thesis
      using init_levels_bits(2) [OF f, of l] init_levels_bits(2) [OF f, of k] that nb by (simp add: words_before_Suc)
  qed
  then show ?thesis
    unfolding bit_layout_def g using init_levels_bits(1) [OF f] by (auto simp: less_imp_le)
qed

lemma init_levels_no_bits:
  assumes f: "fresh_pool (m, p)" and l: "l < n_levels p" and b: "b < nblocks p l"
  shows "\<not> has_bit (m, fst (init_levels p)) l b"
proof (cases "nblocks p l < 32")
  case True
  then have "lvl_bits (levels (fst (init_levels p)) l) = 0"
    using init_levels_bits(2) [OF f l] by (simp add: unat_eq_0)
  then show ?thesis
    using True init_levels_bits(1) [OF f l] b by (simp add: has_bit_def loc_def get_bit_ptr_def)
next
  case False
  let ?a = "pool_buf p + buf_size p + 4 * words_before (n_max p) l + 4 * (b div 32)"
  have "level_words (n_max p) l = (nblocks p l + 31) div 32"
    using False by (simp add: level_words_def nblocks_def)
  moreover have "words_before (n_max p) (Suc l) \<le> words_before (n_max p) (n_levels p)"
    using l by (intro words_before_mono) simp
  ultimately have "?a < pool_buf p + buf_size p + 4 * words_before (n_max p) (n_levels p)"
    using word_in_array [OF b] by (simp add: words_before_Suc)
  then have "m ?a = 0"
    using f unfolding fresh_pool_def by simp
  then show ?thesis
    using False init_levels_bits(1,2) [OF f l] b by (simp add: has_bit_def loc_def get_bit_ptr_def)
qed

lemma pool_start_ok:
  assumes f: "fresh_pool (m, p)"
  shows "pool_ok p (pool_start (m, p)) ((\<lambda>_. [])(0 := [0..<n_max p])) {}"
proof -
  let ?q = "fst (init_levels p)"
  define g where "g = (\<lambda>i x. let block = block_ptr (snd x) (max_sz (snd x)) i
    in set_free_bit 0 i (set_free_list 0 (\<lambda>xs. xs @ [block]) x))"
  have e: "exact_sizes p" "0 < n_levels p"
    using f by (auto simp: fresh_pool_def exact_sizes_def)
  have q: "geom ?q = geom p"
    using init_levels_bits(4) [OF f e(2)] .
  have lsz: "lsizes p 0 = max_sz p"
    using lsizes_exact [OF e] by simp
  have gi: "g i x = set_free_bit 0 i (set_free_list 0 (\<lambda>xs. xs @ [blk p 0 i]) x)" if "geom (snd x) = geom p" for i x
    using geom_eq [OF that] by (simp add: g_def blk_def lsz)
  have "pool_rel p (fold g [0..<i] (m, ?q)) (\<lambda>l. if l = 0 then {..<i} else {}) ((\<lambda>_. [])(0 := [0..<i]))" if "i \<le> n_max p" for i
    using that
  proof (induction i)
    case 0
    then show ?case
      using e q init_levels_layout [OF f] init_levels_bits(3,5) [OF f] init_levels_no_bits [OF f]
      by (auto simp: pool_rel_def)
  next
    case (Suc i)
    let ?x = "fold g [0..<i] (m, ?q)"
    have r: "pool_rel p ?x (\<lambda>l. if l = 0 then {..<i} else {}) ((\<lambda>_. [])(0 := [0..<i]))"
      using Suc.prems by (intro Suc.IH) simp
    have "i < nblocks p 0"
      using Suc.prems by (simp add: nblocks_def)
    then have s: "pool_rel p (g i ?x) ((\<lambda>l. if l = 0 then {..<i} else {})(0 := insert i (if (0 :: nat) = 0 then {..<i} else {})))
        (((\<lambda>_. [])(0 := [0..<i]))(0 := [0..<Suc i]))"
      unfolding gi [OF pool_relD(2) [OF r]] by (intro pool_rel_set_bit pool_rel_list r e(2)) simp_all
    then show ?case
      unfolding upt_Suc_append [OF le0] fold_append o_apply fold_simps by (rule pool_rel_B) auto
  qed
  from this [of "n_max p"] have "pool_rel p (pool_start (m, p)) (\<lambda>l. if l = 0 then {..<n_max p} else {}) ((\<lambda>_. [])(0 := [0..<n_max p]))"
    using geom_eq [OF q] by (simp add: pool_start_def init_blocks_def g_def)
  then have "pool_rel p (pool_start (m, p)) (\<lambda>l. set (((\<lambda>_. [])(0 := [0..<n_max p])) l)) ((\<lambda>_. [])(0 := [0..<n_max p]))"
    by (rule pool_rel_B) auto
  then show ?thesis
    using pool_inv_init [OF e(2)] by (simp add: pool_ok_def)
qed

end
