(* ===== verification/Mempool_Api.thy ===== *)
theory Mempool_Api
  imports Mempool_Inv
begin

text \<open>
  What the memory pools promise: the blocks in use never overlap, whatever the interleaving
  of allocations and frees; an allocation gets the smallest fitting block whenever there is a
  free block that is large enough; freeing everything restores the initial blocks; and a
  free wakes all waiting threads.
\<close>

section \<open>Interleavings of the locked sections\<close>

text \<open>
  The steps of all threads that use a pool. A thread holds the blocks it took from a list
  and has neither returned nor handed to its caller's caller; \<open>A\<close> collects the blocks held
  by threads and applications. Each step is one section with interrupts locked:
  \<open>alloc_block\<close>, \<open>break_block\<close>, and \<open>free_block\<close> with or without a merge.
\<close>

inductive pool_step :: "k_mem_pool \<Rightarrow> pool_state \<times> block set \<Rightarrow> pool_state \<times> block set \<Rightarrow> bool"
  for p :: k_mem_pool where
  take: "l < n_levels p \<Longrightarrow> alloc_block l (lsizes p l) x = (x', Some a) \<Longrightarrow>
    pool_step p (x, A) (x', insert (l, block_num p a (lsizes p l)) A)"
| split: "(l, b) \<in> A \<Longrightarrow> Suc l < n_levels p \<Longrightarrow>
    break_block (block_ptr p (lsizes p l) b) l (lsizes p) x = (x', a) \<Longrightarrow>
    pool_step p (x, A) (x', insert (Suc l, 4 * b) (A - {(l, b)}))"
| merge: "(Suc l, b) \<in> A \<Longrightarrow> free_block_locked (Suc l) (lsizes p (Suc l)) b x = (x', Some c) \<Longrightarrow>
    pool_step p (x, A) (x', insert (l, c) (A - {(Suc l, b)}))"
| release: "(l, b) \<in> A \<Longrightarrow> free_block_locked l (lsizes p l) b x = (x', None) \<Longrightarrow>
    pool_step p (x, A) (x', A - {(l, b)})"

definition pool_reach :: "pool_state \<Rightarrow> pool_state \<Rightarrow> block set \<Rightarrow> bool" where
  "pool_reach x0 x A \<longleftrightarrow> (pool_step (snd x0))\<^sup>*\<^sup>* (pool_start x0, {}) (x, A)"

lemma free_block_locked_0: "free_block_locked 0 lsz b x = (x', r) \<Longrightarrow> r = None"
  by (auto simp: free_block_locked_def Let_def split: if_splits)

lemma pool_step_ok:
  assumes "pool_step p (x, A) (x', A')" and "\<exists>F. pool_ok p x F A"
  shows "\<exists>F. pool_ok p x' F A'"
proof -
  obtain F where ok: "pool_ok p x F A"
    using assms(2) by blast
  have ins: "(l, b) \<in> A \<Longrightarrow> pool_ok p x F (insert (l, b) (A - {(l, b)}))" for l b
    using ok by (simp add: insert_absorb)
  from assms(1) show ?thesis
  proof cases
    case (take l a)
    have "F l \<noteq> []"
      using alloc_block_None [OF ok take(2), of "lsizes p l"] take(3) by auto
    then obtain b bs where F: "F l = b # bs"
      by (cases "F l") auto
    obtain y where "alloc_block l (lsizes p l) x = (y, Some (blk p l b))" "pool_ok p y (F(l := bs)) (insert (l, b) A)"
      using alloc_block_ok [OF ok take(2) F] by blast
    moreover have "block_num p (blk p l b) (lsizes p l) = b"
      using pool_okD(1) [OF ok] take(2) by simp
    ultimately show ?thesis
      using take(1,3) by auto
  next
    case (split l b a)
    from break_block_ok [OF ins [OF split(2)] _ split(3)] show ?thesis
      using split by (auto simp: blk_def)
  next
    case (merge l b c)
    note ok' = ins [OF merge(2)]
    show ?thesis
    proof (cases "partners_free (Suc l) b F")
      case True
      from free_block_locked_merge [OF ok' _ True] show ?thesis
        using merge by auto
    next
      case False
      from free_block_locked_append [OF ok'] show ?thesis
        using merge False by auto
    qed
  next
    case (release l b)
    note ok' = ins [OF release(2)]
    show ?thesis
    proof (cases "l = 0 \<or> \<not> partners_free l b F")
      case True
      from free_block_locked_append [OF ok' _ True] show ?thesis
        using release by auto
    next
      case False
      then obtain k where "l = Suc k"
        by (cases l) auto
      then show ?thesis
        using free_block_locked_merge [of p x F k b "A - {(l, b)}"] ok' release False by auto
    qed
  qed
qed

lemma pool_reach_ok:
  assumes "fresh_pool x0" and "pool_reach x0 x A"
  shows "\<exists>F. pool_ok (snd x0) x F A"
proof -
  have "(pool_step (snd x0))\<^sup>*\<^sup>* (pool_start x0, {}) (x, A) \<Longrightarrow> \<exists>F. pool_ok (snd x0) x F A"
  proof (induction rule: rtranclp_induct2)
    case refl
    then show ?case
      using pool_start_ok [of "fst x0" "snd x0"] assms(1) by auto
  next
    case (step x A x' A')
    then show ?case
      using pool_step_ok by blast
  qed
  then show ?thesis
    using assms(2) by (simp add: pool_reach_def)
qed

section \<open>Addresses\<close>

lemma quarters_div: "M = 4 ^ (l + d) * k \<Longrightarrow> M div 4 ^ l = k * (4 :: nat) ^ d"
  by (simp add: power_add mult.assoc mult.commute [of k])

lemma anc_of_address:
  assumes "exact_sizes p" and "l < n_levels p"
  shows "anc (n_levels p) (off div lsizes p (n_levels p - 1)) l = off div lsizes p l"
proof -
  have "max_sz p = 4 ^ (l + (n_levels p - 1 - l)) * (max_sz p div 4 ^ (n_levels p - 1))"
    using exact_div(1) [OF assms(1), of "n_levels p - 1"] assms(2) by simp
  from quarters_div [OF this] show ?thesis
    using assms by (simp add: anc_def lsizes_exact div_mult2_eq)
qed

text \<open>A block as an area of memory.\<close>

definition area :: "k_mem_pool \<Rightarrow> block \<Rightarrow> nat set" where
  "area p x = {block_ptr p (lsizes p (fst x)) (snd x)..<block_ptr p (lsizes p (fst x)) (snd x) + lsizes p (fst x)}"

lemma area_num:
  assumes "exact_sizes p" and "l < n_levels p" and "a \<in> area p (l, b)"
  shows "(a - pool_buf p) div lsizes p l = b"
  using assms lsizes_pos [of p l] by (auto simp: area_def block_ptr_def intro!: div_nat_eqI)

lemma area_disjoint:
  assumes p: "exact_sizes p" and part: "partition_blocks (n_levels p) (n_max p) S"
    and x: "(l, b) \<in> S" "(k, c) \<in> S" "(l, b) \<noteq> (k, c)"
  shows "area p (l, b) \<inter> area p (k, c) = {}"
proof (rule ccontr)
  let ?L = "n_levels p"
  assume "area p (l, b) \<inter> area p (k, c) \<noteq> {}"
  then obtain a where a: "a \<in> area p (l, b)" "a \<in> area p (k, c)"
    by blast
  have v: "l < ?L" "b < nblocks p l" "k < ?L"
    using part x by (auto simp: partition_blocks_def valid_block_def nblocks_def)
  let ?u = "(a - pool_buf p) div lsizes p (?L - 1)"
  have "anc ?L ?u l = b" "anc ?L ?u k = c"
    using area_num [OF p v(1) a(1)] area_num [OF p v(3) a(2)] anc_of_address [OF p] v by simp_all
  moreover have "?u < units ?L (n_max p)"
  proof -
    have "a - pool_buf p < buf_size p"
      using a(1) blk_inside [OF p v(1,2)] unfolding area_def blk_def by auto
    then have "a - pool_buf p < units ?L (n_max p) * lsizes p (?L - 1)"
      using lsizes_total [OF p, of "?L - 1"] v(1) by (simp add: units_def nblocks_def mult.commute)
    then show ?thesis
      by (rule less_mult_imp_div_less)
  qed
  ultimately show False
    using partition_disjoint [OF part x(1,2)] x(3) by blast
qed


section \<open>Whole operations as sequences of locked sections\<close>

declare free_block.simps [simp del]

lemma free_block_ok:
  assumes "pool_ok p x F (insert (l, b) A)" and "(l, b) \<notin> A"
  shows "\<exists>F'. pool_ok p (free_block l (lsizes p) b x) F' A"
    and "(pool_step p)\<^sup>*\<^sup>* (x, insert (l, b) A) (free_block l (lsizes p) b x, A)"
proof -
  have "(\<exists>F'. pool_ok p (free_block l (lsizes p) b x) F' A) \<and>
    (pool_step p)\<^sup>*\<^sup>* (x, insert (l, b) A) (free_block l (lsizes p) b x, A)"
    using assms
  proof (induction l arbitrary: b x F)
    case 0
    obtain x' where x': "free_block_locked 0 (lsizes p 0) b x = (x', None)" "pool_ok p x' (buddy_append 0 b F) A"
      using free_block_locked_append [OF "0.prems"] by blast
    then have "pool_step p (x, insert (0, b) A) (x', insert (0, b) A - {(0, b)})"
      by (intro pool_step.release) simp_all
    then show ?case
      using x' "0.prems"(2) by (auto simp: free_block.simps)
  next
    case (Suc l)
    show ?case
    proof (cases "partners_free (Suc l) b F")
      case True
      obtain x' where x': "free_block_locked (Suc l) (lsizes p (Suc l)) b x = (x', Some (b div 4))"
        "pool_ok p x' (buddy_merge (Suc l) b F) (insert (l, b div 4) A)" "(l, b div 4) \<notin> A"
        using free_block_locked_merge [OF Suc.prems True] by blast
      have "pool_step p (x, insert (Suc l, b) A) (x', insert (l, b div 4) (insert (Suc l, b) A - {(Suc l, b)}))"
        using x'(1) by (intro pool_step.merge) simp_all
      moreover have "free_block (Suc l) (lsizes p) b x = free_block l (lsizes p) (b div 4) x'"
        by (simp add: free_block.simps [of "Suc l"] x'(1))
      ultimately show ?thesis
        using Suc.IH [OF x'(2,3)] Suc.prems(2) by (auto intro: converse_rtranclp_into_rtranclp)
    next
      case False
      then obtain x' where x': "free_block_locked (Suc l) (lsizes p (Suc l)) b x = (x', None)"
        "pool_ok p x' (buddy_append (Suc l) b F) A"
        using free_block_locked_append [OF Suc.prems] by blast
      then have "pool_step p (x, insert (Suc l, b) A) (x', insert (Suc l, b) A - {(Suc l, b)})"
        by (intro pool_step.release) simp_all
      then show ?thesis
        using x' Suc.prems(2) by (auto simp: free_block.simps)
    qed
  qed
  then show "\<exists>F'. pool_ok p (free_block l (lsizes p) b x) F' A"
    "(pool_step p)\<^sup>*\<^sup>* (x, insert (l, b) A) (free_block l (lsizes p) b x, A)"
    by blast+
qed

lemma break_blocks_ok:
  assumes "pool_ok p x F (insert (f, b) A)" and "(f, b) \<notin> A" and "f + n < n_levels p"
  shows "\<exists>x' F' c. break_blocks (lsizes p) [f..<f + n] (x, blk p f b) = (x', blk p (f + n) c) \<and>
    pool_ok p x' F' (insert (f + n, c) A) \<and> (f + n, c) \<notin> A \<and>
    (pool_step p)\<^sup>*\<^sup>* (x, insert (f, b) A) (x', insert (f + n, c) A)"
  using assms
proof (induction n arbitrary: f b x F)
  case 0
  then show ?case
    by auto
next
  case (Suc n)
  have l: "Suc f < n_levels p"
    using Suc.prems(3) by simp
  obtain x1 where x1: "break_block (blk p f b) f (lsizes p) x = (x1, blk p (Suc f) (4 * b))"
    "pool_ok p x1 (buddy_break f b F) (insert (Suc f, 4 * b) A)" "(Suc f, 4 * b) \<notin> A"
    using break_block_ok [OF Suc.prems(1,2) l] by blast
  have "pool_step p (x, insert (f, b) A) (x1, insert (Suc f, 4 * b) (insert (f, b) A - {(f, b)}))"
    using x1(1) l by (intro pool_step.split) (simp_all add: blk_def)
  then have step: "pool_step p (x, insert (f, b) A) (x1, insert (Suc f, 4 * b) A)"
    using Suc.prems(2) by simp
  have "[f..<f + Suc n] = f # [Suc f..<Suc f + n]"
    by (simp add: upt_conv_Cons)
  then have eq: "break_blocks (lsizes p) [f..<f + Suc n] (x, blk p f b) =
      break_blocks (lsizes p) [Suc f..<Suc f + n] (x1, blk p (Suc f) (4 * b))"
    by (simp add: x1(1))
  have l': "Suc f + n < n_levels p" and fn: "f + Suc n = Suc f + n"
    using Suc.prems(3) by simp_all
  show ?case
    unfolding eq unfolding fn using Suc.IH [OF x1(2,3) l'] converse_rtranclp_into_rtranclp [of "pool_step p", OF step] by blast
qed

text \<open>The scan over the levels, after the first \<open>i\<close> of them.\<close>

definition scanned :: "k_mem_pool \<Rightarrow> nat \<Rightarrow> nat \<Rightarrow> nat option \<times> nat option \<Rightarrow> bool" where
  "scanned p sz i r \<longleftrightarrow> (\<forall>k<i. sz \<le> lsizes p k) \<and> fst r = (if i = 0 then None else Some (i - 1)) \<and>
     (case snd r of None \<Rightarrow> \<forall>k<i. level_empty p k
      | Some f \<Rightarrow> f < i \<and> \<not> level_empty p f \<and> (\<forall>k. f < k \<and> k < i \<longrightarrow> level_empty p k))"

lemma find_levels_scan:
  assumes "scanned p sz i r" and "i + n = L"
  shows "\<exists>j\<le>L. scanned p sz j (find_levels p sz [i..<L] r) \<and> (j = L \<or> lsizes p j < sz)"
  using assms
proof (induction n arbitrary: i r)
  case 0
  then show ?case
    by auto
next
  case (Suc n)
  obtain a f where r: "r = (a, f)"
    by fastforce
  have u: "[i..<L] = i # [Suc i..<L]"
    using Suc.prems(2) by (simp add: upt_conv_Cons)
  show ?case
  proof (cases "lsizes p i < sz")
    case True
    then show ?thesis
      using Suc.prems by (auto simp: u r intro!: exI [of _ i])
  next
    case False
    then have "scanned p sz (Suc i) (Some i, if level_empty p i then f else Some i)"
      using Suc.prems(1) by (auto simp: scanned_def r less_Suc_eq split: option.splits)
    then show ?thesis
      using Suc.IH [of "Suc i"] Suc.prems(2) False by (simp add: u r)
  qed
qed

lemma lsizes_antimono:
  assumes "exact_sizes p" and "l \<le> k" and "k < n_levels p"
  shows "lsizes p k \<le> lsizes p l"
  using assms by (simp add: lsizes_exact div_le_mono2 power_increasing)

section \<open>Allocation\<close>

text \<open>The pools whose block numbers and levels fit the fields of \<open>struct k_mem_block_id\<close>.\<close>

definition ids_fit :: "k_mem_pool \<Rightarrow> bool" where
  "ids_fit p \<longleftrightarrow> n_levels p \<le> 2 ^ 4 \<and> nblocks p (n_levels p - 1) \<le> 2 ^ 20"

definition block_of :: "k_mem_block \<Rightarrow> block" where
  "block_of d = (id_level d, id_block d)"

lemma ids_fitD: "ids_fit p \<Longrightarrow> l < n_levels p \<Longrightarrow> b < nblocks p l \<Longrightarrow> l mod 2 ^ 4 = l \<and> b mod 2 ^ 20 = b"
  using nblocks_mono [of l "n_levels p - 1" p] unfolding ids_fit_def by (intro conjI mod_less) linarith+

lemma level_empty_iff:
  "pool_ok p x F A \<Longrightarrow> l < n_levels p \<Longrightarrow> level_empty (snd x) l \<longleftrightarrow> F l = []"
  using pool_relD(5) [OF pool_okD(3)] by (simp add: level_empty_def)

lemma pool_alloc_Some:
  assumes ok: "pool_ok p x F A" and fit: "ids_fit p" "i < 2 ^ 8"
    and find: "find_levels (snd x) sz [0..<n_levels (snd x)] (None, None) = (Some a, Some f)"
    and fa: "f \<le> a" "a < n_levels p" "F f \<noteq> []"
  shows "\<exists>x' F' c. pool_alloc i block sz x = (x', block\<lparr>data := blk p a c, id_pool := i, id_level := a, id_block := c\<rparr>, 0) \<and>
    (a, c) \<notin> A \<and> pool_ok p x' F' (insert (a, c) A) \<and> (pool_step p)\<^sup>*\<^sup>* (x, A) (x', insert (a, c) A)"
proof -
  note D = pool_okD(1,2) [OF ok] note g = geom_eq [OF D(2)]
  obtain b bs where F: "F f = b # bs"
    using fa(3) by (cases "F f") auto
  have fl: "f < n_levels p" and n: "f + (a - f) = a"
    using fa by simp_all
  obtain x1 where x1: "alloc_block f (lsizes p f) x = (x1, Some (blk p f b))"
    "pool_ok p x1 (F(f := bs)) (insert (f, b) A)" "(f, b) \<notin> A"
    using alloc_block_ok [OF ok fl F] by blast
  have s1: "pool_step p (x, A) (x1, insert (f, b) A)"
    using pool_step.take [OF fl x1(1), of A] D(1) fl by simp
  obtain x' F' c where x': "break_blocks (lsizes p) [f..<a] (x1, blk p f b) = (x', blk p a c)"
    "pool_ok p x' F' (insert (a, c) A)" "(a, c) \<notin> A" "(pool_step p)\<^sup>*\<^sup>* (x1, insert (f, b) A) (x', insert (a, c) A)"
    using break_blocks_ok [OF x1(2,3), of "a - f"] fa unfolding n by blast
  have "c < nblocks p a"
    using pool_ok_valid(2) [OF x'(2), of a c] by simp
  then have m: "a mod 2 ^ 4 = a" "c mod 2 ^ 20 = c" "i mod 2 ^ 8 = i"
    using ids_fitD [OF fit(1) fa(2)] fit(2) by simp_all
  have "block_num (snd x') (blk p a c) (lsizes p a) = c"
    using geom_eq(3) [OF pool_okD(2) [OF x'(2)]] D(1) fa(2) by simp
  then have "pool_alloc i block sz x = (x', block\<lparr>data := blk p a c, id_pool := i, id_level := a, id_block := c\<rparr>, 0)"
    unfolding pool_alloc_def find using m by (simp add: g x1(1) x'(1))
  then show ?thesis
    using x'(2-4) s1 by (meson converse_rtranclp_into_rtranclp)
qed

lemma pool_alloc_ok:
  assumes ok: "pool_ok p x F A" and fit: "ids_fit p" "i < 2 ^ 8"
  shows "(\<exists>x' F' a c. pool_alloc i block sz x = (x', block\<lparr>data := blk p a c, id_pool := i, id_level := a, id_block := c\<rparr>, 0) \<and>
      a < n_levels p \<and> sz \<le> lsizes p a \<and> (\<forall>l<n_levels p. sz \<le> lsizes p l \<longrightarrow> l \<le> a) \<and>
      (a, c) \<notin> A \<and> pool_ok p x' F' (insert (a, c) A) \<and> (pool_step p)\<^sup>*\<^sup>* (x, A) (x', insert (a, c) A)) \<or>
    (pool_alloc i block sz x = (x, block\<lparr>data := 0\<rparr>, - ENOMEM) \<and> (\<forall>l<n_levels p. sz \<le> lsizes p l \<longrightarrow> level_empty (snd x) l))"
proof -
  note D = pool_okD(1,2) [OF ok] note g = geom_eq [OF D(2)]
  let ?r = "find_levels (snd x) sz [0..<n_levels (snd x)] (None, None)"
  have "scanned (snd x) sz 0 (None, None)"
    by (simp add: scanned_def)
  then obtain j where j: "j \<le> n_levels p" "scanned (snd x) sz j ?r" "j = n_levels p \<or> lsizes p j < sz"
    using find_levels_scan [of "snd x" sz 0 "(None, None)" "n_levels p"] by (auto simp: g)
  have small: "lsizes p l < sz" if "j \<le> l" "l < n_levels p" for l
    using lsizes_antimono [OF D(1) that] j(3) that by auto
  show ?thesis
  proof (cases "snd ?r")
    case None
    then obtain a where r: "?r = (a, None)"
      by (cases ?r) simp
    have "pool_alloc i block sz x = (x, block\<lparr>data := 0\<rparr>, - ENOMEM)"
      unfolding pool_alloc_def r by (simp split: option.split)
    moreover have "level_empty (snd x) l" if "l < n_levels p" "sz \<le> lsizes p l" for l
      using j(2) None small [of l] that by (cases "l < j") (auto simp: scanned_def)
    ultimately show ?thesis
      by blast
  next
    case (Some f)
    then have f: "f < j" "\<not> level_empty (snd x) f" "?r = (Some (j - 1), Some f)"
      using j(2) by (auto simp: scanned_def prod_eq_iff)
    have "F f \<noteq> []" "f \<le> j - 1" "j - 1 < n_levels p"
      using f(1,2) j(1) level_empty_iff [OF ok, of f] by auto
    note a = pool_alloc_Some [OF ok fit f(3) this(2,3,1), of block]
    have "sz \<le> lsizes p (j - 1)"
      using j(2) f(1) by (auto simp: scanned_def g)
    moreover have "l \<le> j - 1" if "l < n_levels p" "sz \<le> lsizes p l" for l
      using small [of l] that by (cases "j \<le> l") auto
    ultimately show ?thesis
      using a \<open>j - 1 < n_levels p\<close> by blast
  qed
qed

lemma pool_reach_steps: "pool_reach x0 x A \<Longrightarrow> (pool_step (snd x0))\<^sup>*\<^sup>* (x, A) (x', A') \<Longrightarrow> pool_reach x0 x' A'"
  by (simp add: pool_reach_def)



section \<open>Statically defined pools\<close>

text \<open>
  The parameters the documentation allows, restricted to fewer than 32 blocks of the largest
  size and to 15 levels.
\<close>

definition documented_sizes :: "nat \<Rightarrow> nat \<Rightarrow> nat \<Rightarrow> nat \<Rightarrow> bool" where
  "documented_sizes minsz maxsz nmax y \<longleftrightarrow>
     0 < minsz \<and> 4 dvd minsz \<and> maxsz = minsz * 4 ^ y \<and> y < 15 \<and> 0 < nmax \<and> nmax < 32"

lemma have_lvl:
  assumes "documented_sizes minsz maxsz nmax y"
  shows "MPOOL_HAVE_LVL maxsz minsz l = (if l \<le> y then 1 else 0)"
proof -
  have m: "drop_bit (2 * l) maxsz = minsz * 4 ^ y div 4 ^ l"
    using assms by (simp add: documented_sizes_def drop_bit_eq_div power_mult)
  show ?thesis
  proof (cases "l \<le> y")
    case True
    then have "minsz * 4 ^ y div 4 ^ l = minsz * 4 ^ (y - l)"
      by (metis div_mult_self1_is_m le_add_diff_inverse mult.left_commute power_add zero_less_numeral zero_less_power)
    then show ?thesis
      using True by (simp add: MPOOL_HAVE_LVL_def m)
  next
    case False
    then have "(4 :: nat) ^ l = 4 ^ y * 4 ^ (l - y)" "1 < (4 :: nat) ^ (l - y)"
      using one_less_power [of "4 :: nat" "l - y"] by (simp_all flip: power_add)
    then have "minsz * 4 ^ y div 4 ^ l < minsz"
      using assms by (simp add: div_mult2_eq documented_sizes_def)
    then show ?thesis
      using False by (simp add: MPOOL_HAVE_LVL_def m)
  qed
qed

lemma sum_list_upt: "(\<Sum>l\<leftarrow>[0..<n]. f l) = (\<Sum>l<n. f l :: nat)"
  by (simp add: interv_sum_list_conv_sum_set_nat atLeast0LessThan)

lemma mpool_lvls:
  assumes "documented_sizes minsz maxsz nmax y"
  shows "MPOOL_LVLS maxsz minsz = Suc y"
proof -
  have "{l. l < 16 \<and> l \<le> y} = {..y}"
    using assms by (auto simp: documented_sizes_def)
  then show ?thesis
    using sum.inter_filter [of "{..<16}" "\<lambda>_. 1 :: nat" "\<lambda>l. l \<le> y"]
    unfolding MPOOL_LVLS_def sum_list_upt have_lvl [OF assms] by simp
qed

lemma lbit_words:
  "MPOOL_LBIT_WORDS n l = (if n * 4 ^ l \<le> 32 then 0 else (n * 4 ^ l + 31) div 32)"
proof -
  have "MPOOL_LBIT_WORDS_UNCLAMPED n l = (n * 4 ^ l + 31) div 32"
    by (simp add: MPOOL_LBIT_WORDS_UNCLAMPED_def push_bit_eq_mult power_mult)
  moreover have "(n * 4 ^ l + 31) div 32 < 2 \<longleftrightarrow> n * 4 ^ l \<le> 32"
    by linarith
  ultimately show ?thesis
    by (simp add: MPOOL_LBIT_WORDS_def)
qed

lemma words_before_bound:
  "words_before n i \<le> (\<Sum>l<i. MPOOL_LBIT_WORDS n l) + (if 32 \<le> n * 4 ^ (i - 1) then 1 else 0)"
proof (induction i)
  case 0
  then show ?case
    by (simp add: words_before_def)
next
  case (Suc i)
  have "32 \<le> n * 4 ^ (i - 1) \<Longrightarrow> 32 < n * 4 ^ i" if "i \<noteq> 0"
    using that by (cases i) simp_all
  then show ?case
    using Suc by (cases "i = 0"; cases "n * 4 ^ i" "32 :: nat" rule: linorder_cases)
      (auto simp: words_before_Suc level_words_def lbit_words words_before_def split: if_splits)
qed

lemma bits_size_bound:
  assumes d: "documented_sizes minsz maxsz nmax y"
  shows "4 * words_before nmax (Suc y) \<le> MPOOL_BITS_SIZE maxsz minsz nmax"
proof -
  have y: "Suc (Suc y) \<le> 16"
    using d by (simp add: documented_sizes_def)
  have "(if 32 \<le> nmax * 4 ^ y then 1 else 0) \<le> MPOOL_LBIT_WORDS nmax (Suc y)"
    unfolding lbit_words using d by (simp add: Suc_le_eq div_greater_zero_iff documented_sizes_def)
  then have "words_before nmax (Suc y) \<le> (\<Sum>l<Suc (Suc y). MPOOL_LBIT_WORDS nmax l)"
    using words_before_bound [of nmax "Suc y"] by simp
  then have "4 * words_before nmax (Suc y) \<le> (\<Sum>l<Suc (Suc y). MPOOL_LBIT_BYTES maxsz minsz l nmax)"
    by (simp add: MPOOL_LBIT_BYTES_def mpool_lvls [OF d] sum_distrib_left [symmetric])
  also have "\<dots> \<le> MPOOL_BITS_SIZE maxsz minsz nmax"
    unfolding MPOOL_BITS_SIZE_def sum_list_upt using y by (intro sum_mono2) auto
  finally show ?thesis .
qed

lemma mpool_fresh:
  assumes "documented_sizes minsz maxsz nmax y" and "buf + mpool_reserved minsz maxsz nmax < 2 ^ 32"
    and "\<forall>a\<in>{buf..<buf + mpool_reserved minsz maxsz nmax}. m a = 0" and "p = K_MEM_POOL_DEFINE buf w minsz maxsz nmax"
  shows "buf_size p + 4 * words_before nmax (Suc y) \<le> mpool_reserved minsz maxsz nmax" and "n_levels p = Suc y"
    and "fresh_pool (m, p)"
proof -
  have p: "n_levels p = Suc y" "max_sz p = maxsz" "n_max p = nmax" "pool_buf p = buf" "max_inline_level p = 0"
    by (simp_all add: assms(4) K_MEM_POOL_DEFINE_def mpool_lvls [OF assms(1)])
  then show "n_levels p = Suc y"
    by simp
  have "4 dvd maxsz * nmax"
    using assms(1) by (auto simp: documented_sizes_def)
  then show r: "buf_size p + 4 * words_before nmax (Suc y) \<le> mpool_reserved minsz maxsz nmax"
    using bits_size_bound [OF assms(1)] by (simp add: mpool_reserved_def ALIGN4_id buf_size_def p mult.commute)
  have "exact_sizes p"
    using assms(1) mult_dvd_mono [of 4 minsz "4 ^ y" "4 ^ y"]
    unfolding exact_sizes_def p documented_sizes_def by simp
  then show "fresh_pool (m, p)"
    using assms r unfolding fresh_pool_def split_conv p by (auto simp: documented_sizes_def K_MEM_POOL_DEFINE_def)
qed


text \<open>A small pool for examples: two blocks of 16 bytes at address 64, with quarters of 4 bytes.\<close>

definition pool2 :: pool_state where
  "pool2 = (\<lambda>_. 0, K_MEM_POOL_DEFINE 64 4 4 16 2)"

lemma pool2_sizes: "documented_sizes 4 16 2 1" "mpool_reserved 4 16 2 = 32"
proof -
  show d: "documented_sizes 4 16 2 1"
    by (simp add: documented_sizes_def)
  have "MPOOL_LBIT_BYTES 16 4 l 2 = 0" for l
    using power_increasing [of l 2 "4 :: nat"] by (simp add: MPOOL_LBIT_BYTES_def mpool_lvls [OF d] lbit_words)
  then show "mpool_reserved 4 16 2 = 32"
    by (simp add: mpool_reserved_def MPOOL_BITS_SIZE_def ALIGN4_def)
qed

lemma pool2_fresh: "fresh_pool pool2"
  using mpool_fresh(3) [OF pool2_sizes(1) _ _ refl, of 64 "\<lambda>_. 0" 4] by (simp add: pool2_def pool2_sizes(2))

lemma pool2_sel:
  "n_levels (snd pool2) = 2" "n_max (snd pool2) = 2" "max_sz (snd pool2) = 16" "ids_fit (snd pool2)"
  "pool_buf (snd pool2) = 64" "lsizes (snd pool2) 0 = 16" "pool_wait_q (snd pool2) = 4"
  by (simp_all add: pool2_def K_MEM_POOL_DEFINE_def mpool_lvls [OF pool2_sizes(1)] ids_fit_def nblocks_def
      lsizes.simps ALIGN4_def)

lemma pool2_start: "pool_reach pool2 (pool_start pool2) {}" "\<not> level_empty (snd (pool_start pool2)) 0"
proof -
  have "pool_ok (snd pool2) (pool_start pool2) ((\<lambda>_. [])(0 := [0..<2])) {}"
    using pool_start_ok [of "fst pool2" "snd pool2"] pool2_fresh by (simp add: pool2_sel)
  then show "\<not> level_empty (snd (pool_start pool2)) 0"
    by (simp add: level_empty_iff [of "snd pool2"] pool2_sel)
qed (simp add: pool_reach_def)

lemma pool2_taken: "\<exists>x. pool_reach pool2 x {(0, 0)}"
proof -
  have "[0..<2] = 0 # [1 :: nat]"
    by (simp add: upt_rec)
  then have ok: "pool_ok (snd pool2) (pool_start pool2) ((\<lambda>_. [])(0 := [0, 1])) {}"
    using pool_start_ok [of "fst pool2" "snd pool2"] pool2_fresh by (simp add: pool2_sel)
  have "0 < n_levels (snd pool2)" "((\<lambda>_. [])(0 := [0, 1])) 0 = [0, 1 :: nat]"
    by (simp_all add: pool2_sel)
  from alloc_block_ok [OF ok this] obtain x where x: "alloc_block 0 (lsizes (snd pool2) 0) (pool_start pool2) = (x, Some (blk (snd pool2) 0 0))"
    by blast
  have "pool_step (snd pool2) (pool_start pool2, {}) (x, {(0, block_num (snd pool2) (blk (snd pool2) 0 0) (lsizes (snd pool2) 0))})"
    using x by (intro pool_step.take) (simp_all add: pool2_sel)
  moreover have "block_num (snd pool2) (blk (snd pool2) 0 0) (lsizes (snd pool2) 0) = 0"
    by (simp add: block_num_def blk_def block_ptr_def)
  ultimately show ?thesis
    unfolding pool_reach_def by (metis r_into_rtranclp)
qed





lemma write_word_sel:
  "max_inline_level (snd (write_word w v x)) = max_inline_level (snd x)"
  "stray (snd (write_word w v x)) \<longleftrightarrow> stray (snd x) \<or> (\<exists>l i. w = Inline l (Suc i))"
  by (cases x; cases w; auto simp: set_level_def gr0_conv_Suc)+

lemma init_levels_many:
  assumes e: "exact_sizes p" and n: "32 \<le> n_max p"
  shows "max_inline_level (fst (init_levels p)) = max_inline_level p \<and> geom (fst (init_levels p)) = geom p"
proof -
  have "max_inline_level (fst y) = max_inline_level p \<and> geom (fst y) = geom p \<and> (i < n_levels p \<longrightarrow> snd (snd y) = lsizes p i)"
    if "i \<le> n_levels p" "y = fold (init_level (buf_size p)) [0..<i] (p, pool_buf p + buf_size p, max_sz p)" for i y
    using that
  proof (induction i arbitrary: y)
    case 0
    then show ?case
      using lsizes_exact [OF e, of 0] e by (simp add: exact_sizes_def)
  next
    case (Suc i)
    define z where "z = fold (init_level (buf_size p)) [0..<i] (p, pool_buf p + buf_size p, max_sz p)"
    have z: "max_inline_level (fst z) = max_inline_level p" "geom (fst z) = geom p" "snd (snd z) = lsizes p i"
      using Suc.IH [OF _ z_def] Suc.prems(1) by simp_all
    have "buf_size p div lsizes p i = nblocks p i"
      using lsizes_total [OF e, of i] lsizes_pos [OF e, of i] Suc.prems(1)
      by (metis Suc_le_lessD nonzero_mult_div_cancel_left neq0_conv)
    moreover have "nblocks p 0 = n_max p"
      by (simp add: nblocks_def)
    then have "32 \<le> nblocks p i"
      using n nblocks_mono [of 0 i p] by linarith
    moreover have "y = init_level (buf_size p) i z"
      using Suc.prems(2) by (simp add: z_def)
    ultimately show ?case
      using z by (cases z) (simp add: init_level_def Let_def set_level_def geom_def lsizes.simps)
  qed
  from this [OF le_refl refl] show ?thesis
    by (simp add: init_levels_def buf_size_def Let_def)
qed

text \<open>
  Many large blocks. With more than 32 blocks of the largest size \<open>init_mem_pool\<close> takes
  the bits of level 0 to be stored in the level itself, because \<open>max_inline_level\<close> stays 0, and
  sets bits past the end of the one word there.
\<close>

theorem init_mem_pool_strays:
  assumes "32 < n_max p" and "exact_sizes p"
  shows "stray (snd (pool_start (m, p)))"
proof -
  let ?q = "fst (init_levels p)"
  define g where "g = (\<lambda>i x. let block = block_ptr (snd x) (max_sz (snd x)) i
    in set_free_bit 0 i (set_free_list 0 (\<lambda>xs. xs @ [block]) x))"
  have g: "stray (snd (g i x)) \<longleftrightarrow> stray (snd x) \<or> 32 \<le> i" for i x
    using div_greater_zero_iff [of i 32]
    by (auto simp: g_def Let_def set_free_bit_def get_bit_ptr_def write_word_sel set_free_list_def set_level_def gr0_conv_Suc)
  have "32 < i \<Longrightarrow> stray (snd (fold g [0..<i] x))" for i x
    by (induction i) (auto simp: g less_Suc_eq)
  then have "stray (snd (fold g [0..<n_max p] (m, ?q)))"
    using assms(1) by blast
  moreover have "n_max ?q = n_max p"
    using init_levels_many [OF assms(2)] assms(1) by (simp add: geom_def)
  ultimately show ?thesis
    by (simp add: pool_start_def init_blocks_def g_def)
qed

section \<open>Freeing wakes the waiting threads\<close>

lemma wake_all_effect:
  assumes "kinv {} s" and "\<not> handling_timeouts s"
  shows "kinv {} (wake_all w s) \<and> wait_qs (wake_all w s) = (wait_qs s)(w := []) \<and> current (wake_all w s) = current s \<and>
    (\<forall>t. if t \<in> set (wait_qs s w) then \<not> is_thread_pending t (wake_all w s) \<and> delta (wake_all w s) (TThread t) = INACTIVE
         else is_thread_pending t (wake_all w s) = is_thread_pending t s \<and>
           (delta s (TThread t) = INACTIVE \<longrightarrow> delta (wake_all w s) (TThread t) = INACTIVE))"
  using assms
proof (induction w s rule: wake_all.induct)
  case (1 w s)
  show ?case
  proof (cases "wait_qs s w")
    case Nil
    then show ?thesis
      using "1.prems"(1) by (auto simp: wake_all.simps [of w s])
  next
    case (Cons t ts)
    have f: "find_first_thread_to_unpend w None s = Some t"
      using "1.prems"(2) Cons by simp
    have tw: "t \<in> set (wait_qs s w)"
      by (simp add: Cons)
    note sv = served_wake [OF "1.prems"(1) f, unfolded served_def] note sel = wake_sel [OF "1.prems"(1) tw]
    have t: "t \<notin> set ts"
      using kinvD(2) [OF "1.prems"(1)] Cons unfolding wq_inv_def by (metis distinct.simps(2))
    have e: "wake_all w s = wake_all w (wake t s)"
      using Cons by (simp add: wake_all.simps [of w s] wake_def)
    have "\<not> handling_timeouts (wake t s)"
      using "1.prems"(2) sel(6) by simp
    note ih = "1.IH" [OF Cons, folded wake_def, OF conjunct1 [OF sv] this]
    show ?thesis
      unfolding e using ih sv sel(2) t Cons wake_delta [OF "1.prems"(1) f] by auto
  qed
qed

text \<open>
  Freeing. \<open>k_mem_pool_free\<close> returns the block named by the descriptor to its pool, as a
  sequence of locked sections, and leaves the other pools alone; every thread that waited
  for the pool is woken with its timeout cancelled, and the kernel invariant holds afterwards.
\<close>

theorem k_mem_pool_free_releases:
  assumes "fresh_pool x0" and "pool_reach x0 (m, pools (id_pool d)) A" and "block_of d \<in> A"
    and "kinv {} s" and "\<not> handling_timeouts s"
    and "k_mem_pool_free d (s, m, pools) = (s', m', pools')"
  shows "pool_reach x0 (m', pools' (id_pool d)) (A - {block_of d}) \<and> (\<forall>i. i \<noteq> id_pool d \<longrightarrow> pools' i = pools i) \<and>
    kinv {} s' \<and> wait_qs s' = (wait_qs s)(pool_wait_q (snd x0) := []) \<and>
    (\<forall>t\<in>set (wait_qs s (pool_wait_q (snd x0))). \<not> is_thread_pending t s' \<and> delta s' (TThread t) = INACTIVE)"
proof -
  let ?p = "pools (id_pool d)" and ?w = "pool_wait_q (snd x0)"
  obtain F where ok: "pool_ok (snd x0) (m, ?p) F A"
    using pool_reach_ok [OF assms(1,2)] by blast
  have g: "geom ?p = geom (snd x0)"
    using pool_okD(2) [OF ok] by simp
  then have w: "pool_wait_q ?p = ?w" and l: "lsizes ?p = lsizes (snd x0)"
    using geom_eq(1) [OF g] by (simp_all add: geom_def)
  let ?x = "free_block (id_level d) (lsizes (snd x0)) (id_block d) (m, ?p)"
  have "pool_ok (snd x0) (m, ?p) F (insert (id_level d, id_block d) (A - {block_of d}))"
    using ok assms(3) by (simp add: block_of_def insert_absorb)
  then have "pool_reach x0 ?x (A - {block_of d})"
    using pool_reach_steps [OF assms(2)] free_block_ok(2) [of "snd x0" "(m, ?p)" F "id_level d" "id_block d" "A - {block_of d}"]
      assms(3) by (simp add: block_of_def insert_absorb)
  moreover have "(m', pools' (id_pool d)) = ?x" "\<forall>i. i \<noteq> id_pool d \<longrightarrow> pools' i = pools i"
    "s' = (if wait_qs s ?w \<noteq> [] \<and> \<not> is_in_isr (wake_all ?w s) then reschedule_threads (wake_all ?w s) else wake_all ?w s)"
    using assms(6) by (auto simp: k_mem_pool_free_def get_pool_def Let_def w l split: prod.splits)
  ultimately show ?thesis
    using wake_all_effect [OF assms(4,5), of ?w] by auto
qed

theorem k_mem_pool_free_releases_witness:
  "\<exists>x. wait_qs (boot_waiting 4) 4 = [1] \<and>
     wait_qs (fst (k_mem_pool_free \<lparr>data = 64, id_pool = 0, id_level = 0, id_block = 0\<rparr> (boot_waiting 4, fst x, \<lambda>_. snd x))) 4 = []"
proof -
  obtain x where x: "pool_reach pool2 x {(0, 0)}"
    using pool2_taken by blast
  let ?d = "\<lparr>data = 64, id_pool = 0, id_level = 0, id_block = 0\<rparr>"
  obtain s' m' pools' where e: "k_mem_pool_free ?d (boot_waiting 4, fst x, \<lambda>_. snd x) = (s', m', pools')"
    by (cases "k_mem_pool_free ?d (boot_waiting 4, fst x, \<lambda>_. snd x)") auto
  have "wait_qs s' 4 = []"
    using k_mem_pool_free_releases [OF pool2_fresh _ _ _ _ e, of "{(0, 0)}"] x
    by (simp add: pool2_sel block_of_def)
  then show ?thesis
    using e boot_waiting(2) [of 4] by (metis fst_conv)
qed

text \<open>
  Waiting again. A thread that was woken and finds no block, with \<open>r\<close> ticks left of its
  waiting time, calls \<open>_pend_current_thread\<close> with \<open>r\<close> in place of a number of milliseconds; when no
  tick is left it returns \<open>-ENOMEM\<close> although it has waited.
\<close>

theorem k_mem_pool_alloc_resume_ticks:
  assumes "pool_alloc i block sz (m, pools i) = ((m', p'), block', - ENOMEM)"
    and "timeout \<noteq> K_FOREVER" and "0 \<le> r" and "r < 2 ^ 31"
  shows "k_mem_pool_alloc_resume call i block sz timeout (sint (tick_get s) + r) (s, m, pools) =
    (r, if r = 0 then ((s, m', pools(i := p')), block', Returned (- ENOMEM))
        else ((Swap (pend_current_thread call (pool_wait_q p') r s), m', pools(i := p')), block', Switched_out))"
proof -
  have "signed_take_bit 31 r = r"
    using assms(3,4) by (simp add: signed_take_bit_int_eq_self_iff)
  then have "sint (word_of_int r :: u32) = r"
    by (simp add: signed_of_int)
  then show ?thesis
    using assms by (simp add: k_mem_pool_alloc_resume_def k_mem_pool_alloc_try_def get_pool_def Let_def)
qed

end
