(* ===== verification/Checksum.thy ===== *)
theory Checksum
  imports Ring
begin

unbundle bit_operations_syntax

text \<open>
  Checksums and hexadecimal strings: lib/utils/source/crc/crc.c and
  lib/utils/source/transcode/hex_str.c. The checksum functions only read their input, which is
  given as the list of its bytes; the conversions read and write the byte memory of theory
  Ring. A \<open>char\<close> is a byte, compared as a signed number.
\<close>

section \<open>Cyclic redundancy checks\<close>

definition crc16_bit :: "u16 \<Rightarrow> u8 option \<Rightarrow> nat \<Rightarrow> u16 \<Rightarrow> u16" where
  "crc16_bit polynomial byte b crc =
     (let divide = crc AND 0x8000;
          crc = push_bit 1 crc;
          crc = (case byte of Some v \<Rightarrow> crc OR (if v AND drop_bit b 0x80 \<noteq> 0 then 1 else 0) | None \<Rightarrow> crc)
      in if divide \<noteq> 0 then crc XOR polynomial else crc)"

definition utils_crc16 :: "u8 list \<Rightarrow> u16 \<Rightarrow> u16 \<Rightarrow> bool \<Rightarrow> u16" where
  "utils_crc16 src polynomial initial_value pad =
     (let padding = (if pad then 2 else 0)
      in fold (\<lambda>i crc. fold (crc16_bit polynomial (if i < length src then Some (src ! i) else None)) [0..<8] crc)
           [0..<length src + padding] initial_value)"

definition s_crc32 :: "u32 list" where
  "s_crc32 = [0, 0x1db71064, 0x3b6e20c8, 0x26d930ac, 0x76dc4190, 0x6b6b51f4, 0x4db26158,
     0x5005713c, 0xedb88320, 0xf00f9344, 0xd6d6a3e8, 0xcb61b38c, 0x9b64c2b0, 0x86d3d2d4, 0xa00ae278, 0xbdbdf21c]"

definition crc32_step :: "u8 \<Rightarrow> u32 \<Rightarrow> u32" where
  "crc32_step b crcu32 =
     (let crcu32 = drop_bit 4 crcu32 XOR s_crc32 ! unat ((crcu32 AND 0xF) XOR ucast (b AND 0xF))
      in drop_bit 4 crcu32 XOR s_crc32 ! unat ((crcu32 AND 0xF) XOR ucast (drop_bit 4 b)))"

definition utils_crc32 :: "u32 \<Rightarrow> u8 list \<Rightarrow> u32" where
  "utils_crc32 crc bs = NOT (fold crc32_step bs (NOT crc))"

section \<open>Hexadecimal strings\<close>

definition hex_char :: "u8 \<Rightarrow> u8" where
  "hex_char v = (let d = 48 + v in if sint d > 57 then d + 7 else d)"

definition hex_to_str :: "nat \<Rightarrow> nat \<Rightarrow> nat \<Rightarrow> mem \<Rightarrow> mem" where
  "hex_to_str pszDest pbSrc nLen m =
     (fold (\<lambda>i m.
        let ddh = hex_char (m (pbSrc + i) div 16);
            ddl = hex_char (m (pbSrc + i) mod 16);
            m = m(pszDest + i * 2 := ddh)
        in m(pszDest + (i * 2 + 1) := ddl)) [0..<nLen] m)(pszDest + nLen * 2 := 0)"

definition toupper :: "u8 \<Rightarrow> u8" where
  "toupper c = (if 0x61 \<le> c \<and> c \<le> 0x7a then c - 0x20 else c)"

definition hex_digit :: "u8 \<Rightarrow> u8" where
  "hex_digit h = (let s = toupper h - 0x30 in if sint s > 9 then s - 7 else s)"

definition str_to_hex :: "nat \<Rightarrow> nat \<Rightarrow> nat \<Rightarrow> mem \<Rightarrow> mem" where
  "str_to_hex pbDest pszSrc nLen m =
     fold (\<lambda>i m.
        let s1 = hex_digit (m (pszSrc + 2 * i));
            s2 = hex_digit (m (pszSrc + (2 * i + 1)))
        in m(pbDest + i := push_bit 4 s1 OR s2)) [0..<nLen] m"

section \<open>CRC-32 against the definition by bits\<close>

text \<open>
  The reference: one bit of the reflected division by the polynomial \<open>0xEDB88320\<close>, eight of them
  for each byte.
\<close>

definition crc32_bit :: "u32 \<Rightarrow> u32" where
  "crc32_bit c = drop_bit 1 c XOR (if bit c 0 then 0xEDB88320 else 0)"

definition crc32_byte :: "u8 \<Rightarrow> u32 \<Rightarrow> u32" where
  "crc32_byte b c = (crc32_bit ^^ 8) (c XOR ucast b)"

lemma crc32_bit_xor: "crc32_bit (x XOR y) = crc32_bit x XOR crc32_bit y"
proof -
  have "drop_bit 1 (x XOR y) = drop_bit 1 x XOR drop_bit 1 y"
    by (rule bit_word_eqI) (simp add: bit_simps)
  then show ?thesis
    by (simp add: crc32_bit_def bit_xor_iff ac_simps)
qed

lemma crc32_bits_xor: "(crc32_bit ^^ n) (x XOR y) = (crc32_bit ^^ n) x XOR (crc32_bit ^^ n) y"
  by (induction n) (simp_all add: crc32_bit_xor)

lemma crc32_bits_high: "(\<And>i. i < n \<Longrightarrow> \<not> bit x i) \<Longrightarrow> (crc32_bit ^^ n) x = drop_bit n x"
proof (induction n arbitrary: x)
  case (Suc n)
  have "crc32_bit x = drop_bit 1 x"
    using Suc.prems [of 0] by (simp add: crc32_bit_def)
  moreover have "(crc32_bit ^^ n) (drop_bit 1 x) = drop_bit n (drop_bit 1 x)"
    using Suc.prems by (intro Suc.IH) (simp add: bit_drop_bit_eq)
  ultimately show ?case
    by (simp only: funpow_Suc_right o_apply drop_bit_drop_bit) simp
qed simp

lemma crc32_nibble: "v < 16 \<Longrightarrow> (crc32_bit ^^ 4) (of_nat v) = s_crc32 ! v"
proof -
  have "\<forall>v\<in>set [0..<16]. (crc32_bit ^^ 4) (of_nat v) = s_crc32 ! v"
    by code_simp
  then show "v < 16 \<Longrightarrow> ?thesis"
    by simp
qed

lemma crc32_bits_4: "(crc32_bit ^^ 4) x = drop_bit 4 x XOR s_crc32 ! unat (x AND 15)"
proof -
  have m: "(15 :: u32) = mask 4"
    by (simp add: mask_eq_exp_minus_1)
  have x: "x = (x AND NOT 15) XOR (x AND 15)"
    by (rule bit_word_eqI) (auto simp: bit_simps)
  have "(crc32_bit ^^ 4) (x AND NOT 15) = drop_bit 4 (x AND NOT 15)"
    by (rule crc32_bits_high) (auto simp: m bit_simps)
  also have "\<dots> = drop_bit 4 x"
    by (rule bit_word_eqI) (auto simp: m bit_simps dest: bit_imp_le_length)
  finally have hi: "(crc32_bit ^^ 4) (x AND NOT 15) = drop_bit 4 x" .
  have "unat (x AND 15) < 16"
    using word_and_le1 [of x 15] by (simp add: word_le_nat_alt)
  then have "(crc32_bit ^^ 4) (x AND 15) = s_crc32 ! unat (x AND 15)"
    using crc32_nibble [of "unat (x AND 15)"] by simp
  then show ?thesis
    using hi crc32_bits_xor [of 4 "x AND NOT 15" "x AND 15"] x by simp
qed

lemma crc32_step_eq: "crc32_step b c = crc32_byte b c"
proof -
  let ?c1 = "drop_bit 4 c XOR s_crc32 ! unat ((c AND 15) XOR ucast (b AND 15))"
  have m: "(15 :: u32) = mask 4" "(15 :: u8) = mask 4"
    by (simp_all add: mask_eq_exp_minus_1)
  have n: "(ucast b :: u32) AND 15 = ucast (b AND 15)" "drop_bit 4 (ucast b :: u32) = ucast (drop_bit 4 b)"
    "(ucast (drop_bit 4 b) :: u32) AND 15 = ucast (drop_bit 4 b)" "drop_bit 4 (ucast (drop_bit 4 b) :: u32) = 0"
    unfolding m by (rule bit_word_eqI; auto simp: bit_simps dest: bit_imp_le_length)+
  have "(crc32_bit ^^ 4) (c XOR ucast b) = ?c1 XOR ucast (drop_bit 4 b)"
    unfolding crc32_bits_4 by (simp add: n bit.conj_xor_distrib2 ac_simps)
  moreover have "(crc32_bit ^^ 8) (c XOR ucast b) = (crc32_bit ^^ 4) ((crc32_bit ^^ 4) (c XOR ucast b))"
    using funpow_add [of 4 4 crc32_bit] by (simp add: fun_eq_iff)
  ultimately show ?thesis
    unfolding crc32_byte_def crc32_step_def Let_def crc32_bits_4 by (simp add: n bit.conj_xor_distrib2)
qed

text \<open>
  C32: CRC-32. The computation with the table of 16 entries gives the checksum defined by
  dividing bit by bit by the polynomial, and a checksum can be computed piece by piece.
\<close>

theorem utils_crc32_reference:
  "utils_crc32 crc bs = NOT (fold crc32_byte bs (NOT crc)) \<and>
   utils_crc32 (utils_crc32 crc bs) cs = utils_crc32 crc (bs @ cs)"
proof -
  have "crc32_step = crc32_byte"
    by (simp add: fun_eq_iff crc32_step_eq)
  then show ?thesis
    by (simp add: utils_crc32_def)
qed

section \<open>CRC-16 detects errors\<close>

text \<open>One step without input, which is linear; the input bit is added to its result.\<close>

definition crc16_shift :: "u16 \<Rightarrow> u16 \<Rightarrow> u16" where
  "crc16_shift p c = push_bit 1 c XOR (if bit c 15 then p else 0)"

lemma and_8000: "(c :: u16) AND 0x8000 \<noteq> 0 \<longleftrightarrow> bit c 15"
proof -
  have "(0x8000 :: u16) = push_bit 15 1"
    by simp
  then show ?thesis
    by (metis and.commute bit_iff_and_push_bit_not_eq_0)
qed

lemma crc16_bit_eq:
  "crc16_bit p byte b c =
     crc16_shift p c XOR of_bool (case byte of Some v \<Rightarrow> v AND drop_bit b 0x80 \<noteq> 0 | None \<Rightarrow> False)"
proof -
  have "push_bit 1 c OR 1 = push_bit 1 c XOR (1 :: u16)"
    by (rule bit_word_eqI) (auto simp only: bit_or_iff bit_xor_iff bit_push_bit_iff bit_1_iff)
  then show ?thesis
    by (simp add: crc16_bit_def Let_def and_8000 crc16_shift_def ac_simps split: option.split)
qed

lemma crc16_shift_xor: "crc16_shift p (x XOR y) = crc16_shift p x XOR crc16_shift p y"
proof -
  have "push_bit 1 (x XOR y) = push_bit 1 x XOR push_bit 1 y"
    by (rule bit_word_eqI) (auto simp: bit_simps)
  then show ?thesis
    by (simp add: crc16_shift_def bit_xor_iff ac_simps)
qed

lemma crc16_shift_inj: "bit p 0 \<Longrightarrow> crc16_shift p x = 0 \<Longrightarrow> x = 0"
proof (cases "bit x 15")
  case True
  assume "bit p 0" "crc16_shift p x = 0"
  moreover from this have "bit (push_bit 1 x XOR p) 0"
    unfolding bit_xor_iff bit_push_bit_iff by simp
  ultimately show ?thesis
    using True by (simp add: crc16_shift_def)
next
  case False
  assume "crc16_shift p x = 0"
  then have "push_bit 1 x = 0"
    using False by (simp add: crc16_shift_def)
  then have "\<not> bit (push_bit 1 x) (Suc n)" for n
    by simp
  then have "\<not> bit x n" if "n < 15" for n
    using that unfolding bit_push_bit_iff by simp
  moreover have "n < 15 \<or> n = 15" if "n < 16" for n :: nat
    using that by linarith
  ultimately show ?thesis
    using False by (intro bit_word_eqI) auto
qed

definition crc16_bits :: "u16 \<Rightarrow> bool list \<Rightarrow> u16 \<Rightarrow> u16" where
  "crc16_bits p = fold (\<lambda>x c. crc16_shift p c XOR of_bool x)"

definition byte_bits :: "u8 \<Rightarrow> bool list" where
  "byte_bits v = map (\<lambda>b. bit v (7 - b)) [0..<8]"

lemma byte_bit: "b < 8 \<Longrightarrow> (v :: u8) AND drop_bit b 0x80 \<noteq> 0 \<longleftrightarrow> bit v (7 - b)"
proof -
  assume "b < 8"
  moreover have "\<forall>b\<in>set [0..<8]. drop_bit b (0x80 :: u8) = push_bit (7 - b) 1"
    by code_simp
  ultimately have "drop_bit b (0x80 :: u8) = push_bit (7 - b) 1"
    by simp
  then show ?thesis
    by (metis and.commute bit_iff_and_push_bit_not_eq_0)
qed

lemma fold_crc16_Some: "fold (crc16_bit p (Some v)) [0..<8] c = crc16_bits p (byte_bits v) c"
  unfolding crc16_bits_def byte_bits_def fold_map o_def
  by (rule fold_cong) (auto simp: crc16_bit_eq byte_bit)

lemma fold_crc16_None: "fold (crc16_bit p None) xs c = crc16_bits p (replicate (length xs) False) c"
  by (induction xs arbitrary: c) (simp_all add: crc16_bits_def crc16_bit_eq)

lemma fold_nth: "fold (\<lambda>i. f (xs ! i)) [0..<length xs] c = fold f xs c"
proof -
  have "fold (\<lambda>i. f (xs ! i)) [0..<length xs] c = fold f (map ((!) xs) [0..<length xs]) c"
    by (simp add: fold_map o_def)
  then show ?thesis
    by (simp only: map_nth)
qed

lemma crc16_bits_simps:
  "crc16_bits p [] c = c"
  "crc16_bits p (b # bs) c = crc16_bits p bs (crc16_shift p c XOR of_bool b)"
  by (simp_all add: crc16_bits_def)

lemma crc16_bits_append: "crc16_bits p (xs @ ys) c = crc16_bits p ys (crc16_bits p xs c)"
  by (simp add: crc16_bits_def)

lemma fold_crc16_bytes: "fold (\<lambda>v. crc16_bits p (byte_bits v)) vs c = crc16_bits p (concat (map byte_bits vs)) c"
  by (induction vs arbitrary: c) (simp_all add: crc16_bits_append crc16_bits_simps(1))

lemma utils_crc16_bits:
  "utils_crc16 src p c pad =
     crc16_bits p (concat (map byte_bits src) @ replicate (if pad then 16 else 0) False) c"
proof -
  let ?f = "\<lambda>i. fold (crc16_bit p (if i < length src then Some (src ! i) else None)) [0..<8]"
  have "fold ?f [0..<length src] c = fold (\<lambda>i. crc16_bits p (byte_bits (src ! i))) [0..<length src] c"
    by (rule fold_cong) (auto simp: fold_crc16_Some)
  then have a: "fold ?f [0..<length src] c = crc16_bits p (concat (map byte_bits src)) c"
    using fold_nth [of "\<lambda>v. crc16_bits p (byte_bits v)" src c] fold_crc16_bytes by simp
  have b: "fold ?f [length src..<length src + 2] c = crc16_bits p (replicate 16 False) c" for c
    using crc16_bits_append [of p "replicate 8 False" "replicate 8 False" c]
    by (simp add: fold_crc16_None replicate_add [symmetric])
  have u: "[0..<length src + 2] = [0..<length src] @ [length src..<length src + 2]"
    using upt_add_eq_append [of 0 "length src" 2] by simp
  show ?thesis
    unfolding utils_crc16_def Let_def using a
    by (cases pad) (simp_all only: if_True if_False u fold_append o_apply a b crc16_bits_append add_0_right replicate_0 append_Nil2)
qed

lemma crc16_bits_xor: "crc16_bits p bs (c XOR d) = crc16_bits p bs c XOR (crc16_shift p ^^ length bs) d"
proof (induction bs arbitrary: c d)
  case (Cons b bs)
  have "crc16_bits p (b # bs) (c XOR d) = crc16_bits p bs ((crc16_shift p c XOR of_bool b) XOR crc16_shift p d)"
    unfolding crc16_bits_simps crc16_shift_xor by (simp only: ac_simps)
  also have "\<dots> = crc16_bits p (b # bs) c XOR (crc16_shift p ^^ length (b # bs)) d"
    unfolding Cons.IH crc16_bits_simps by (simp add: funpow_swap1)
  finally show ?case .
qed (simp add: crc16_bits_simps)

lemma crc16_shifts_0: "bit p 0 \<Longrightarrow> (crc16_shift p ^^ n) d = 0 \<Longrightarrow> d = 0"
  by (induction n) (auto dest: crc16_shift_inj)

lemma xor_cancel: "a XOR x = a XOR y \<longleftrightarrow> x = (y :: 'a :: len word)"
proof
  assume eq: "a XOR x = a XOR y"
  have "bit (a XOR x) i = bit (a XOR y) i" for i
    by (simp only: eq)
  then have "bit x i = bit y i" for i
    unfolding bit_xor_iff by blast
  then show "x = y"
    by (intro bit_word_eqI)
qed simp

lemma crc16_shifts_inj:
  assumes "bit p 0" and "(crc16_shift p ^^ n) x = (crc16_shift p ^^ n) y"
  shows "x = y"
proof -
  have "(crc16_shift p ^^ n) (x XOR y) = (crc16_shift p ^^ n) x XOR (crc16_shift p ^^ n) y"
    by (induction n) (simp_all add: crc16_shift_xor)
  then have "(crc16_shift p ^^ n) (x XOR y) = 0"
    using assms(2) by simp
  then have "x XOR y = 0"
    using crc16_shifts_0 [OF assms(1)] by blast
  then have "x XOR y = x XOR x"
    by simp
  then show ?thesis
    unfolding xor_cancel by simp
qed

lemma crc16_bits_zeros: "crc16_bits p (replicate n False) c = (crc16_shift p ^^ n) c"
  by (induction n arbitrary: c) (simp_all add: crc16_bits_simps funpow_swap1)

text \<open>Shifting in 16 bits adds them to what 16 zero bits give.\<close>

lemma crc16_bits_word:
  "k \<le> 16 \<Longrightarrow> crc16_bits p (map (\<lambda>j. bit v (15 - j)) [0..<k]) c = (crc16_shift p ^^ k) c XOR drop_bit (16 - k) (v :: u16)"
proof (induction k)
  case 0
  have "drop_bit 16 v = 0"
    by (rule bit_word_eqI) (auto simp: bit_simps dest: bit_imp_le_length)
  then show ?case
    by (simp add: crc16_bits_simps)
next
  case (Suc k)
  let ?w = "drop_bit (16 - k) v"
  have "\<not> bit ?w 15"
    using Suc.prems by (auto simp: bit_drop_bit_eq dest: bit_imp_le_length)
  then have "crc16_shift p ?w = push_bit 1 ?w"
    by (simp add: crc16_shift_def)
  moreover have "push_bit 1 ?w XOR of_bool (bit v (15 - k)) = drop_bit (16 - Suc k) v"
  proof (rule bit_word_eqI)
    have e: "16 + j - k = Suc (15 + j - k)" for j
      using Suc.prems by simp
    fix n assume "n < LENGTH(16)"
    then show "bit (push_bit 1 ?w XOR of_bool (bit v (15 - k))) n = bit (drop_bit (16 - Suc k) v) n"
      using Suc.prems by (cases n) (auto simp: bit_xor_iff bit_push_bit_iff bit_drop_bit_eq e simp del: push_bit_Suc)
  qed
  ultimately have w: "crc16_shift p ?w XOR of_bool (bit v (15 - k)) = drop_bit (16 - Suc k) v"
    by simp
  have "crc16_bits p (map (\<lambda>j. bit v (15 - j)) [0..<Suc k]) c =
      crc16_shift p ((crc16_shift p ^^ k) c XOR ?w) XOR of_bool (bit v (15 - k))"
    using Suc by (simp add: crc16_bits_append crc16_bits_simps)
  also have "\<dots> = (crc16_shift p ^^ Suc k) c XOR (crc16_shift p ?w XOR of_bool (bit v (15 - k)))"
    unfolding crc16_shift_xor by (simp add: xor.assoc)
  finally show ?case
    unfolding w .
qed

lemma word_byte_bits:
  "byte_bits (ucast (drop_bit 8 (v :: u16))) @ byte_bits (ucast v) = map (\<lambda>j. bit v (15 - j)) [0..<16]"
  by (simp add: byte_bits_def upt_rec bit_simps)

lemma crc16_two_bytes:
  "crc16_bits p (byte_bits (ucast (drop_bit 8 v)) @ byte_bits (ucast v)) c = (crc16_shift p ^^ 16) c XOR (v :: u16)"
  unfolding word_byte_bits using crc16_bits_word [of 16 p v c] by simp

text \<open>
  C35: CRC-16. A message followed by its padded checksum has the checksum 0 without padding, for
  every polynomial and initial value. And if the polynomial has its lowest bit set, two
  messages that differ only in two neighbouring bytes have different checksums.
\<close>

theorem utils_crc16_detects:
  assumes "bit p 0"
  shows "utils_crc16 (src @ [ucast (drop_bit 8 (utils_crc16 src q c True)), ucast (utils_crc16 src q c True)]) q c False = 0 \<and>
    (utils_crc16 (xs @ [a1, a2] @ ys) p c pad = utils_crc16 (xs @ [b1, b2] @ ys) p c pad \<longleftrightarrow> a1 = b1 \<and> a2 = b2)"
proof
  show "utils_crc16 (src @ [ucast (drop_bit 8 (utils_crc16 src q c True)), ucast (utils_crc16 src q c True)]) q c False = 0"
    using crc16_two_bytes [of q "utils_crc16 src q c True"]
    by (simp add: utils_crc16_bits crc16_bits_append crc16_bits_zeros)
  let ?v = "\<lambda>a b. push_bit 8 (ucast a) OR ucast b :: u16"
  have v: "ucast (drop_bit 8 (?v a b)) = a" "ucast (?v a b) = b" for a b :: u8
    by (rule bit_word_eqI; auto simp: bit_simps dest: bit_imp_le_length)+
  let ?t = "concat (map byte_bits ys) @ replicate (if pad then 16 else 0) False"
  let ?c = "crc16_bits p (concat (map byte_bits xs)) c"
  have s: "utils_crc16 (xs @ [a, b] @ ys) p c pad =
      crc16_bits p ?t ((crc16_shift p ^^ 16) ?c) XOR (crc16_shift p ^^ length ?t) (?v a b)" for a b
  proof -
    have t: "crc16_bits p (byte_bits a @ byte_bits b) ?c = (crc16_shift p ^^ 16) ?c XOR ?v a b"
      using crc16_two_bytes [of p "?v a b" ?c] unfolding v .
    have "utils_crc16 (xs @ [a, b] @ ys) p c pad = crc16_bits p ?t (crc16_bits p (byte_bits a @ byte_bits b) ?c)"
      by (simp only: utils_crc16_bits crc16_bits_append map_append concat_append list.map concat.simps append_Nil2)
    then show ?thesis
      unfolding t crc16_bits_xor .
  qed
  show "utils_crc16 (xs @ [a1, a2] @ ys) p c pad = utils_crc16 (xs @ [b1, b2] @ ys) p c pad \<longleftrightarrow> a1 = b1 \<and> a2 = b2"
    unfolding s xor_cancel using crc16_shifts_inj [OF assms] v by metis
qed

theorem utils_crc16_detects_witness:
  "bit (0x1021 :: u16) 0 \<and> utils_crc16 ([] @ [1, 2] @ []) 0x1021 0 True \<noteq> utils_crc16 ([] @ [1, 3] @ []) 0x1021 0 True"
  using utils_crc16_detects [where p = "0x1021" and xs = "[]" and ys = "[]" and ?a1.0 = 1 and ?a2.0 = 2 and ?b1.0 = 1 and ?b2.0 = 3
      and c = 0 and pad = True and src = "[]"] by simp

section \<open>Hexadecimal strings: round trip\<close>

lemma hex_digit_char: "v < 16 \<Longrightarrow> hex_digit (hex_char v) = v"
proof -
  have "\<forall>n\<in>set [0..<16]. hex_digit (hex_char (of_nat n)) = of_nat n"
    by code_simp
  moreover assume "v < 16"
  then have "unat v \<in> set [0..<16]"
    by (simp add: word_less_nat_alt)
  ultimately have "hex_digit (hex_char (of_nat (unat v))) = of_nat (unat v)"
    by blast
  then show ?thesis
    by simp
qed

lemma byte_nibbles: "(push_bit 4 (b div 16) OR b mod 16) = (b :: u8)" "b div 16 < 16" "b mod 16 < 16"
proof -
  have d: "b div 16 = drop_bit 4 b" "b mod 16 = take_bit 4 b"
    by (simp_all add: drop_bit_eq_div take_bit_eq_mod)
  show "push_bit 4 (b div 16) OR b mod 16 = b"
    unfolding d by (rule bit_word_eqI) (auto simp: bit_simps)
  have "unat b < 16 * 16"
    using unsigned_less [of b, where 'a = nat] by simp
  then show "b div 16 < 16" "b mod 16 < 16"
    by (simp_all add: word_less_nat_alt unat_div unat_mod less_mult_imp_div_less)
qed

lemma hex_to_str_loop:
  assumes "\<And>i. i < n \<Longrightarrow> src + i < dst \<or> dst + 2 * n \<le> src + i"
    and "f = (\<lambda>i m.
        let ddh = hex_char (m (src + i) div 16);
            ddl = hex_char (m (src + i) mod 16);
            m = m(dst + i * 2 := ddh)
        in m(dst + (i * 2 + 1) := ddl))"
  shows "k \<le> n \<Longrightarrow> fold f [0..<k] m x =
    (if dst \<le> x \<and> x < dst + 2 * k then
       hex_char (if even (x - dst) then m (src + (x - dst) div 2) div 16 else m (src + (x - dst) div 2) mod 16)
     else m x)"
proof (induction k arbitrary: x)
  case (Suc k)
  let ?m = "fold f [0..<k] m"
  have ih: "?m y = (if dst \<le> y \<and> y < dst + 2 * k then
       hex_char (if even (y - dst) then m (src + (y - dst) div 2) div 16 else m (src + (y - dst) div 2) mod 16)
     else m y)" for y
    using Suc by simp
  have "?m (src + k) = m (src + k)"
    using assms(1) [of k] Suc.prems unfolding ih by auto
  then have m: "fold f [0..<Suc k] m x = (if x = dst + (k * 2 + 1) then hex_char (m (src + k) mod 16)
      else if x = dst + k * 2 then hex_char (m (src + k) div 16) else ?m x)"
    by (simp add: assms(2) Let_def)
  consider "x = dst + (k * 2 + 1)" | "x = dst + k * 2" | "x \<noteq> dst + (k * 2 + 1)" "x \<noteq> dst + k * 2"
    by blast
  then show ?case
  proof cases
    case 1
    then show ?thesis
      unfolding m by simp
  next
    case 2
    then show ?thesis
      unfolding m by simp
  next
    case 3
    then have "x < dst + 2 * Suc k \<longleftrightarrow> x < dst + 2 * k"
      by auto
    then show ?thesis
      unfolding m using 3 ih [of x] by simp
  qed
qed auto

lemma str_to_hex_loop:
  assumes "\<And>i. i < 2 * n \<Longrightarrow> src + i < dst \<or> dst + n \<le> src + i"
    and "f = (\<lambda>i m.
        let s1 = hex_digit (m (src + 2 * i));
            s2 = hex_digit (m (src + (2 * i + 1)))
        in m(dst + i := push_bit 4 s1 OR s2))"
  shows "k \<le> n \<Longrightarrow> fold f [0..<k] m x =
    (if dst \<le> x \<and> x < dst + k then
       push_bit 4 (hex_digit (m (src + 2 * (x - dst)))) OR hex_digit (m (src + (2 * (x - dst) + 1)))
     else m x)"
proof (induction k arbitrary: x)
  case (Suc k)
  let ?m = "fold f [0..<k] m"
  have ih: "?m y = (if dst \<le> y \<and> y < dst + k then
       push_bit 4 (hex_digit (m (src + 2 * (y - dst)))) OR hex_digit (m (src + (2 * (y - dst) + 1)))
     else m y)" for y
    using Suc by simp
  have "?m (src + 2 * k) = m (src + 2 * k)" "?m (src + (2 * k + 1)) = m (src + (2 * k + 1))"
    using assms(1) [of "2 * k"] assms(1) [of "2 * k + 1"] Suc.prems unfolding ih by auto
  then have m: "fold f [0..<Suc k] m x =
      (if x = dst + k then push_bit 4 (hex_digit (m (src + 2 * k))) OR hex_digit (m (src + (2 * k + 1))) else ?m x)"
    by (simp add: assms(2) Let_def)
  show ?case
    unfolding m using ih [of x] by auto
qed auto

text \<open>
  Hexadecimal strings. Converting bytes to a hexadecimal string and back gives the
  bytes; the string is terminated, and no memory outside the two destinations changes.
\<close>

theorem hex_str_round_trip:
  assumes "disjoint_areas str (2 * n + 1) src n" and "disjoint_areas str (2 * n) dst n"
    and "m1 = hex_to_str str src n m" and "m2 = str_to_hex dst str n m1"
  shows "mem_read dst n m2 = mem_read src n m \<and> m1 (str + 2 * n) = 0 \<and>
    (\<forall>x. x < str \<or> str + 2 * n < x \<longrightarrow> x < dst \<or> dst + n \<le> x \<longrightarrow> m2 x = m x)"
proof -
  have d1: "src + i < str \<or> str + 2 * n \<le> src + i" if "i < n" for i
    using assms(1) that by (auto simp: disjoint_areas_def)
  have d2: "str + i < dst \<or> dst + n \<le> str + i" if "i < 2 * n" for i
    using assms(2) that by (auto simp: disjoint_areas_def)
  note h = hex_to_str_loop [OF d1 refl le_refl, of m]
  have m1: "m1 x = (if x = str + n * 2 then 0 else if str \<le> x \<and> x < str + 2 * n then
       hex_char (if even (x - str) then m (src + (x - str) div 2) div 16 else m (src + (x - str) div 2) mod 16)
     else m x)" for x
    unfolding assms(3) hex_to_str_def
    by (cases "x = str + n * 2") (simp_all only: fun_upd_same fun_upd_other not_False_eq_True h if_True if_False simp_thms)
  have m2: "m2 x = (if dst \<le> x \<and> x < dst + n then
       push_bit 4 (hex_digit (m1 (str + 2 * (x - dst)))) OR hex_digit (m1 (str + (2 * (x - dst) + 1)))
     else m1 x)" for x
    unfolding assms(4) str_to_hex_def by (rule str_to_hex_loop [OF d2 refl le_refl])
  have "m2 (dst + i) = m (src + i)" if "i < n" for i
    using that byte_nibbles [of "m (src + i)"] by (simp add: m2 m1 hex_digit_char)
  then have "mem_read dst n m2 = mem_read src n m"
    by (intro nth_equalityI) simp_all
  then show ?thesis
    by (auto simp: m2 m1)
qed

theorem hex_str_round_trip_witness:
  "mem_read 9 2 (str_to_hex 9 2 2 (hex_to_str 2 0 2 ((\<lambda>_. 0)(0 := 0x1f, 1 := 0xc0)))) = [0x1f, 0xc0]"
  using hex_str_round_trip [of 2 2 0 9 "hex_to_str 2 0 2 ((\<lambda>_. 0)(0 := 0x1f, 1 := 0xc0))"
      "(\<lambda>_. 0)(0 := 0x1f, 1 := 0xc0)" "str_to_hex 9 2 2 (hex_to_str 2 0 2 ((\<lambda>_. 0)(0 := 0x1f, 1 := 0xc0)))"]
  by (simp add: disjoint_areas_def mem_read_def upt_rec)

end
