(* ===== verification/Transcode.thy ===== *)
theory Transcode
  imports Prelude
begin

unbundle bit_operations_syntax

text \<open>
  Character sets: lib/utils/source/transcode/transcode.c, which converts strings between GBK,
  UTF-8 and 16-bit Unicode, and the lookup \<open>ff_convert\<close> of ext/fs/fat/option/cc936.c. The
  code tables are files on the flash; they are parameters (\<open>None\<close> when a file is missing).

  The source string is the list of the bytes (or 16-bit units) in memory from the pointer on,
  and reading past its end makes the result \<open>None\<close>. A function gives what it stored at the
  destination and its return value. CONFIG_FILE_SYSTEM is on.
\<close>

section \<open>The code tables\<close>

type_synonym code_table = "(u16 \<times> u16) list"

record code_tables =
  oem2uni :: "code_table option"
  uni2oem :: "code_table option"

fun ff_search :: "nat \<Rightarrow> code_table \<Rightarrow> u16 \<Rightarrow> nat \<Rightarrow> nat \<Rightarrow> u16" where
  "ff_search 0 p chr li hi = 0"
| "ff_search (Suc n) p chr li hi =
     (let i = li + (hi - li) div 2
      in if chr = fst (p ! i) then snd (p ! i)
         else if chr > fst (p ! i) then ff_search n p chr i hi
         else ff_search n p chr li i)"

definition ff_convert :: "code_tables \<Rightarrow> u16 \<Rightarrow> bool \<Rightarrow> u16" where
  "ff_convert t chr dir =
     (if chr < 0x80 then chr
      else
        case (if dir then oem2uni t else uni2oem t) of
          None \<Rightarrow> - 1
        | Some p \<Rightarrow> ff_search 16 p chr 0 0x5520)"

section \<open>UTF-8 and Unicode\<close>

text \<open>The loop of \<open>utf8_to_unicode\<close>, on the first \<open>utf8_len\<close> bytes of the string.\<close>

fun utf8_to_unicode_loop :: "u8 list \<Rightarrow> u16 list \<times> int" where
  "utf8_to_unicode_loop [] = ([], 0)"
| "utf8_to_unicode_loop (c0 # utf8) =
     (if c0 < 0x80 then map_prod (\<lambda>us. ucast c0 # us) (\<lambda>r. r) (utf8_to_unicode_loop utf8)
      else if c0 AND 0xc0 = 0x80 then ([], - 1)
      else
        case utf8 of
          [] \<Rightarrow> ([], - 1)
        | c1 # utf8 \<Rightarrow>
            if c1 AND 0xc0 \<noteq> 0x80 then ([], - 1)
            else
              let scalar = push_bit 6 (ucast c0) OR ucast (c1 AND 0x3f) :: u32
              in if c0 AND 0x20 = 0 then
                   if scalar \<noteq> 0 \<and> scalar < 0x80 then ([], - 1)
                   else map_prod (\<lambda>us. (ucast scalar AND 0x7ff) # us) (\<lambda>r. r) (utf8_to_unicode_loop utf8)
                 else
                   case utf8 of
                     [] \<Rightarrow> ([], - 1)
                   | c2 # utf8 \<Rightarrow>
                       if c2 AND 0xc0 \<noteq> 0x80 then ([], - 1)
                       else
                         let scalar = push_bit 6 scalar OR ucast (c2 AND 0x3f)
                         in if c0 AND 0x10 = 0 then
                              if scalar < 0x800 then ([], - 1)
                              else if 0xd800 \<le> scalar \<and> scalar < 0xe000 then ([], - 1)
                              else map_prod (\<lambda>us. ucast (scalar AND 0xffff) # us) (\<lambda>r. r) (utf8_to_unicode_loop utf8)
                            else ([], - 1))"

text \<open>
  A null pointer is \<open>None\<close>; \<open>dst_null\<close> says that one of the destination pointers is null. The
  last component is the value stored at \<open>punicode_len\<close>.
\<close>

definition utf8_to_unicode :: "u8 list option \<Rightarrow> bool \<Rightarrow> u16 list \<times> int \<times> nat option" where
  "utf8_to_unicode utf8 dst_null =
     (case utf8 of
        None \<Rightarrow> ([], - 1, None)
      | Some bs \<Rightarrow>
          if dst_null then ([], - 1, None)
          else case utf8_to_unicode_loop bs of (us, r) \<Rightarrow>
            (us, r, if r = 0 then Some (2 * length us) else None))"

definition encode_utf8 :: "u16 \<Rightarrow> u8 list" where
  "encode_utf8 widechar =
     (let r = (if (widechar AND 0xF800) > 0 then 3 else if (widechar AND 0xFF80) > 0 then 2 else 1 :: nat)
      in if r = 1 then [ucast widechar]
         else if r = 2 then [ucast (0xC0 OR drop_bit 6 widechar), ucast (0x80 OR (widechar AND 0x3F))]
         else [ucast (0xE0 OR drop_bit 12 widechar), ucast (0x80 OR (drop_bit 6 widechar AND 0x3F)),
               ucast (0x80 OR (widechar AND 0x3F))])"

text \<open>\<open>out\<close> is what has been stored so far; \<open>utf8Total\<close> is its length.\<close>

fun unicode_to_utf8_loop :: "int \<Rightarrow> u16 list \<Rightarrow> int \<Rightarrow> u8 list \<Rightarrow> (u8 list \<times> int) option" where
  "unicode_to_utf8_loop buffersize us unicode_len out =
     (if unicode_len = 0 then Some (out @ [0], 1)
      else
        case us of
          [] \<Rightarrow> None
        | u # us \<Rightarrow>
            if u = 0 then Some (out @ [0], 1)
            else
              let utf8bytes = encode_utf8 u
              in if int (length out) + int (length utf8bytes) > buffersize then Some (out @ utf8bytes, - 1)
                 else unicode_to_utf8_loop buffersize us (unicode_len - 2) (out @ utf8bytes))"

declare unicode_to_utf8_loop.simps [simp del]

definition unicode_to_utf8 :: "u16 list option \<Rightarrow> int \<Rightarrow> bool \<Rightarrow> int \<Rightarrow> (u8 list \<times> int \<times> int) option" where
  "unicode_to_utf8 unicode unicode_len dst_null buffersize =
     (case unicode of
        None \<Rightarrow> Some ([], - 1, buffersize)
      | Some us \<Rightarrow>
          if dst_null then Some ([], - 1, buffersize)
          else
            map_option (\<lambda>(out, r). (out, r, if r = 1 then int (length out) - 1 else buffersize))
              (unicode_to_utf8_loop buffersize us unicode_len []))"

section \<open>GBK\<close>

text \<open>The next character of a GBK string: the code, and the rest of the string.\<close>

definition gbk_char :: "u8 list \<Rightarrow> (u16 \<times> u8 list) option" where
  "gbk_char s =
     (case s of
        [] \<Rightarrow> None
      | b # s \<Rightarrow>
          let w = ucast b AND 0xFF
          in if 0x81 \<le> b \<and> b \<le> 0xFE then
               (case s of [] \<Rightarrow> None | b2 # s \<Rightarrow> Some (push_bit 8 w + ucast b2, s))
             else Some (w, s))"

lemma gbk_char_shorter: "gbk_char s = Some (w, s') \<Longrightarrow> length s' < length s"
  by (auto simp: gbk_char_def Let_def split: list.splits if_splits)

definition utf8_of :: "u16 \<Rightarrow> u8 list option" where
  "utf8_of wchar =
     (if wchar \<le> 0x7F then Some [ucast wchar]
      else if wchar \<ge> 0x80 \<and> wchar \<le> 0x7FF then
        Some [0xc0 OR ucast (drop_bit 6 wchar AND 0x1f), 0x80 OR ucast (wchar AND 0x3f)]
      else if wchar \<ge> 0x800 \<and> wchar < 0xFFFF then
        Some [0xe0 OR ucast (drop_bit 12 wchar AND 0x0f), 0x80 OR ucast (drop_bit 6 wchar AND 0x3f),
              0x80 OR ucast (wchar AND 0x3f)]
      else None)"

function gbk_to_utf8 :: "code_tables \<Rightarrow> u8 list \<Rightarrow> u8 list \<Rightarrow> (u8 list \<times> int) option" where
  "gbk_to_utf8 t s out =
     (case s of
        [] \<Rightarrow> None
      | b # _ \<Rightarrow>
          if b = 0 then Some (out @ [0], int (length out))
          else
            case gbk_char s of
              None \<Rightarrow> None
            | Some (w, s') \<Rightarrow>
                (case utf8_of (ff_convert t w True) of
                   None \<Rightarrow> Some (out, - 1)
                 | Some bs \<Rightarrow> gbk_to_utf8 t s' (out @ bs)))"
  by pat_completeness auto

termination gbk_to_utf8
  by (relation "measure (\<lambda>(t, s, out). length s)") (auto dest: gbk_char_shorter)

declare gbk_to_utf8.simps [simp del]

text \<open>
  The loop that \<open>gbk_to_unicode\<close> and \<open>mbcs_to_unicode\<close> share.
\<close>

function gbk_units :: "code_tables \<Rightarrow> u8 list \<Rightarrow> u16 list \<Rightarrow> u16 list option" where
  "gbk_units t s out =
     (case s of
        [] \<Rightarrow> None
      | b # _ \<Rightarrow>
          if b = 0 then Some out
          else
            case gbk_char s of
              None \<Rightarrow> None
            | Some (w, s') \<Rightarrow> gbk_units t s' (out @ [ff_convert t w True]))"
  by pat_completeness auto

termination gbk_units
  by (relation "measure (\<lambda>(t, s, out). length s)") (auto dest: gbk_char_shorter)

declare gbk_units.simps [simp del]

definition gbk_to_unicode :: "code_tables \<Rightarrow> u8 list option \<Rightarrow> bool \<Rightarrow> (u16 list \<times> int \<times> int option) option" where
  "gbk_to_unicode t s dst_null =
     (if s = None \<or> dst_null then Some ([], - 1, None)
      else map_option (\<lambda>us. (us, 0, Some (2 * int (length us)))) (gbk_units t (the s) []))"

definition mbcs_to_unicode :: "code_tables \<Rightarrow> u8 list option \<Rightarrow> bool \<Rightarrow> (u16 list \<times> int \<times> int option) option" where
  "mbcs_to_unicode t s dst_null =
     (if s = None \<or> dst_null then Some ([], - 1, None)
      else map_option (\<lambda>us. (us, 0, Some (2 * (int (length us) mod 2 ^ 16)))) (gbk_units t (the s) []))"

text \<open>
  \<open>n\<close> is the distance of the read pointer from the start. A character of two or three bytes
  that is malformed or not in the table is copied as it is.
\<close>

fun utf8_to_gbk :: "code_tables \<Rightarrow> int \<Rightarrow> int \<Rightarrow> u8 list \<Rightarrow> u8 list \<Rightarrow> (u8 list \<times> int) option" where
  "utf8_to_gbk t len n s out =
     (case s of
        [] \<Rightarrow> None
      | b # s1 \<Rightarrow>
          if \<not> (b \<noteq> 0 \<and> n \<le> len) then Some (out, int (length out))
          else if b > 0 \<and> b \<le> 0x7F then utf8_to_gbk t len (n + 1) s1 (out @ [b])
          else if b AND 0xE0 = 0xC0 then
            (case s1 of
               [] \<Rightarrow> None
             | low # s2 \<Rightarrow>
                 let unicode = push_bit 6 (ucast (b AND 0xF)) OR ucast (low AND 0x3F);
                     gbkcode = ff_convert t unicode False;
                     two = (if low AND 0xC0 = 0x80 \<and> gbkcode \<noteq> 0 then [ucast (drop_bit 8 gbkcode), ucast gbkcode]
                            else [b, low])
                 in utf8_to_gbk t len (n + 2) s2 (out @ two))
          else if b AND 0xF0 = 0xE0 then
            (case s1 of
               middle # low # s3 \<Rightarrow>
                 let unicode = push_bit 6 (push_bit 6 (ucast (b AND 0xF)) OR ucast (middle AND 0x3F)) OR ucast (low AND 0x3F);
                     gbkcode = ff_convert t unicode False;
                     bytes = (if middle AND 0xC0 = 0x80 \<and> low AND 0xC0 = 0x80 \<and> gbkcode \<noteq> 0
                              then [ucast (drop_bit 8 gbkcode), ucast (gbkcode AND 0xFF)] else [b, middle, low])
                 in utf8_to_gbk t len (n + 3) s3 (out @ bytes)
             | _ \<Rightarrow> None)
          else utf8_to_gbk t len (n + 1) s1 (out @ [b]))"

declare utf8_to_gbk.simps [simp del]

text \<open>\<open>n\<close> counts the units that may still be read.\<close>

fun unicod_to_mbcs_loop :: "code_tables \<Rightarrow> nat \<Rightarrow> u16 list \<Rightarrow> u8 list \<Rightarrow> int \<Rightarrow> (u8 list \<times> int) option" where
  "unicod_to_mbcs_loop t 0 us out ret = Some (out @ [0], ret)"
| "unicod_to_mbcs_loop t (Suc n) [] out ret = None"
| "unicod_to_mbcs_loop t (Suc n) (cu # us) out ret =
     (if cu = 0 then Some (out @ [0], ret)
      else if cu < 0x80 then unicod_to_mbcs_loop t n us (out @ [ucast (0x00ff AND cu)]) ret
      else
        let code = ff_convert t cu False;
            (code, ret) = (if code = 0 then (0x20, 0) else (code, ret));
            low = ucast (0xff AND code);
            high = ucast (drop_bit 8 code)
        in unicod_to_mbcs_loop t n us
             (out @ low # (if low > 0x7f \<and> high \<noteq> 0 then [high] else [])) ret)"

definition unicod_to_mbcs ::
    "code_tables \<Rightarrow> u16 list option \<Rightarrow> int \<Rightarrow> bool \<Rightarrow> (u8 list \<times> int \<times> int option) option" where
  "unicod_to_mbcs t us src_len dst_null =
     (if us = None \<or> dst_null then Some ([], - 1, None)
      else
        map_option (\<lambda>(out, r). (out, r, Some (int (length out))))
          (unicod_to_mbcs_loop t (nat (src_len div 2)) (the us) [] 1))"

section \<open>The search in a sorted table\<close>

lemma ff_search_found:
  assumes "\<And>i k. i < k \<Longrightarrow> k < hi \<Longrightarrow> fst (p ! i) < fst (p ! k)"
    and "li \<le> j" and "j < hi" and "hi - li \<le> 2 ^ n"
  shows "ff_search (Suc n) p (fst (p ! j)) li hi = snd (p ! j)"
  using assms
proof (induction n arbitrary: li hi)
  case 0
  then have "li + (hi - li) div 2 = j"
    by simp
  then show ?case
    by simp
next
  case (Suc n)
  let ?i = "li + (hi - li) div 2"
  have i: "?i < hi" "li \<le> ?i"
    using Suc.prems(2,3) by auto
  consider "?i = j" | "?i < j" | "j < ?i"
    by linarith
  then show ?case
  proof cases
    case 2
    then have "fst (p ! ?i) < fst (p ! j)"
      using Suc.prems(1,3) by blast
    moreover have "ff_search (Suc n) p (fst (p ! j)) ?i hi = snd (p ! j)"
      using Suc.prems 2 by (intro Suc.IH) auto
    ultimately show ?thesis
      by (simp only: ff_search.simps(2) [of "Suc n"] Let_def) auto
  next
    case 3
    then have less: "fst (p ! j) < fst (p ! ?i)"
      using Suc.prems(1) i(1) by blast
    have "ff_search (Suc n) p (fst (p ! j)) li ?i = snd (p ! j)"
    proof (rule Suc.IH)
      show "fst (p ! a) < fst (p ! b)" if "a < b" "b < ?i" for a b
        using Suc.prems(1) [OF that(1)] that(2) i(1) by simp
    qed (use Suc.prems 3 in auto)
    then show ?thesis
      using less by (simp only: ff_search.simps(2) [of "Suc n"] Let_def) auto
  qed (simp only: ff_search.simps(2) [of "Suc n"] Let_def, simp)
qed

lemma ff_search_missing:
  "li \<le> hi \<Longrightarrow> li < N \<Longrightarrow> hi \<le> N \<Longrightarrow> (\<And>i. i < N \<Longrightarrow> fst (p ! i) \<noteq> chr) \<Longrightarrow> ff_search n p chr li hi = 0"
proof (induction n arbitrary: li hi)
  case (Suc n)
  let ?i = "li + (hi - li) div 2"
  have i: "?i < N" "li \<le> ?i" "?i \<le> hi"
    using Suc.prems(1-3) by auto
  have "ff_search n p chr ?i hi = 0" "ff_search n p chr li ?i = 0"
    using Suc.prems i by (auto intro!: Suc.IH)
  then show ?case
    using Suc.prems(4) [OF i(1)] by (auto simp: Let_def)
qed simp

text \<open>
  C34: Code tables. In a table sorted by its first column the search of \<open>ff_convert\<close>, which gives
  up after 16 comparisons, finds every entry, and gives 0 for every other code.
\<close>

theorem ff_convert_lookup:
  assumes "(if dir then oem2uni t else uni2oem t) = Some p"
    and "\<And>i k. i < k \<Longrightarrow> k < 0x5520 \<Longrightarrow> fst (p ! i) < fst (p ! k)" and "chr \<ge> 0x80"
  shows "(\<forall>j<0x5520. fst (p ! j) = chr \<longrightarrow> ff_convert t chr dir = snd (p ! j)) \<and>
    ((\<forall>j<0x5520. fst (p ! j) \<noteq> chr) \<longrightarrow> ff_convert t chr dir = 0)"
proof -
  have e: "ff_convert t chr dir = ff_search (Suc 15) p chr 0 0x5520"
    using assms(1,3) by (simp add: ff_convert_def leD)
  have "ff_search (Suc 15) p (fst (p ! j)) 0 0x5520 = snd (p ! j)" if "j < 0x5520" for j
    using that assms(2) by (intro ff_search_found) auto
  moreover have "\<forall>j<0x5520. fst (p ! j) \<noteq> chr \<Longrightarrow> ff_search (Suc 15) p chr 0 0x5520 = 0"
    by (rule ff_search_missing [where N = "0x5520"]) auto
  ultimately show ?thesis
    unfolding e by auto
qed

text \<open>A table for the witness: code \<open>0x80 + i\<close> stands for \<open>i + 1\<close>.\<close>

definition demo_tables :: code_tables where
  "demo_tables = (let p = map (\<lambda>i. (of_nat (0x80 + i), of_nat (i + 1))) [0..<0x5520]
    in \<lparr>oem2uni = Some p, uni2oem = Some p\<rparr>)"

theorem ff_convert_lookup_witness: "ff_convert demo_tables 0x90 True = 0x11"
proof -
  let ?p = "map (\<lambda>i. (of_nat (0x80 + i), of_nat (i + 1))) [0..<0x5520] :: code_table"
  have n: "fst (?p ! i) = of_nat (0x80 + i)" "snd (?p ! i) = of_nat (i + 1)" if "i < 0x5520" for i
    using that by simp_all
  have sorted: "fst (?p ! i) < fst (?p ! k)" if "i < k" "k < 0x5520" for i k
    using that n(1) [of i] n(1) [of k]
    by (simp add: word_less_nat_alt unsigned_of_nat take_bit_nat_eq_self del: of_nat_add)
  have t: "(if True then oem2uni demo_tables else uni2oem demo_tables) = Some ?p"
    by (simp add: demo_tables_def Let_def)
  have "fst (?p ! 16) = 0x90" "snd (?p ! 16) = 0x11"
    using n [of 16] by simp_all
  then show ?thesis
    using ff_convert_lookup [OF t sorted, of "0x90"] by (auto dest: spec [of _ 16] simp del: nth_map)
qed

section \<open>UTF-8: bits\<close>

lemma all_less_16:
  "(\<forall>n<16. P n) \<longleftrightarrow> (\<forall>n<8. P n) \<and> P 8 \<and> P 9 \<and> P 10 \<and> P 11 \<and> P 12 \<and> P 13 \<and> P 14 \<and> P (15::nat)"
  by (simp add: numeral_eq_Suc All_less_Suc conj_ac)

lemma u8_bits_eq: "(x :: u8) = y \<longleftrightarrow> (\<forall>n<8. bit x n \<longleftrightarrow> bit y n)"
  by (auto intro: bit_word_eqI)

lemma u16_bits_eq: "(x :: u16) = y \<longleftrightarrow> (\<forall>n<16. bit x n \<longleftrightarrow> bit y n)"
  by (auto intro: bit_word_eqI)

lemma bit_unat: "bit w n \<longleftrightarrow> odd (unat (w :: 'a :: len word) div 2 ^ n)"
  by (simp add: bit_iff_odd [symmetric] bit_unsigned_iff)

lemma bit_unat_ge: "bit w n \<Longrightarrow> 2 ^ n \<le> unat (w :: 'a :: len word)"
  by (metis bit_unat div_less even_zero not_less)

lemma u8_less_80: "(c :: u8) < 0x80 \<longleftrightarrow> \<not> bit c 7"
proof -
  have "unat c < 256"
    using unsigned_less [of c, where 'a = nat] by simp
  then have "unat c div 128 < 2"
    using less_mult_imp_div_less [of "unat c" 2 128] by simp
  then have "odd (unat c div 128) \<longleftrightarrow> 128 \<le> unat c"
    using div_greater_zero_iff [of "unat c" 128] by (cases "unat c div 128") (auto simp: less_2_cases_iff)
  then show ?thesis
    by (simp add: bit_unat word_less_nat_alt not_le)
qed

lemma u8_and_c0: "(c :: u8) AND 0xc0 = 0x80 \<longleftrightarrow> bit c 7 \<and> \<not> bit c 6"
  unfolding u8_bits_eq all_less_8 by (auto simp: bit_and_iff)

lemma u16_and_F800: "(w :: u16) AND 0xF800 > 0 \<longleftrightarrow> (\<exists>n\<in>{11, 12, 13, 14, 15}. bit w n)"
  unfolding word_gt_0 u16_bits_eq all_less_16 all_less_8 by (simp add: bit_and_iff)

lemma u16_and_FF80: "(w :: u16) AND 0xFF80 > 0 \<longleftrightarrow> (\<exists>n\<in>{7, 8, 9, 10, 11, 12, 13, 14, 15}. bit w n)"
  unfolding word_gt_0 u16_bits_eq all_less_16 all_less_8 by (simp add: bit_and_iff)

lemmas utf8_bits = u8_less_80 u8_and_c0 u8_and_lit u16_and_F800 u16_and_FF80

text \<open>
  Forms of two and three bytes: the value to test always has a high bit of the first byte
  in it, so the tests for overlong forms and surrogates do not apply.
\<close>

lemma loop_two:
  assumes "bit c0 7" "bit c0 6" "\<not> bit c0 5" "bit c1 7" "\<not> bit c1 6"
    and sc: "scalar = (push_bit 6 (ucast (c0 :: u8)) OR ucast (c1 AND 0x3f) :: u32)"
  shows "utf8_to_unicode_loop (c0 # c1 # bs) =
    map_prod (\<lambda>us. (ucast scalar AND 0x7ff) # us) (\<lambda>r. r) (utf8_to_unicode_loop bs)"
proof -
  have "bit scalar 13"
    using assms(1) by (simp add: sc bit_simps)
  then have "\<not> scalar < 0x80"
    using bit_unat_ge [of scalar 13] by (simp add: word_less_nat_alt)
  then show ?thesis
    using assms(1-5) by (simp add: u8_less_80 u8_and_c0 Let_def flip: sc)
qed

lemma loop_three:
  assumes "bit c0 7" "bit c0 6" "bit c0 5" "\<not> bit c0 4" "bit c1 7" "\<not> bit c1 6" "bit c2 7" "\<not> bit c2 6"
    and sc: "scalar = (push_bit 6 (push_bit 6 (ucast (c0 :: u8)) OR ucast (c1 AND 0x3f)) OR ucast (c2 AND 0x3f) :: u32)"
  shows "utf8_to_unicode_loop (c0 # c1 # c2 # bs) =
    map_prod (\<lambda>us. ucast (scalar AND 0xffff) # us) (\<lambda>r. r) (utf8_to_unicode_loop bs)"
proof -
  have "bit scalar 19"
    using assms(1) by (simp add: sc bit_simps)
  then have "\<not> scalar < 0x800" "\<not> scalar < 0xe000"
    using bit_unat_ge [of scalar 19] by (simp_all add: word_less_nat_alt)
  then show ?thesis
    using assms(1-8) by (simp add: u8_less_80 u8_and_c0 Let_def del: push_bit_or flip: sc)
qed

section \<open>UTF-8: round trip\<close>

lemma utf8_loop_encode:
  "utf8_to_unicode_loop (encode_utf8 u @ bs) = map_prod (\<lambda>us. u # us) (\<lambda>r. r) (utf8_to_unicode_loop bs)"
proof -
  consider (three) "u AND 0xF800 > 0" | (two) "\<not> u AND 0xF800 > 0" "u AND 0xFF80 > 0" | (one) "\<not> u AND 0xF800 > 0" "\<not> u AND 0xFF80 > 0"
    by blast
  then show ?thesis
  proof cases
    case three
    let ?c0 = "ucast (0xE0 OR drop_bit 12 u) :: u8" and ?c1 = "ucast (0x80 OR (drop_bit 6 u AND 0x3F)) :: u8"
      and ?c2 = "ucast (0x80 OR (u AND 0x3F)) :: u8"
    have e: "encode_utf8 u = [?c0, ?c1, ?c2]"
      using three by (simp add: encode_utf8_def)
    have b: "bit ?c0 7" "bit ?c0 6" "bit ?c0 5" "\<not> bit ?c0 4" "bit ?c1 7" "\<not> bit ?c1 6" "bit ?c2 7" "\<not> bit ?c2 6"
      by (auto simp: bit_simps dest: bit_imp_le_length)
    have v: "ucast ((push_bit 6 (push_bit 6 (ucast ?c0) OR ucast (?c1 AND 0x3f)) OR ucast (?c2 AND 0x3f) :: u32) AND 0xffff) = u"
      unfolding u16_bits_eq all_less_16 all_less_8 by (simp add: bit_simps)
    show ?thesis
      unfolding e append.simps loop_three [OF b refl] v ..
  next
    case two
    let ?c0 = "ucast (0xC0 OR drop_bit 6 u) :: u8" and ?c1 = "ucast (0x80 OR (u AND 0x3F)) :: u8"
    have u: "\<forall>n\<in>{11, 12, 13, 14, 15}. \<not> bit u n"
      using two unfolding u16_and_F800 by blast
    have e: "encode_utf8 u = [?c0, ?c1]"
      using two by (simp add: encode_utf8_def)
    have b: "bit ?c0 7" "bit ?c0 6" "\<not> bit ?c0 5" "bit ?c1 7" "\<not> bit ?c1 6"
      using u by (simp_all add: bit_simps)
    have v: "ucast (push_bit 6 (ucast ?c0) OR ucast (?c1 AND 0x3f) :: u32) AND 0x7ff = u"
      unfolding u16_bits_eq all_less_16 all_less_8 using u by (simp add: bit_simps)
    show ?thesis
      unfolding e append.simps loop_two [OF b refl] v ..
  next
    case one
    then have b: "\<forall>n\<in>{7, 8, 9, 10, 11, 12, 13, 14, 15}. \<not> bit u n"
      unfolding u16_and_FF80 by blast
    then have "(ucast (ucast u :: u8) :: u16) = u" "\<not> bit (ucast u :: u8) 7"
      unfolding u16_bits_eq all_less_16 all_less_8 by (simp_all add: bit_simps)
    then show ?thesis
      using one by (simp add: encode_utf8_def u8_less_80)
  qed
qed

lemma utf8_loop_concat: "utf8_to_unicode_loop (concat (map encode_utf8 us)) = (us, 0)"
  by (induction us) (simp_all add: utf8_loop_encode)

lemma unicode_loop_ok:
  assumes "0 \<notin> set us" and "int (length out + length (concat (map encode_utf8 us))) \<le> buffersize"
  shows "unicode_to_utf8_loop buffersize (us @ rest) (2 * int (length us)) out = Some (out @ concat (map encode_utf8 us) @ [0], 1)"
  using assms
proof (induction us arbitrary: out)
  case Nil
  then show ?case
    by (simp add: unicode_to_utf8_loop.simps)
next
  case (Cons u us)
  have "unicode_to_utf8_loop buffersize (us @ rest) (2 * int (length us)) (out @ encode_utf8 u) =
      Some ((out @ encode_utf8 u) @ concat (map encode_utf8 us) @ [0], 1)"
    using Cons.prems by (intro Cons.IH) auto
  then show ?case
    using Cons.prems by (simp add: unicode_to_utf8_loop.simps [of _ "u # us @ rest"] Let_def)
qed

text \<open>
  C33: UTF-8. A string of 16-bit units without a zero unit is converted to UTF-8 whenever the
  buffer is large enough, with the exact length reported and a terminating zero; converting
  the bytes back succeeds and gives the same units.
\<close>

theorem unicode_utf8_round_trip:
  assumes "0 \<notin> set us" and "bs = concat (map encode_utf8 us)" and "int (length bs) \<le> buffersize"
  shows "unicode_to_utf8 (Some (us @ rest)) (2 * int (length us)) False buffersize = Some (bs @ [0], 1, int (length bs)) \<and>
    utf8_to_unicode (Some bs) False = (us, 0, Some (2 * length us)) \<and> length bs \<le> 3 * length us"
proof -
  have "length (encode_utf8 u) \<le> 3" for u
    by (simp add: encode_utf8_def Let_def)
  then have "length (concat (map encode_utf8 us)) \<le> 3 * length us"
    by (induction us) (simp_all add: add_mono)
  then show ?thesis
    using unicode_loop_ok [of us "[]" buffersize rest] assms utf8_loop_concat [of us]
    by (simp add: unicode_to_utf8_def utf8_to_unicode_def)
qed

theorem unicode_utf8_round_trip_witness:
  "unicode_to_utf8 (Some ([0x41, 0x3b1, 0x4e2d] @ [])) 6 False 10 = Some ([0x41, 0xce, 0xb1, 0xe4, 0xb8, 0xad, 0], 1, 6)"
proof -
  have e: "concat (map encode_utf8 [0x41, 0x3b1, 0x4e2d]) = [0x41, 0xce, 0xb1, 0xe4, 0xb8, 0xad]"
    by code_simp
  show ?thesis
    using unicode_utf8_round_trip [of "[0x41, 0x3b1, 0x4e2d]" "[0x41, 0xce, 0xb1, 0xe4, 0xb8, 0xad]" 10 "[]"]
    unfolding e by simp
qed

text \<open>
  Malformed UTF-8. The tests of \<open>utf8_to_unicode\<close> for overlong forms and surrogates
  compare a value that still contains the marker bits of the first byte, and never apply:
  every two-byte form and every three-byte form is accepted, the overlong ones included.
\<close>

theorem utf8_to_unicode_accepts:
  assumes "c0 AND 0xc0 = 0xc0" and "c1 AND 0xc0 = 0x80" and "c2 AND 0xc0 = 0x80" and "c0 AND 0x10 = 0"
  shows "snd (utf8_to_unicode_loop (if c0 AND 0x20 = 0 then [c0, c1] else [c0, c1, c2])) = 0 \<and>
    utf8_to_unicode_loop [0xC1, 0x81] = ([0x41], 0) \<and> utf8_to_unicode_loop [0xED, 0xA0, 0x80] = ([0xD800], 0)"
proof (intro conjI)
  have c0: "bit c0 7" "bit c0 6" "\<not> bit c0 4"
    using assms(1,4) unfolding u8_bits_eq all_less_8 by (simp_all add: bit_and_iff)
  show "snd (utf8_to_unicode_loop (if c0 AND 0x20 = 0 then [c0, c1] else [c0, c1, c2])) = 0"
    using c0 assms(2,3) unfolding u8_and_c0
    by (cases "bit c0 5") (simp_all add: loop_two loop_three del: utf8_to_unicode_loop.simps(2))
  show "utf8_to_unicode_loop [0xC1, 0x81] = ([0x41], 0)" "utf8_to_unicode_loop [0xED, 0xA0, 0x80] = ([0xD800], 0)"
    by code_simp+
qed

text \<open>
  Short buffers. \<open>unicode_to_utf8\<close> stores a character before it compares the length with the
  size of the buffer: up to three bytes, or the terminating zero, are written behind it.
\<close>

theorem unicode_to_utf8_overruns:
  "unicode_to_utf8 (Some [0x4e2d]) 2 False 0 = Some ([0xe4, 0xb8, 0xad], - 1, 0) \<and>
   unicode_to_utf8 (Some [0x41]) 2 False 1 = Some ([0x41, 0], 1, 1)"
  by code_simp

section \<open>GBK through UTF-8\<close>

lemma unat_less_exp_iff: "unat (w :: 'a :: len word) < 2 ^ k \<longleftrightarrow> (\<forall>n<LENGTH('a). k \<le> n \<longrightarrow> \<not> bit w n)"
proof
  assume l: "unat w < 2 ^ k"
  show "\<forall>n<LENGTH('a). k \<le> n \<longrightarrow> \<not> bit w n"
  proof (intro allI impI notI)
    fix n assume "k \<le> n" "bit w n"
    then have "2 ^ k \<le> unat w"
      by (meson bit_unat_ge le_trans one_le_numeral power_increasing)
    then show False
      using l by simp
  qed
next
  assume b: "\<forall>n<LENGTH('a). k \<le> n \<longrightarrow> \<not> bit w n"
  have "take_bit k w = w"
    by (rule bit_word_eqI) (use b in \<open>auto simp: bit_take_bit_iff not_less\<close>)
  then have "unat w = take_bit k (unat w)"
    by (metis unsigned_take_bit_eq)
  then show "unat w < 2 ^ k"
    by (metis take_bit_nat_less_exp)
qed

lemma utf8_of_eq: "utf8_of w = (if w = 0xFFFF then None else Some (encode_utf8 w))"
proof -
  have "unat w < 2 ^ 7 \<longleftrightarrow> \<not> w AND 0xFF80 > 0" "unat w < 2 ^ 11 \<longleftrightarrow> \<not> w AND 0xF800 > 0"
    unfolding unat_less_exp_iff u16_and_FF80 u16_and_F800 by (simp_all add: all_less_16 all_less_8)
  then have l: "w \<le> 0x7F \<longleftrightarrow> \<not> w AND 0xFF80 > 0" "w \<le> 0x7FF \<longleftrightarrow> \<not> w AND 0xF800 > 0"
    by (auto simp: word_le_nat_alt)
  have sub: "w AND 0xF800 > 0 \<Longrightarrow> w AND 0xFF80 > 0"
    unfolding u16_and_FF80 u16_and_F800 by blast
  have m1: "(- 1 :: u16) = 0xFFFF"
    by simp
  have top: "w \<ge> 0x800 \<longleftrightarrow> \<not> w \<le> 0x7FF" "w \<ge> 0x80 \<longleftrightarrow> \<not> w \<le> 0x7F" "w < 0xFFFF \<longleftrightarrow> w \<noteq> 0xFFFF"
    using word_order.not_eq_extremum [of w] unfolding m1 by (auto simp: word_le_nat_alt)
  have b2: "[0xc0 OR ucast (drop_bit 6 w AND 0x1f), 0x80 OR ucast (w AND 0x3f)] =
      [ucast (0xC0 OR drop_bit 6 w), ucast (0x80 OR (w AND 0x3F)) :: u8]" if "\<not> w AND 0xF800 > 0"
    using that unfolding u16_and_F800 by (simp add: u8_bits_eq all_less_8 bit_simps)
  have b3: "[0xe0 OR ucast (drop_bit 12 w AND 0x0f), 0x80 OR ucast (drop_bit 6 w AND 0x3f), 0x80 OR ucast (w AND 0x3f)] =
      [ucast (0xE0 OR drop_bit 12 w), ucast (0x80 OR (drop_bit 6 w AND 0x3F)), ucast (0x80 OR (w AND 0x3F)) :: u8]"
    by (auto simp: u8_bits_eq all_less_8 bit_simps dest: bit_imp_le_length)
  consider "w = 0xFFFF" | "w \<noteq> 0xFFFF" "w AND 0xF800 > 0" | "w \<noteq> 0xFFFF" "\<not> w AND 0xF800 > 0"
    by blast
  then show ?thesis
  proof cases
    case 1
    then show ?thesis
      by (simp add: utf8_of_def)
  next
    case 2
    then show ?thesis
      unfolding utf8_of_def encode_utf8_def Let_def l top b3 using sub by simp
  next
    case 3
    then show ?thesis
      unfolding utf8_of_def encode_utf8_def Let_def l top b2 [OF 3(2)] by simp
  qed
qed

lemma gbk_to_utf8_units:
  assumes "gbk_to_utf8 t s out = Some (out', n)" and "n \<noteq> - 1"
  shows "\<exists>us. gbk_units t s us0 = Some (us0 @ us) \<and> out' = out @ concat (map encode_utf8 us) @ [0] \<and>
    n = int (length out') - 1"
  using assms
proof (induction t s out arbitrary: us0 rule: gbk_to_utf8.induct)
  case (1 t s out)
  obtain b s0 where s: "s = b # s0"
    using "1.prems"(1) by (cases s) (auto simp: gbk_to_utf8.simps [of t "[]"])
  show ?case
  proof (cases "b = 0")
    case True
    then show ?thesis
      using "1.prems" unfolding s gbk_to_utf8.simps [of t "b # s0"] gbk_units.simps [of t "b # s0"]
      by (auto intro!: exI [of _ "[]"])
  next
    case False
    obtain w s' where c: "gbk_char s = Some (w, s')"
      using "1.prems"(1) False by (auto simp: s gbk_to_utf8.simps [of t "b # s0"] split: option.splits)
    obtain bs where bs: "utf8_of (ff_convert t w True) = Some bs"
      using "1.prems" False c by (cases "utf8_of (ff_convert t w True)") (auto simp: s gbk_to_utf8.simps [of t "b # s0"])
    have e: "bs = encode_utf8 (ff_convert t w True)"
      using bs by (simp add: utf8_of_eq split: if_splits)
    have "gbk_to_utf8 t s' (out @ bs) = Some (out', n)"
      using "1.prems"(1) False c bs by (simp add: s gbk_to_utf8.simps [of t "b # s0"])
    then obtain us where us: "gbk_units t s' (us0 @ [ff_convert t w True]) = Some ((us0 @ [ff_convert t w True]) @ us)"
      "out' = (out @ bs) @ concat (map encode_utf8 us) @ [0]" "n = int (length out') - 1"
      using "1.IH" [OF s False c refl bs _ "1.prems"(2)] by blast
    have "gbk_units t s us0 = Some (us0 @ ff_convert t w True # us)"
      using us(1) False c by (simp add: s gbk_units.simps [of t "b # s0"])
    then show ?thesis
      using us(2,3) e by (intro exI [of _ "ff_convert t w True # us"]) simp
  qed
qed

text \<open>
  GBK and UTF-8. Whenever \<open>gbk_to_utf8\<close> succeeds, decoding its result with \<open>utf8_to_unicode\<close>
  gives exactly the units \<open>gbk_to_unicode\<close> gives for the same string, whatever the code tables
  contain; the result is terminated and its length is the one returned.
\<close>

theorem gbk_to_utf8_agrees:
  assumes "gbk_to_utf8 t s [] = Some (out, n)" and "n \<noteq> - 1"
  shows "\<exists>us. gbk_to_unicode t (Some s) False = Some (us, 0, Some (2 * int (length us))) \<and>
    utf8_to_unicode (Some (take (nat n) out)) False = (us, 0, Some (2 * length us)) \<and>
    drop (nat n) out = [0] \<and> int (length out) = n + 1"
proof -
  obtain us where us: "gbk_units t s [] = Some us" "out = concat (map encode_utf8 us) @ [0]" "n = int (length out) - 1"
    using gbk_to_utf8_units [OF assms, of "[]"] by auto
  then have "nat n = length (concat (map encode_utf8 us))"
    by simp
  then show ?thesis
    using us utf8_loop_concat [of us] by (simp add: gbk_to_unicode_def utf8_to_unicode_def)
qed

theorem gbk_to_utf8_agrees_witness:
  "\<exists>us. gbk_to_unicode demo_tables (Some [0x41, 0x42, 0]) False = Some (us, 0, Some (2 * int (length us))) \<and>
     utf8_to_unicode (Some (take 2 [0x41, 0x42, 0])) False = (us, 0, Some (2 * length us))"
proof -
  have "gbk_to_utf8 demo_tables [0x41, 0x42, 0] [] = Some ([0x41, 0x42, 0], 2)"
    by (simp add: gbk_to_utf8.simps gbk_char_def ff_convert_def utf8_of_def)
  from gbk_to_utf8_agrees [OF this] show ?thesis
    by auto
qed

text \<open>
  Two-byte characters. \<open>utf8_to_gbk\<close> keeps only four of the five data bits of the first
  byte: the letter U+0410 is looked up as the control character U+0010.
\<close>

theorem utf8_to_gbk_two_bytes: "utf8_to_gbk t 2 0 [0xD0, 0x90, 0] [] = Some ([0x00, 0x10], 2)"
  by (simp add: utf8_to_gbk.simps ff_convert_def Let_def)

text \<open>
  Byte order. \<open>unicod_to_mbcs\<close> stores the low byte of a two-byte code first, and the high
  byte only when the low byte is above \<open>0x7f\<close>, while the functions that read GBK take the
  high byte first.
\<close>

theorem unicod_to_mbcs_order:
  assumes "ff_convert t u False = code" and "u \<ge> 0x80" and "code \<noteq> 0"
  shows "unicod_to_mbcs t (Some [u]) 2 False =
    (let low = ucast code; high = ucast (drop_bit 8 code)
     in if low > 0x7f \<and> high \<noteq> 0 then Some ([low, high, 0], 1, Some 3) else Some ([low, 0], 1, Some 2))"
proof -
  have "(ucast (0xff AND code) :: u8) = ucast code"
    unfolding u8_bits_eq all_less_8 by (simp add: bit_simps)
  moreover have "\<not> u < 0x80" "u \<noteq> 0"
    using assms(2) by auto
  ultimately show ?thesis
    using assms(1,3) by (simp add: unicod_to_mbcs_def Let_def numeral_2_eq_2)
qed

end
