(* ===== verification/Libc.thy ===== *)
theory Libc
  imports Ring
begin

unbundle bit_operations_syntax

text \<open>
  The memory and string functions of the C library: lib/libc/minimal/source/string. Memory
  is the byte memory of Ring, pointers are addresses below \<open>2 ^ 32\<close>, and \<open>char\<close> is signed, as on
  the MIPS targets. Loops that run to the end of a string have no bound in the source; they
  are partial functions, and return \<open>None\<close> when there is no end.
\<close>

section \<open>Memory areas\<close>

fun copy_forward :: "nat \<Rightarrow> nat \<Rightarrow> nat \<Rightarrow> mem \<Rightarrow> mem" where
  "copy_forward d s 0 m = m"
| "copy_forward d s (Suc n) m = copy_forward (d + 1) (s + 1) n (m(d := m s))"

fun copy_backward :: "nat \<Rightarrow> nat \<Rightarrow> nat \<Rightarrow> mem \<Rightarrow> mem" where
  "copy_backward d s 0 m = m"
| "copy_backward d s (Suc n) m = copy_backward d s n (m(d + n := m (s + n)))"

definition memmove :: "nat \<Rightarrow> nat \<Rightarrow> nat \<Rightarrow> mem \<Rightarrow> mem" where
  "memmove d s n m =
     (if (of_nat d - of_nat s :: u32) < of_nat n then copy_backward d s n m else copy_forward d s n m)"

text \<open>
  The loop before the word copy ends at a word boundary, or at the end of the data, where the
  function returns (the flag).
\<close>

fun copy_align :: "nat \<Rightarrow> nat \<Rightarrow> nat \<Rightarrow> mem \<Rightarrow> bool \<times> nat \<times> nat \<times> nat \<times> mem" where
  "copy_align d s n m =
     (if d AND 3 = 0 then (False, d, s, n, m)
      else case n of 0 \<Rightarrow> (True, d, s, 0, m) | Suc n \<Rightarrow> copy_align (d + 1) (s + 1) n (m(d := m s)))"

declare copy_align.simps [simp del]

function copy_words :: "nat \<Rightarrow> nat \<Rightarrow> nat \<Rightarrow> mem \<Rightarrow> nat \<times> nat \<times> nat \<times> mem" where
  "copy_words d s n m =
     (if n \<ge> 4 then copy_words (d + 4) (s + 4) (n - 4) (mem_write d (mem_read s 4 m) m) else (d, s, n, m))"
  by pat_completeness auto

termination copy_words
  by (relation "measure (\<lambda>(d, s, n, m). n)") auto

declare copy_words.simps [simp del]

definition libc_memcpy :: "nat \<Rightarrow> nat \<Rightarrow> nat \<Rightarrow> mem \<Rightarrow> mem" where
  "libc_memcpy d s n m =
     (if (d XOR s) AND 3 = 0 then
        (case copy_align d s n m of (returned, d, s, n, m) \<Rightarrow>
           if returned then m else case copy_words d s n m of (d, s, n, m) \<Rightarrow> copy_forward d s n m)
      else copy_forward d s n m)"

fun set_bytes :: "nat \<Rightarrow> u8 \<Rightarrow> nat \<Rightarrow> mem \<Rightarrow> mem" where
  "set_bytes d c 0 m = m"
| "set_bytes d c (Suc n) m = set_bytes (d + 1) c n (m(d := c))"

fun set_align :: "nat \<Rightarrow> u8 \<Rightarrow> nat \<Rightarrow> mem \<Rightarrow> bool \<times> nat \<times> nat \<times> mem" where
  "set_align d c n m =
     (if d AND 3 = 0 then (False, d, n, m)
      else case n of 0 \<Rightarrow> (True, d, 0, m) | Suc n \<Rightarrow> set_align (d + 1) c n (m(d := c)))"

declare set_align.simps [simp del]

text \<open>A word is stored with its low byte first.\<close>

definition store_word :: "nat \<Rightarrow> u32 \<Rightarrow> mem \<Rightarrow> mem" where
  "store_word d w = mem_write d [ucast w, ucast (drop_bit 8 w), ucast (drop_bit 16 w), ucast (drop_bit 24 w)]"

function set_words :: "nat \<Rightarrow> u32 \<Rightarrow> nat \<Rightarrow> mem \<Rightarrow> nat \<times> nat \<times> mem" where
  "set_words d w n m = (if n \<ge> 4 then set_words (d + 4) w (n - 4) (store_word d w m) else (d, n, m))"
  by pat_completeness auto

termination set_words
  by (relation "measure (\<lambda>(d, w, n, m). n)") auto

declare set_words.simps [simp del]

definition libc_memset :: "nat \<Rightarrow> u32 \<Rightarrow> nat \<Rightarrow> mem \<Rightarrow> mem" where
  "libc_memset buf c n m =
     (let c_byte = ucast c :: u8
      in case set_align buf c_byte n m of (returned, d, n, m) \<Rightarrow>
           if returned then m
           else
             let c_word = ucast c_byte :: u32;
                 c_word = c_word OR push_bit 8 c_word;
                 c_word = c_word OR push_bit 16 c_word
             in case set_words d c_word n m of (d, n, m) \<Rightarrow> set_bytes d c_byte n m)"

text \<open>The first argument counts the bytes left after the current one.\<close>

fun memcmp_loop :: "nat \<Rightarrow> nat \<Rightarrow> nat \<Rightarrow> mem \<Rightarrow> int" where
  "memcmp_loop 0 c1 c2 m = sint (m c1) - sint (m c2)"
| "memcmp_loop (Suc n) c1 c2 m =
     (if m c1 = m c2 then memcmp_loop n (c1 + 1) (c2 + 1) m else sint (m c1) - sint (m c2))"

definition memcmp :: "nat \<Rightarrow> nat \<Rightarrow> nat \<Rightarrow> mem \<Rightarrow> int" where
  "memcmp m1 m2 n m = (case n of 0 \<Rightarrow> 0 | Suc n \<Rightarrow> memcmp_loop n m1 m2 m)"

fun memchr :: "nat \<Rightarrow> u8 \<Rightarrow> nat \<Rightarrow> mem \<Rightarrow> nat option" where
  "memchr p c 0 m = None"
| "memchr p c (Suc n) m = (if m p = c then Some p else memchr (p + 1) c n m)"

section \<open>Strings\<close>

partial_function (option) strlen_loop :: "mem \<Rightarrow> nat \<Rightarrow> nat \<Rightarrow> nat option" where
  "strlen_loop m s n = (if m s \<noteq> 0 then strlen_loop m (s + 1) (n + 1) else Some n)"

definition strlen :: "nat \<Rightarrow> mem \<Rightarrow> nat option" where
  "strlen s m = strlen_loop m s 0"

fun strnlen :: "nat \<Rightarrow> nat \<Rightarrow> mem \<Rightarrow> nat" where
  "strnlen s 0 m = 0"
| "strnlen s (Suc count) m = (if m s \<noteq> 0 then Suc (strnlen (s + 1) count m) else 0)"

partial_function (option) strcpy :: "nat \<Rightarrow> nat \<Rightarrow> mem \<Rightarrow> mem option" where
  "strcpy d s m = (if m s \<noteq> 0 then strcpy (d + 1) (s + 1) (m(d := m s)) else Some (m(d := 0)))"

fun strncpy :: "nat \<Rightarrow> nat \<Rightarrow> nat \<Rightarrow> mem \<Rightarrow> mem" where
  "strncpy d s 0 m = m"
| "strncpy d s (Suc n) m = (if m s \<noteq> 0 then strncpy (d + 1) (s + 1) n (m(d := m s)) else m(d := 0))"

definition strcat :: "nat \<Rightarrow> nat \<Rightarrow> mem \<Rightarrow> mem option" where
  "strcat dest src m = (case strlen dest m of None \<Rightarrow> None | Some len \<Rightarrow> strcpy (dest + len) src m)"

fun strncat_loop :: "nat \<Rightarrow> nat \<Rightarrow> nat \<Rightarrow> mem \<Rightarrow> mem" where
  "strncat_loop dest src 0 m = m(dest := 0)"
| "strncat_loop dest src (Suc n) m =
     (if m src \<noteq> 0 then strncat_loop (dest + 1) (src + 1) n (m(dest := m src)) else m(dest := 0))"

definition strncat :: "nat \<Rightarrow> nat \<Rightarrow> nat \<Rightarrow> mem \<Rightarrow> mem option" where
  "strncat dest src n m =
     (case strlen dest m of None \<Rightarrow> None | Some len \<Rightarrow> Some (strncat_loop (dest + len) src n m))"

partial_function (option) strchr :: "mem \<Rightarrow> u8 \<Rightarrow> nat \<Rightarrow> nat option option" where
  "strchr m c s =
     (if m s \<noteq> c \<and> m s \<noteq> 0 then strchr m c (s + 1) else Some (if m s = c then Some s else None))"

partial_function (option) strrchr_loop :: "mem \<Rightarrow> u8 \<Rightarrow> nat option \<Rightarrow> nat \<Rightarrow> nat option option" where
  "strrchr_loop m c match s =
     (let match = (if m s = c then Some s else match)
      in if m s \<noteq> 0 then strrchr_loop m c match (s + 1) else Some match)"

definition strrchr :: "nat \<Rightarrow> u8 \<Rightarrow> mem \<Rightarrow> nat option option" where
  "strrchr s c m = strrchr_loop m c None s"

partial_function (option) strcmp :: "mem \<Rightarrow> nat \<Rightarrow> nat \<Rightarrow> int option" where
  "strcmp m s1 s2 =
     (if m s1 = m s2 \<and> m s1 \<noteq> 0 then strcmp m (s1 + 1) (s2 + 1) else Some (sint (m s1) - sint (m s2)))"

fun strncmp :: "nat \<Rightarrow> nat \<Rightarrow> nat \<Rightarrow> mem \<Rightarrow> int" where
  "strncmp s1 s2 0 m = 0"
| "strncmp s1 s2 (Suc n) m =
     (if m s1 = m s2 \<and> m s1 \<noteq> 0 then strncmp (s1 + 1) (s2 + 1) n m else sint (m s1) - sint (m s2))"

section \<open>Searching and splitting\<close>

text \<open>Does the string at \<open>a\<close> hold the byte? The inner loop of \<open>strspn\<close> and \<open>strpbrk\<close>.\<close>

partial_function (option) str_has :: "mem \<Rightarrow> u8 \<Rightarrow> nat \<Rightarrow> bool option" where
  "str_has m c a = (if m a = 0 then Some False else if c = m a then Some True else str_has m c (a + 1))"

partial_function (option) strspn_loop :: "mem \<Rightarrow> nat \<Rightarrow> nat \<Rightarrow> nat \<Rightarrow> nat option" where
  "strspn_loop m p accept count =
     (if m p = 0 then Some count
      else Option.bind (str_has m (m p) accept)
        (\<lambda>b. if b then strspn_loop m (p + 1) accept (count + 1) else Some count))"

definition strspn :: "nat \<Rightarrow> nat \<Rightarrow> mem \<Rightarrow> nat option" where
  "strspn s accept m = strspn_loop m s accept 0"

partial_function (option) strpbrk :: "mem \<Rightarrow> nat \<Rightarrow> nat \<Rightarrow> nat option option" where
  "strpbrk m cs ct =
     (if m cs = 0 then Some None
      else Option.bind (str_has m (m cs) ct) (\<lambda>b. if b then Some (Some cs) else strpbrk m (cs + 1) ct))"

text \<open>
  \<open>strtok\<close> keeps the rest of the string in \<open>___strtok\<close>, a parameter and a result here;
  \<open>None\<close> is the null pointer.
\<close>

definition strtok :: "nat option \<Rightarrow> nat \<Rightarrow> nat option \<times> mem \<Rightarrow> (nat option \<times> nat option \<times> mem) option" where
  "strtok s ct x =
     (case x of (saved, m) \<Rightarrow>
        case (if s \<noteq> None then s else saved) of
          None \<Rightarrow> Some (None, saved, m)
        | Some sbegin \<Rightarrow>
            Option.bind (strspn sbegin ct m) (\<lambda>k.
              let sbegin = sbegin + k
              in if m sbegin = 0 then Some (None, None, m)
                 else Option.bind (strpbrk m sbegin ct) (\<lambda>send.
                   case send of
                     None \<Rightarrow> Some (Some sbegin, None, m)
                   | Some e \<Rightarrow> if m e \<noteq> 0 then Some (Some sbegin, Some (e + 1), m(e := 0))
                               else Some (Some sbegin, Some e, m))))"

text \<open>
  The outer loop of \<open>strstr\<close>, for a sought string that starts with \<open>c\<close> and goes on at \<open>fnd\<close>
  for \<open>len\<close> bytes.
\<close>

partial_function (option) strstr_loop :: "mem \<Rightarrow> u8 \<Rightarrow> nat \<Rightarrow> nat \<Rightarrow> nat \<Rightarrow> nat option option" where
  "strstr_loop m c fnd len s =
     (if m s = 0 then Some None
      else if m s = c \<and> strncmp (s + 1) fnd len m = 0 then Some (Some s)
      else strstr_loop m c fnd len (s + 1))"

definition strstr :: "nat \<Rightarrow> nat \<Rightarrow> mem \<Rightarrow> nat option option" where
  "strstr s fnd m =
     (if m fnd \<noteq> 0 then
        Option.bind (strlen (fnd + 1) m) (\<lambda>len. strstr_loop m (m fnd) (fnd + 1) len s)
      else Some (Some s))"
section \<open>Memory areas: what the functions do\<close>

lemma memcpy_apply: "memcpy d s n m x = (if d \<le> x \<and> x < d + n then m (s + (x - d)) else m x)"
  by (auto simp: memcpy_def mem_write_def)

lemma copy_forward_eq:
  assumes "d \<le> s \<or> s + n \<le> d"
  shows "copy_forward d s n m = memcpy d s n m"
  using assms
proof (induction n arbitrary: d s m)
  case (Suc n)
  have "copy_forward (d + 1) (s + 1) n (m(d := m s)) x = memcpy d s (Suc n) m x" for x
    using Suc.IH [of "d + 1" "s + 1"] Suc.prems
    by (cases "x = d") (auto simp: memcpy_apply Suc_diff_le[symmetric] not_less_eq_eq)
  then show ?case
    by (simp add: fun_eq_iff)
qed simp

lemma copy_backward_eq:
  assumes "s \<le> d \<or> d + n \<le> s"
  shows "copy_backward d s n m = memcpy d s n m"
  using assms
proof (induction n arbitrary: m)
  case (Suc n)
  have "copy_backward d s n (m(d + n := m (s + n))) x = memcpy d s (Suc n) m x" for x
    using Suc.IH Suc.prems by (cases "x = d + n") (auto simp: memcpy_apply)
  then show ?case
    by (simp add: fun_eq_iff)
qed simp

lemma memcpy_split:
  assumes "disjoint_areas d n s n" and "k \<le> n"
  shows "memcpy (d + k) (s + k) (n - k) (memcpy d s k m) = memcpy d s n m"
  using assms by (auto simp: fun_eq_iff memcpy_apply disjoint_areas_def)

lemma disjoint_areas_mono: "disjoint_areas d n s n \<Longrightarrow> k \<le> n \<Longrightarrow> disjoint_areas d k s k"
  by (auto simp: disjoint_areas_def)

lemma copy_align_eq:
  assumes "disjoint_areas d n s n" and "copy_align d s n m = (r, d', s', n', m')"
  shows "\<exists>k\<le>n. d' = d + k \<and> s' = s + k \<and> n' = n - k \<and> m' = memcpy d s k m \<and> (r \<longrightarrow> k = n)"
  using assms
proof (induction n arbitrary: d s m)
  case 0
  then show ?case
    by (simp add: copy_align.simps [of d] split: if_splits)
next
  case (Suc n)
  show ?case
  proof (cases "d AND 3 = 0")
    case True
    then show ?thesis
      using Suc.prems(2) by (intro exI [of _ 0]) (simp add: copy_align.simps [of d])
  next
    case False
    then have e: "copy_align (d + 1) (s + 1) n (m(d := m s)) = (r, d', s', n', m')"
      using Suc.prems(2) by (simp add: copy_align.simps [of d])
    have dj: "disjoint_areas (d + 1) n (s + 1) n"
      using Suc.prems(1) by (auto simp: disjoint_areas_def)
    obtain k where k: "k \<le> n" "d' = d + 1 + k" "s' = s + 1 + k" "n' = n - k"
        "m' = memcpy (d + 1) (s + 1) k (m(d := m s))" "r \<longrightarrow> k = n"
      using Suc.IH [OF dj e] by blast
    have "m(d := m s) = memcpy d s 1 m"
      by (auto simp: fun_eq_iff memcpy_apply)
    then have "m' = memcpy d s (Suc k) m"
      using k(1,5) memcpy_split [OF disjoint_areas_mono [OF Suc.prems(1)], of "Suc k" 1 m] by simp
    then show ?thesis
      using k by (intro exI [of _ "Suc k"]) simp
  qed
qed

lemma copy_words_eq:
  assumes "disjoint_areas d n s n" and "copy_words d s n m = (d', s', n', m')"
  shows "\<exists>k\<le>n. d' = d + k \<and> s' = s + k \<and> n' = n - k \<and> m' = memcpy d s k m"
  using assms
proof (induction d s n m rule: copy_words.induct)
  case (1 d s n m)
  show ?case
  proof (cases "n \<ge> 4")
    case True
    have e: "copy_words (d + 4) (s + 4) (n - 4) (memcpy d s 4 m) = (d', s', n', m')"
      using 1(3) True by (simp add: copy_words.simps [of d] memcpy_def)
    have dj: "disjoint_areas (d + 4) (n - 4) (s + 4) (n - 4)"
      using 1(2) True by (auto simp: disjoint_areas_def)
    obtain k where k: "k \<le> n - 4" "d' = d + 4 + k" "s' = s + 4 + k" "n' = n - 4 - k"
        "m' = memcpy (d + 4) (s + 4) k (memcpy d s 4 m)"
      using 1(1) [OF True dj] e by (auto simp: memcpy_def)
    have "m' = memcpy d s (k + 4) m"
      using k(1,5) memcpy_split [OF disjoint_areas_mono [OF 1(2)], of "k + 4" 4 m] True by simp
    then show ?thesis
      using k True by (intro exI [of _ "k + 4"]) (simp add: add.commute)
  next
    case False
    then show ?thesis
      using 1(3) by (intro exI [of _ 0]) (simp add: copy_words.simps [of d])
  qed
qed

lemma unat_address_diff:
  assumes "d < 2 ^ 32" and "s < 2 ^ 32"
  shows "unat (of_nat d - of_nat s :: u32) = (if s \<le> d then d - s else 2 ^ 32 + d - s)"
proof -
  have "uint (of_nat d - of_nat s :: u32) = (int d - int s) mod 2 ^ 32"
    using assms by (simp add: uint_word_ariths unsigned_of_nat take_bit_eq_mod)
  moreover have "(int d - int s) mod 2 ^ 32 = (if s \<le> d then int d - int s else 2 ^ 32 + int d - int s)"
  proof (cases "s \<le> d")
    case False
    have "(int d - int s) mod 2 ^ 32 = (2 ^ 32 + int d - int s) mod 2 ^ 32"
      using mod_add_self1 [of "2 ^ 32" "int d - int s"] by (simp only: add_diff_eq)
    also have "\<dots> = 2 ^ 32 + int d - int s"
      using assms False by (intro mod_pos_pos_trivial) auto
    finally show ?thesis
      using False by simp
  qed (use assms in \<open>simp add: mod_pos_pos_trivial\<close>)
  ultimately show ?thesis
    by (simp add: unat_eq_nat_uint nat_diff_distrib split: if_splits)
qed

text \<open>
  C36: Copying memory. On areas that do not overlap, the copy in words with its byte-wise start
  and end gives what a copy byte by byte gives, for every alignment; and \<open>memmove\<close> gives the
  bytes the source had before, however the areas overlap, as long as they do not wrap around
  the address space.
\<close>

theorem memcpy_memmove_copy:
  assumes "disjoint_areas d n s n" and "s' + n < 2 ^ 32" and "d' + n < 2 ^ 32"
  shows "libc_memcpy d s n m = memcpy d s n m \<and> memmove d' s' n m = memcpy d' s' n m"
proof
  have fwd: "copy_forward (d + k) (s + k) (n - k) m' = memcpy (d + k) (s + k) (n - k) m'" if "k \<le> n" for k m'
    using assms(1) that by (intro copy_forward_eq) (auto simp: disjoint_areas_def)
  obtain r d1 s1 n1 m1 where a: "copy_align d s n m = (r, d1, s1, n1, m1)"
    by (cases "copy_align d s n m")
  obtain k where k: "k \<le> n" "d1 = d + k" "s1 = s + k" "n1 = n - k" "m1 = memcpy d s k m" "r \<longrightarrow> k = n"
    using copy_align_eq [OF assms(1) a] by blast
  then have rm: "r \<Longrightarrow> m1 = memcpy d s n m"
    by simp
  obtain d2 s2 n2 m2 where w: "copy_words d1 s1 n1 m1 = (d2, s2, n2, m2)"
    by (cases "copy_words d1 s1 n1 m1")
  have dj: "disjoint_areas d1 n1 s1 n1"
    using assms(1) k by (auto simp: disjoint_areas_def)
  obtain j where j: "j \<le> n1" "d2 = d1 + j" "s2 = s1 + j" "n2 = n1 - j" "m2 = memcpy d1 s1 j m1"
    using copy_words_eq [OF dj w] by blast
  have "m2 = memcpy d s (k + j) m"
    using memcpy_split [OF disjoint_areas_mono [OF assms(1)], of "k + j" k m] k j by simp
  moreover have "memcpy (d + (k + j)) (s + (k + j)) (n - (k + j)) (memcpy d s (k + j) m) = memcpy d s n m"
    using k j by (intro memcpy_split assms(1)) simp
  ultimately have "copy_forward d2 s2 n2 m2 = memcpy d s n m"
    using fwd [of "k + j" m2] k(1-4) j(1-4) by (simp add: add.assoc)
  then show "libc_memcpy d s n m = memcpy d s n m"
    using fwd [of 0 m] rm by (simp add: libc_memcpy_def a w)
  show "memmove d' s' n m = memcpy d' s' n m"
  proof -
    have n: "unat (of_nat n :: u32) = n"
      using assms(2) by (simp only: unsigned_of_nat) (simp add: take_bit_nat_eq_self)
    have "\<not> s' \<le> d' \<Longrightarrow> \<not> 2 ^ 32 + d' - s' < n"
      using assms(2) by linarith
    then have c: "(of_nat d' - of_nat s' :: u32) < of_nat n \<longleftrightarrow> s' \<le> d' \<and> d' - s' < n"
      using assms(2,3) by (simp only: word_less_nat_alt unat_address_diff n split: if_split) auto
    show ?thesis
    proof (cases "s' \<le> d' \<and> d' - s' < n")
      case True
      then show ?thesis
        by (simp add: memmove_def c copy_backward_eq)
    next
      case False
      then have "d' \<le> s' \<or> s' + n \<le> d'"
        by linarith
      then show ?thesis
        using False by (simp only: memmove_def c if_False copy_forward_eq)
    qed
  qed
qed
theorem memcpy_memmove_copy_witness:
  "mem_read 8 9 (libc_memcpy 8 100 9 (\<lambda>x. of_nat x)) = [100, 101, 102, 103, 104, 105, 106, 107, 108] \<and>
   mem_read 2 5 (memmove 2 0 5 (\<lambda>x. of_nat x)) = [0, 1, 2, 3, 4]"
  using memcpy_memmove_copy [of 8 9 100 0 2 "\<lambda>x. of_nat x"] memcpy_memmove_copy [of 8 5 100 0 2 "\<lambda>x. of_nat x"]
  by (simp add: disjoint_areas_def) (simp add: mem_read_def upt_rec)

lemma fill_split:
  "mem_write (d + k) (replicate (n - k) c) (mem_write d (replicate k c) m) = mem_write d (replicate n c) m" if "k \<le> n"
  using that by (auto simp: fun_eq_iff mem_write_def)

lemma set_bytes_eq: "set_bytes d c n m = mem_write d (replicate n c) m"
proof (induction n arbitrary: d m)
  case (Suc n)
  have "m(d := c) = mem_write d (replicate 1 c) m"
    by (auto simp: fun_eq_iff mem_write_def)
  then show ?case
    using Suc fill_split [of 1 "Suc n" d c m] by simp
qed simp

lemma set_align_eq:
  assumes "set_align d c n m = (r, d', n', m')"
  shows "\<exists>k\<le>n. d' = d + k \<and> n' = n - k \<and> m' = mem_write d (replicate k c) m \<and> (r \<longrightarrow> k = n)"
  using assms
proof (induction n arbitrary: d m)
  case 0
  then show ?case
    by (simp add: set_align.simps [of d] split: if_splits)
next
  case (Suc n)
  show ?case
  proof (cases "d AND 3 = 0")
    case True
    then show ?thesis
      using Suc.prems by (intro exI [of _ 0]) (simp add: set_align.simps [of d])
  next
    case False
    then have "set_align (d + 1) c n (m(d := c)) = (r, d', n', m')"
      using Suc.prems by (simp add: set_align.simps [of d])
    then obtain k where k: "k \<le> n" "d' = d + 1 + k" "n' = n - k"
        "m' = mem_write (d + 1) (replicate k c) (m(d := c))" "r \<longrightarrow> k = n"
      using Suc.IH by blast
    have "m(d := c) = mem_write d (replicate 1 c) m"
      by (auto simp: fun_eq_iff mem_write_def)
    then have "m' = mem_write d (replicate (Suc k) c) m"
      using k(4) fill_split [of 1 "Suc k" d c m] by simp
    then show ?thesis
      using k by (intro exI [of _ "Suc k"]) simp
  qed
qed

lemma store_word_bytes:
  fixes c :: u8
  assumes "w = ucast c OR push_bit 8 (ucast c)"
  shows "store_word d (w OR push_bit 16 w) = mem_write d (replicate 4 c)"
proof -
  let ?w = "w OR push_bit 16 w :: u32"
  have "ucast ?w = c" "ucast (drop_bit 8 ?w) = c" "ucast (drop_bit 16 ?w) = c" "ucast (drop_bit 24 ?w) = c"
    by (rule bit_word_eqI; auto simp: assms bit_simps dest: bit_imp_le_length)+
  then show ?thesis
    by (simp add: store_word_def numeral_eq_Suc)
qed

lemma set_words_eq:
  assumes w: "\<And>d. store_word d w = mem_write d (replicate 4 c)" and "set_words d w n m = (d', n', m')"
  shows "\<exists>k\<le>n. d' = d + k \<and> n' = n - k \<and> m' = mem_write d (replicate k c) m"
  using assms(2)
proof (induction n arbitrary: d m rule: less_induct)
  case (less n)
  show ?case
  proof (cases "n \<ge> 4")
    case True
    then have "set_words (d + 4) w (n - 4) (mem_write d (replicate 4 c) m) = (d', n', m')"
      using less.prems by (simp add: set_words.simps [of d] w)
    moreover have "n - 4 < n"
      using True by simp
    ultimately obtain k where k: "k \<le> n - 4" "d' = d + 4 + k" "n' = n - 4 - k"
        "m' = mem_write (d + 4) (replicate k c) (mem_write d (replicate 4 c) m)"
      using less.IH by blast
    then have "m' = mem_write d (replicate (k + 4) c) m"
      using fill_split [of 4 "k + 4" d c m] by simp
    then show ?thesis
      using k True by (intro exI [of _ "k + 4"]) (simp add: add.commute)
  next
    case False
    then show ?thesis
      using less.prems by (intro exI [of _ 0]) (simp add: set_words.simps [of d])
  qed
qed

text \<open>
  Filling memory. \<open>memset\<close> stores the low byte of its argument in exactly the \<open>n\<close> bytes of
  the area, for every alignment.
\<close>

theorem memset_fills: "libc_memset buf c n m = mem_write buf (replicate n (ucast c)) m"
proof -
  define b where "b = (ucast c :: u8)"
  define w where "w = (ucast b OR push_bit 8 (ucast b) :: u32)"
  obtain r d1 n1 m1 where a: "set_align buf b n m = (r, d1, n1, m1)"
    by (cases "set_align buf b n m")
  obtain k where k: "k \<le> n" "d1 = buf + k" "n1 = n - k" "m1 = mem_write buf (replicate k b) m" "r \<longrightarrow> k = n"
    using set_align_eq [OF a] by blast
  obtain d2 n2 m2 where s: "set_words d1 (w OR push_bit 16 w) n1 m1 = (d2, n2, m2)"
    by (cases "set_words d1 (w OR push_bit 16 w) n1 m1")
  obtain j where j: "j \<le> n1" "d2 = d1 + j" "n2 = n1 - j" "m2 = mem_write d1 (replicate j b) m1"
    using set_words_eq [OF store_word_bytes [OF w_def] s] by blast
  have "m2 = mem_write buf (replicate (k + j) b) m"
    using fill_split [of k "k + j" buf b m] k j by simp
  then have "set_bytes d2 b n2 m2 = mem_write buf (replicate n b) m"
    using fill_split [of "k + j" n buf b m] k(1-3) j(1-3) by (simp add: set_bytes_eq add.assoc)
  moreover have "r \<Longrightarrow> m1 = mem_write buf (replicate n b) m"
    using k by simp
  ultimately show ?thesis
    unfolding libc_memset_def Let_def b_def [symmetric] w_def [symmetric] a by (simp add: s)
qed
section \<open>Strings: what the functions do\<close>

text \<open>The string \<open>xs\<close> stands at \<open>s\<close>, followed by its terminating zero.\<close>

primrec cstr :: "mem \<Rightarrow> nat \<Rightarrow> u8 list \<Rightarrow> bool" where
  "cstr m s [] \<longleftrightarrow> m s = 0"
| "cstr m s (x # xs) \<longleftrightarrow> x \<noteq> 0 \<and> m s = x \<and> cstr m (s + 1) xs"

lemma cstr_cong:
  "(\<And>x. s \<le> x \<Longrightarrow> x \<le> s + length xs \<Longrightarrow> m' x = m x) \<Longrightarrow> cstr m' s xs = cstr m s xs"
  by (induction xs arbitrary: s) auto

lemma cstr_iff: "cstr m s xs \<longleftrightarrow> 0 \<notin> set xs \<and> mem_read s (length xs) m = xs \<and> m (s + length xs) = 0"
proof (induction xs arbitrary: s)
  case (Cons x xs)
  have "mem_read s (Suc (length xs)) m = m s # mem_read (Suc s) (length xs) m"
    by (simp add: mem_read_def upt_conv_Cons map_Suc_upt [symmetric] del: upt_Suc)
  then show ?case
    using Cons [of "Suc s"] by auto
qed (simp add: mem_read_def)

lemma cstr_append: "cstr m s (xs @ ys) \<longleftrightarrow> 0 \<notin> set xs \<and> mem_read s (length xs) m = xs \<and> cstr m (s + length xs) ys"
  by (simp add: cstr_iff mem_read_add add.assoc) blast

lemma cstr_write: "0 \<notin> set xs \<Longrightarrow> cstr (mem_write d (xs @ [0]) m) d xs"
  using mem_read_write_same [of "length xs + 1" "xs @ [0]" d m]
  by (simp only: mem_read_add cstr_iff) (simp add: mem_read_def)

lemma strlen_loop_eq: "cstr m s xs \<Longrightarrow> strlen_loop m s n = Some (n + length xs)"
  by (induction xs arbitrary: s n) (subst strlen_loop.simps, simp)+

lemma strlen_eq: "cstr m s xs \<Longrightarrow> strlen s m = Some (length xs)"
  by (simp add: strlen_def strlen_loop_eq)

lemma mem_write_Cons: "mem_write d (x # xs) m = mem_write (Suc d) xs (m(d := x))"
proof
  show "mem_write d (x # xs) m y = mem_write (Suc d) xs (m(d := x)) y" for y
    by (cases "y \<le> d") (auto simp: mem_write_def nth_Cons')
qed

lemma strcpy_eq:
  assumes "cstr m s xs" and "disjoint_areas d (length xs + 1) s (length xs + 1)"
  shows "strcpy d s m = Some (mem_write d (xs @ [0]) m)"
  using assms
proof (induction xs arbitrary: d s m)
  case Nil
  then show ?case
    by (subst strcpy.simps) (simp add: mem_write_Cons)
next
  case (Cons x xs)
  have "cstr (m(d := x)) (s + 1) xs"
    using Cons.prems by (subst cstr_cong [where m = m]) (auto simp: disjoint_areas_def)
  moreover have "disjoint_areas (d + 1) (length xs + 1) (s + 1) (length xs + 1)"
    using Cons.prems(2) by (auto simp: disjoint_areas_def)
  ultimately have "strcpy (d + 1) (s + 1) (m(d := x)) = Some (mem_write (d + 1) (xs @ [0]) (m(d := x)))"
    using Cons.IH by blast
  then show ?case
    using Cons.prems(1) by (subst strcpy.simps) (simp add: mem_write_Cons)
qed

lemma sint_eq_iff: "sint (x :: u8) = sint y \<longleftrightarrow> x = y"
  by (auto intro: signed_word_eqI)

lemma sint_ascii:
  assumes "(c :: u8) < 0x80"
  shows "sint c = uint c"
proof -
  have "uint c < 128"
    using assms by (simp add: word_less_def)
  moreover have "- 128 \<le> uint c"
    by (rule order_trans [of _ 0]) simp_all
  ultimately show ?thesis
    by (simp add: sint_uint signed_take_bit_int_eq_self)
qed

lemma uint_pos_iff: "0 < uint (c :: u8) \<longleftrightarrow> c \<noteq> 0"
  by (auto simp: order_less_le uint_0_iff)

lemma strcmp_eq:
  assumes "cstr m a xs" and "cstr m b ys"
  shows "\<exists>r. strcmp m a b = Some r \<and> (r = 0 \<longleftrightarrow> xs = ys) \<and>
    ((\<forall>c\<in>set xs \<union> set ys. c < 0x80) \<longrightarrow> (r < 0 \<longleftrightarrow> (xs, ys) \<in> lexord {(x, y). x < y}))"
  using assms
proof (induction xs arbitrary: a b ys)
  case Nil
  then have "strcmp m a b = Some (sint (0 :: u8) - sint (m b))"
    by (subst strcmp.simps) auto
  then show ?case
    using Nil.prems(2) sint_eq_iff [of 0 "m b"] sint_ascii [of "m b"]
    by (cases ys) (auto simp: word_less_def uint_pos_iff)
next
  case (Cons x xs)
  show ?case
  proof (cases "ys \<noteq> [] \<and> hd ys = x")
    case True
    then obtain ys' where ys: "ys = x # ys'"
      by (cases ys) auto
    then have "strcmp m a b = strcmp m (a + 1) (b + 1)"
      using Cons.prems by (subst strcmp.simps) simp
    then show ?thesis
      using Cons.IH [of "a + 1" "b + 1" ys'] Cons.prems ys by auto
  next
    case False
    then have ne: "m b \<noteq> x" and b: "m b = (case ys of [] \<Rightarrow> 0 | y # _ \<Rightarrow> y)"
      using Cons.prems by (cases ys; auto)+
    have "strcmp m a b = Some (sint x - sint (m b))"
      using Cons.prems ne by (subst strcmp.simps) auto
    moreover have "sint x \<noteq> sint (m b)"
      using ne sint_eq_iff [of x "m b"] by simp
    moreover have "sint x < sint (m b) \<longleftrightarrow> (x # xs, ys) \<in> lexord {(x, y). x < y}"
      if "\<forall>c\<in>set (x # xs) \<union> set ys. c < 0x80"
      using that False b sint_ascii [of x] sint_ascii [of "m b"] by (cases ys) (auto simp: word_less_def)
    ultimately show ?thesis
      using False by auto
  qed
qed


section \<open>Splitting a string\<close>

lemma str_has_eq: "cstr m a ds \<Longrightarrow> str_has m c a = Some (c \<in> set ds)"
  by (induction ds arbitrary: a) (subst str_has.simps, auto)+

lemma strspn_loop_eq:
  "cstr m p xs \<Longrightarrow> cstr m a ds \<Longrightarrow> strspn_loop m p a n = Some (n + length (takeWhile (\<lambda>c. c \<in> set ds) xs))"
  by (induction xs arbitrary: p n) (subst strspn_loop.simps, auto simp: str_has_eq)+

lemma strpbrk_eq:
  "cstr m p xs \<Longrightarrow> cstr m a ds \<Longrightarrow> strpbrk m p a =
     Some (if set xs \<inter> set ds = {} then None else Some (p + length (takeWhile (\<lambda>c. c \<notin> set ds) xs)))"
proof (induction xs arbitrary: p)
  case (Cons x xs)
  have "strpbrk m p a = (if x \<in> set ds then Some (Some p) else strpbrk m (p + 1) a)"
    using Cons.prems by (subst strpbrk.simps) (simp add: str_has_eq)
  then show ?case
    using Cons.IH [of "p + 1"] Cons.prems by auto
qed (subst strpbrk.simps, simp)

text \<open>The tokens of a string: the longest runs of bytes that are not delimiters.\<close>

function tokens :: "u8 set \<Rightarrow> u8 list \<Rightarrow> u8 list list" where
  "tokens ds xs =
     (let ys = dropWhile (\<lambda>c. c \<in> ds) xs
      in if ys = [] then [] else takeWhile (\<lambda>c. c \<notin> ds) ys # tokens ds (tl (dropWhile (\<lambda>c. c \<notin> ds) ys)))"
  by pat_completeness auto

termination tokens
proof (relation "measure (\<lambda>(ds, xs). length xs)")
  fix ds :: "u8 set" and xs ys :: "u8 list"
  assume ys: "ys = dropWhile (\<lambda>c. c \<in> ds) xs" "ys \<noteq> []"
  have "length (dropWhile (\<lambda>c. c \<notin> ds) ys) \<le> length ys" "length ys \<le> length xs" "0 < length ys"
    using length_dropWhile_le [of _ ys] length_dropWhile_le [of "\<lambda>c. c \<in> ds" xs] ys by simp_all
  then have "length (tl (dropWhile (\<lambda>c. c \<notin> ds) ys)) < length xs"
    unfolding length_tl by linarith
  then show "((ds, tl (dropWhile (\<lambda>c. c \<notin> ds) ys)), ds, xs) \<in> measure (\<lambda>(ds, xs). length xs)"
    by simp
qed simp

declare tokens.simps [simp del]

text \<open>The usual loop: calls with a null pointer until \<open>strtok\<close> returns one, at most \<open>n\<close> of them.\<close>

fun strtok_run :: "nat \<Rightarrow> nat \<Rightarrow> nat option \<times> mem \<Rightarrow> (nat list \<times> mem) option" where
  "strtok_run 0 ct x = Some ([], snd x)"
| "strtok_run (Suc n) ct x =
     Option.bind (strtok None ct x) (\<lambda>(p, x).
       case p of None \<Rightarrow> Some ([], snd x) | Some p \<Rightarrow> map_option (apfst ((#) p)) (strtok_run n ct x))"

lemma cstr_drop: "cstr m p xs \<Longrightarrow> n \<le> length xs \<Longrightarrow> cstr m (p + n) (drop n xs)"
proof (induction xs arbitrary: p n)
  case (Cons x xs)
  then show ?case
    using Cons.IH [of "p + 1" "n - 1"] by (cases n) auto
qed simp

lemma dropWhile_drop: "dropWhile P xs = drop (length (takeWhile P xs)) xs"
  by (induction xs) auto

text \<open>One call, on a string with a token.\<close>

lemma strtok_token:
  assumes xs: "cstr m p xs" and ds: "cstr m ct ds" and ys: "ys = dropWhile (\<lambda>c. c \<in> set ds) xs" "ys \<noteq> []"
    and t: "t = takeWhile (\<lambda>c. c \<notin> set ds) ys" and q: "q = p + length (takeWhile (\<lambda>c. c \<in> set ds) xs)"
  shows "strtok None ct (Some p, m) =
    (if t = ys then Some (Some q, None, m) else Some (Some q, Some (q + length t + 1), m(q + length t := 0)))"
proof -
  have cy: "cstr m q ys"
    using cstr_drop [OF xs, of "length (takeWhile (\<lambda>c. c \<in> set ds) xs)"] by (simp add: ys dropWhile_drop q length_takeWhile_le)
  then have "m q \<noteq> 0"
    using ys(2) by (cases ys) auto
  have iff: "set ys \<inter> set ds = {} \<longleftrightarrow> t = ys"
    unfolding t takeWhile_eq_all_conv by auto
  have "m (q + length t) \<noteq> 0" if "t \<noteq> ys"
  proof -
    have "length t < length ys"
      using that t by (metis length_takeWhile_le le_neq_implies_less takeWhile_eq_take take_all_iff order_refl)
    then show ?thesis
      using cy cstr_iff [of m q ys] by (metis mem_read_nth nth_mem)
  qed
  then show ?thesis
    using strspn_loop_eq [OF xs ds, of 0] strpbrk_eq [OF cy ds] \<open>m q \<noteq> 0\<close> iff
    by (auto simp: strtok_def strspn_def q t)
qed
lemma strtok_run_none: "strtok_run n ct (None, m) = Some ([], m)"
  by (cases n) (simp_all add: strtok_def)

lemma strtok_run_splits:
  assumes "cstr m p xs" and "cstr m ct ds" and "disjoint_areas p (length xs + 1) ct (length ds + 1)"
    and "length xs < n"
  shows "\<exists>ps m'. strtok_run n ct (Some p, m) = Some (ps, m') \<and> list_all2 (cstr m') ps (tokens (set ds) xs) \<and>
    (\<forall>x. x < p \<or> p + length xs < x \<longrightarrow> m' x = m x)"
  using assms
proof (induction "length xs" arbitrary: xs p m n rule: less_induct)
  case less
  note xs = less.prems(1) and ds = less.prems(2)
  define ys where "ys = dropWhile (\<lambda>c. c \<in> set ds) xs"
  define t where "t = takeWhile (\<lambda>c. c \<notin> set ds) ys"
  define q where "q = p + length (takeWhile (\<lambda>c. c \<in> set ds) xs)"
  define rest where "rest = tl (dropWhile (\<lambda>c. c \<notin> set ds) ys)"
  obtain n' where n: "n = Suc n'"
    using less.prems(4) by (cases n) auto
  have len: "length xs + p = length ys + q"
    using length_append [of "takeWhile (\<lambda>c. c \<in> set ds) xs" ys] by (simp add: ys_def q_def)
  show ?case
  proof (cases "ys = []")
    case True
    then have "length (takeWhile (\<lambda>c. c \<in> set ds) xs) = length xs" "m (p + length xs) = 0"
      using xs cstr_iff [of m p xs] len by (simp_all add: q_def)
    then have "strtok None ct (Some p, m) = Some (None, None, m)"
      using strspn_loop_eq [OF xs ds, of 0] by (simp add: strtok_def strspn_def)
    then show ?thesis
      using True by (simp add: n tokens.simps [of _ xs] ys_def)
  next
    case False
    note tok = strtok_token [OF xs ds ys_def False t_def q_def]
    have tk: "tokens (set ds) xs = t # tokens (set ds) rest"
      using False by (subst tokens.simps) (simp add: Let_def ys_def t_def rest_def)
    have cy: "cstr m q ys"
      using cstr_drop [OF xs, of "length (takeWhile (\<lambda>c. c \<in> set ds) xs)"]
      by (simp add: ys_def dropWhile_drop q_def length_takeWhile_le)
    show ?thesis
    proof (cases "t = ys")
      case True
      then have "rest = []"
        unfolding rest_def t_def by (metis append_self_conv takeWhile_dropWhile_id list.sel(2))
      then have "tokens (set ds) xs = [ys]"
        using tk True by (simp add: tokens.simps [of _ "[]"])
      then show ?thesis
        using tok True cy by (simp add: n strtok_run_none)
    next
      case False
      define m1 where "m1 = m(q + length t := 0)"
      let ?r = "dropWhile (\<lambda>c. c \<notin> set ds) ys"
      have r: "ys = t @ ?r" "?r \<noteq> []"
        using False by (simp_all add: t_def)
      then have ly: "length ys = length t + 1 + length rest"
        by (metis length_append length_Cons list.collapse rest_def add.assoc add.commute plus_1_eq_Suc)
      have sp: "0 \<notin> set t" "mem_read q (length t) m = t" "cstr m (q + length t) ?r"
        using cy r(1) cstr_append [of m q t ?r] by simp_all
      have "cstr m (q + length t + 1) rest"
        using sp(3) r(2) by (cases ?r) (auto simp: rest_def)
      then have c1: "cstr m1 (q + length t + 1) rest"
        by (subst cstr_cong [where m = m]) (auto simp: m1_def)
      have ct: "cstr m1 ct ds"
        using ds less.prems(3) len ly
        by (subst cstr_cong [where m = m]) (auto simp: m1_def disjoint_areas_def q_def)
      have lt: "length rest < length xs" "length rest < n'"
        using len ly less.prems(4) n by (simp_all add: q_def)
      have dj: "disjoint_areas (q + length t + 1) (length rest + 1) ct (length ds + 1)"
        using less.prems(3) len ly by (auto simp: disjoint_areas_def q_def)
      obtain ps m' where ih: "strtok_run n' ct (Some (q + length t + 1), m1) = Some (ps, m')"
          "list_all2 (cstr m') ps (tokens (set ds) rest)"
          "\<forall>x. x < q + length t + 1 \<or> q + length t + 1 + length rest < x \<longrightarrow> m' x = m1 x"
        using less.hyps [OF lt(1) c1 ct dj lt(2)] by blast
      have "mem_read q (length t) m1 = mem_read q (length t) m"
        by (rule nth_equalityI) (auto simp: m1_def)
      then have "cstr m1 q t"
        using sp(1,2) by (simp add: cstr_iff) (simp add: m1_def)
      then have "cstr m' q t"
        using ih(3) by (subst cstr_cong [where m = m1]) auto
      moreover have "\<forall>x. x < p \<or> p + length xs < x \<longrightarrow> m' x = m x"
        using ih(3) len ly by (auto simp: m1_def q_def)
      moreover have "strtok_run n ct (Some p, m) = Some (q # ps, m')"
        using tok False ih(1) by (simp add: n m1_def)
      ultimately show ?thesis
        using tk ih(2) by auto
    qed
  qed
qed

text \<open>
  C38: Splitting a string. Calling \<open>strtok\<close> with the string and then with null pointers gives,
  one after the other, exactly the tokens of the string, each terminated in place and
  still intact after the last call; it ends with a null pointer and touches no byte outside
  the string.
\<close>

theorem strtok_splits:
  assumes "cstr m s xs" and "cstr m ct ds" and "disjoint_areas s (length xs + 1) ct (length ds + 1)"
  shows "strtok (Some s) ct (saved, m) = strtok None ct (Some s, m) \<and>
    (\<exists>ps m'. strtok_run (length xs + 1) ct (Some s, m) = Some (ps, m') \<and>
       list_all2 (cstr m') ps (tokens (set ds) xs) \<and> (\<forall>x. x < s \<or> s + length xs < x \<longrightarrow> m' x = m x))"
  using strtok_run_splits [OF assms, of "length xs + 1"] by (simp add: strtok_def)

theorem strtok_splits_witness:
  "\<exists>p1 p2 m'. strtok_run 6 3 (Some 10, mem_write 3 [0x20, 0] (mem_write 10 [0x20, 0x61, 0x62, 0x20, 0x63, 0] (\<lambda>_. 1))) =
     Some ([p1, p2], m') \<and> cstr m' p1 [0x61, 0x62] \<and> cstr m' p2 [0x63]"
proof -
  let ?m = "mem_write 3 [0x20, 0] (mem_write 10 [0x20, 0x61, 0x62, 0x20, 0x63, 0] (\<lambda>_. 1)) :: mem"
  have t: "tokens (set [0x20]) [0x20, 0x61, 0x62, 0x20, 0x63] = [[0x61, 0x62], [0x63]]"
    by (simp add: tokens.simps)
  have l: "length [0x20, 0x61, 0x62, 0x20, 0x63 :: u8] + 1 = 6"
    by simp
  have "cstr ?m 10 [0x20, 0x61, 0x62, 0x20, 0x63]" "cstr ?m 3 [0x20]"
    by (simp_all add: mem_write_Cons)
  from strtok_splits [OF this, of None, unfolded l t] show ?thesis
    by (fastforce simp: disjoint_areas_def list_all2_Cons2)
qed
section \<open>Searching and comparing\<close>

lemma strncmp_prefix:
  assumes "cstr m a xs" and "cstr m b ys"
  shows "strncmp a b (length ys) m = 0 \<longleftrightarrow> take (length ys) xs = ys"
  using assms
proof (induction ys arbitrary: a b xs)
  case (Cons y ys)
  then show ?case
    using Cons.IH [of "a + 1" "tl xs" "b + 1"] sint_eq_iff [of "m a" y]
    by (cases xs) auto
qed simp

lemma strstr_loop_eq:
  assumes "cstr m s xs" and "cstr m f (c # ys)"
  shows "\<exists>r. strstr_loop m c (f + 1) (length ys) s = Some r \<and>
    (case r of None \<Rightarrow> \<forall>i\<le>length xs. take (Suc (length ys)) (drop i xs) \<noteq> c # ys
     | Some q \<Rightarrow> \<exists>i\<le>length xs. q = s + i \<and> take (Suc (length ys)) (drop i xs) = c # ys \<and>
         (\<forall>j<i. take (Suc (length ys)) (drop j xs) \<noteq> c # ys))"
  using assms(1)
proof (induction xs arbitrary: s)
  case Nil
  then show ?case
    by (subst strstr_loop.simps) auto
next
  case (Cons x xs)
  have hit: "m s = c \<and> strncmp (s + 1) (f + 1) (length ys) m = 0 \<longleftrightarrow> take (Suc (length ys)) (x # xs) = c # ys"
    using Cons.prems assms(2) strncmp_prefix [of m "s + 1" xs "f + 1" ys] by auto
  show ?case
  proof (cases "take (Suc (length ys)) (x # xs) = c # ys")
    case True
    then show ?thesis
      using hit Cons.prems by (subst strstr_loop.simps) auto
  next
    case False
    then have e: "strstr_loop m c (f + 1) (length ys) s = strstr_loop m c (f + 1) (length ys) (s + 1)"
      using hit Cons.prems by (subst strstr_loop.simps) auto
    obtain r where r: "strstr_loop m c (f + 1) (length ys) (s + 1) = Some r"
        "case r of None \<Rightarrow> \<forall>i\<le>length xs. take (Suc (length ys)) (drop i xs) \<noteq> c # ys
         | Some q \<Rightarrow> \<exists>i\<le>length xs. q = s + 1 + i \<and> take (Suc (length ys)) (drop i xs) = c # ys \<and>
             (\<forall>j<i. take (Suc (length ys)) (drop j xs) \<noteq> c # ys)"
      using Cons.IH [of "s + 1"] Cons.prems by auto
    show ?thesis
    proof (cases r)
      case None
      then have "take (Suc (length ys)) (drop i (x # xs)) \<noteq> c # ys" if "i \<le> length (x # xs)" for i
        using r(2) that False by (cases i) auto
      then show ?thesis
        using e r(1) None by simp
    next
      case (Some q)
      then obtain i where i: "i \<le> length xs" "q = s + 1 + i" "take (Suc (length ys)) (drop i xs) = c # ys"
          "\<forall>j<i. take (Suc (length ys)) (drop j xs) \<noteq> c # ys"
        using r(2) by auto
      then have "take (Suc (length ys)) (drop j (x # xs)) \<noteq> c # ys" if "j < Suc i" for j
        using that False by (cases j) auto
      then show ?thesis
        using e r(1) Some i by (auto intro!: exI [of _ "Suc i"])
    qed
  qed
qed

text \<open>
  Searching a string. On strings that end, \<open>strstr\<close> returns: the address of the first place
  where the sought string occurs, or the null pointer if there is none.
\<close>

theorem strstr_first:
  assumes "cstr m s xs" and "cstr m f ys"
  shows "\<exists>r. strstr s f m = Some r \<and>
    (case r of None \<Rightarrow> \<forall>i\<le>length xs. take (length ys) (drop i xs) \<noteq> ys
     | Some q \<Rightarrow> \<exists>i\<le>length xs. q = s + i \<and> take (length ys) (drop i xs) = ys \<and>
         (\<forall>j<i. take (length ys) (drop j xs) \<noteq> ys))"
proof (cases ys)
  case Nil
  then show ?thesis
    using assms(2) by (auto simp: strstr_def)
next
  case (Cons c ys')
  then have "strstr s f m = strstr_loop m c (f + 1) (length ys') s"
    using assms(2) strlen_eq [of m "f + 1" ys'] by (simp add: strstr_def)
  then show ?thesis
    using strstr_loop_eq [OF assms(1), of f c ys'] assms(2) unfolding Cons length_Cons by simp
qed

theorem strstr_first_witness:
  "strstr 10 3 (mem_write 3 [0x62, 0x63, 0] (mem_write 10 [0x61, 0x62, 0x62, 0x63, 0] (\<lambda>_. 1))) = Some (Some 12)"
proof -
  let ?m = "mem_write 3 [0x62, 0x63, 0] (mem_write 10 [0x61, 0x62, 0x62, 0x63, 0] (\<lambda>_. 1)) :: mem"
  have "cstr ?m 10 [0x61, 0x62, 0x62, 0x63]" "cstr ?m 3 [0x62, 0x63]"
    by (simp_all add: mem_write_Cons)
  note f = strstr_first [OF this]
  have l: "length [0x62, 0x63 :: u8] = 2" "length [0x61, 0x62, 0x62, 0x63 :: u8] = 4"
    by simp_all
  from f [unfolded l] obtain r where r: "strstr 10 3 ?m = Some r"
    "case r of None \<Rightarrow> \<forall>i\<le>4. take 2 (drop i [0x61, 0x62, 0x62, 0x63]) \<noteq> [0x62, 0x63 :: u8]
     | Some q \<Rightarrow> \<exists>i\<le>4. q = 10 + i \<and> take 2 (drop i [0x61, 0x62, 0x62, 0x63]) = [0x62, 0x63 :: u8] \<and>
         (\<forall>j<i. take 2 (drop j [0x61, 0x62, 0x62, 0x63]) \<noteq> [0x62, 0x63 :: u8])"
    by blast
  have "i = 2" if "i \<le> 4" "take 2 (drop i [0x61, 0x62, 0x62, 0x63]) = [0x62, 0x63 :: u8]" for i
    using that by (auto simp: le_Suc_eq numeral_eq_Suc)
  then have "r = Some 12"
    using r(2) by (auto dest: spec [of _ 2] split: option.splits)
  then show ?thesis
    using r(1) by simp
qed

lemma memcmp_loop_eq:
  "(memcmp_loop n a b m = 0 \<longleftrightarrow> mem_read a (Suc n) m = mem_read b (Suc n) m)"
proof (induction n arbitrary: a b)
  case 0
  then show ?case
    by (simp add: mem_read_def sint_eq_iff)
next
  case (Suc n)
  have "mem_read a (Suc (Suc n)) m = m a # mem_read (Suc a) (Suc n) m" for a
    using mem_read_add [of a 1 "Suc n" m] by (simp add: mem_read_def)
  then show ?case
    using Suc [of "Suc a" "Suc b"] sint_eq_iff [of "m a" "m b"] by simp
qed

text \<open>
  Comparing memory. \<open>memcmp\<close> returns 0 exactly for equal areas. Its sign, however, is that of
  signed bytes: an area that starts with 0x80 compares below one that starts with 0x7f, though
  the function is specified for unsigned bytes.
\<close>

theorem memcmp_signed:
  "(memcmp a b n m = 0 \<longleftrightarrow> mem_read a n m = mem_read b n m) \<and>
   (m a = 0x80 \<and> m b = 0x7f \<and> 0 < n \<longrightarrow> memcmp a b n m = - 255)"
proof
  show "memcmp a b n m = 0 \<longleftrightarrow> mem_read a n m = mem_read b n m"
    using memcmp_loop_eq by (cases n) (simp_all add: memcmp_def)
  show "m a = 0x80 \<and> m b = 0x7f \<and> 0 < n \<longrightarrow> memcmp a b n m = - 255"
  proof
    assume *: "m a = 0x80 \<and> m b = 0x7f \<and> 0 < n"
    then obtain k where "n = Suc k"
      by (cases n) auto
    then show "memcmp a b n m = - 255"
      using * by (cases k) (simp_all add: memcmp_def)
  qed
qed

text \<open>
  \<open>strncpy\<close> stores the string and at most one zero: the rest of the \<open>n\<close> bytes keeps its
  contents, and there is no zero at all when the string is \<open>n\<close> bytes or longer.
\<close>

theorem strncpy_does_not_pad:
  assumes "cstr m s xs" and "disjoint_areas d n s (length xs + 1)"
  shows "strncpy d s n m = mem_write d (take n (xs @ [0])) m"
  using assms
proof (induction n arbitrary: d s m xs)
  case (Suc n)
  show ?case
  proof (cases xs)
    case Nil
    then show ?thesis
      using Suc.prems(1) by (simp add: mem_write_Cons)
  next
    case (Cons x ys)
    have c: "cstr (m(d := x)) (s + 1) ys"
      using Suc.prems Cons by (subst cstr_cong [where m = m]) (auto simp: disjoint_areas_def)
    have dj: "disjoint_areas (d + 1) n (s + 1) (length ys + 1)"
      using Suc.prems(2) Cons by (auto simp: disjoint_areas_def)
    have "strncpy (d + 1) (s + 1) n (m(d := x)) = mem_write (d + 1) (take n (ys @ [0])) (m(d := x))"
      by (rule Suc.IH [OF c dj])
    then show ?thesis
      using Suc.prems(1) Cons by (simp add: mem_write_Cons)
  qed
qed simp

end
