(* ===== verification/Format.thy ===== *)
theory Format
  imports Ring
begin

unbundle bit_operations_syntax

text \<open>
  Numbers as text: misc/sprintk.c, which prints formatted text, and the conversions of
  lib/libc/minimal/source/stdlib (strtol.c, strtoul.c, atoi.c) with the character classes of
  lib/libc/minimal/include/ctype.h. Strings are lists of bytes without the terminating zero;
  \<open>long\<close> has 32 bits.
\<close>

abbreviation ch :: "char \<Rightarrow> u8" where
  "ch c \<equiv> of_char c"

section \<open>Printing numbers\<close>

datatype pad_type = PAD_NONE | PAD_ZERO_BEFORE | PAD_SPACE_BEFORE | PAD_SPACE_AFTER

text \<open>
  The loop of \<open>_printk_dec_ulong\<close>. It gives the bytes it puts out, the remainder and the
  number of digits.
\<close>

function dec_loop :: "pad_type \<Rightarrow> int \<Rightarrow> nat \<Rightarrow> nat \<Rightarrow> bool \<Rightarrow> int \<Rightarrow> int \<Rightarrow> u8 list \<times> nat \<times> int" where
  "dec_loop padding min_width pos remainder found remaining digits =
     (if pos \<ge> 9 then
        let (out, found, digits) =
              (if found \<or> remainder > pos then ([of_nat (remainder div (pos + 1) + 48)], True, digits + 1)
               else if remaining \<le> min_width \<and> padding \<noteq> PAD_SPACE_AFTER
               then ([if padding = PAD_ZERO_BEFORE then ch CHR ''0'' else ch CHR '' ''], False, digits + 1)
               else ([], False, digits))
        in case dec_loop padding min_width (pos div 10) (remainder mod (pos + 1)) found (remaining - 1) digits of
             (out2, remainder, digits) \<Rightarrow> (out @ out2, remainder, digits)
      else ([], remainder, digits))"
  by pat_completeness auto

termination dec_loop
  by (relation "measure (\<lambda>(p, w, pos, r, f, rem, d). pos)") auto

declare dec_loop.simps [simp del]

definition printk_dec_ulong :: "u32 \<Rightarrow> pad_type \<Rightarrow> int \<Rightarrow> u8 list" where
  "printk_dec_ulong num padding min_width =
     (let min_width = (if min_width \<le> 0 then 1 else min_width)
      in case dec_loop padding min_width 999999999 (unat num) False 10 1 of
           (out, remainder, digits) \<Rightarrow>
             out @ [of_nat (remainder + 48)] @
             (if padding = PAD_SPACE_AFTER then replicate (nat (min_width - digits)) (ch CHR '' '') else []))"

fun hex_loop :: "nat \<Rightarrow> u32 \<Rightarrow> pad_type \<Rightarrow> int \<Rightarrow> bool \<Rightarrow> int \<Rightarrow> int \<Rightarrow> u8 list \<times> int" where
  "hex_loop 0 num padding min_width found remaining digits = ([], digits)"
| "hex_loop (Suc n) num padding min_width found remaining digits =
     (let nibble = ucast (drop_bit (n * 4) num AND 0xf) :: u8
      in if nibble \<noteq> 0 \<or> found \<or> n = 0 then
           apfst ((#) (nibble + (if nibble > 9 then 87 else 48)))
             (hex_loop n num padding min_width True remaining (digits + 1))
         else
           apfst ((@) (if remaining \<le> min_width then
                         (if padding = PAD_ZERO_BEFORE then [ch CHR ''0'']
                          else if padding = PAD_SPACE_BEFORE then [ch CHR '' ''] else [])
                       else []))
             (hex_loop n num padding min_width False (remaining - 1) digits))"

definition printk_hex_ulong :: "u32 \<Rightarrow> pad_type \<Rightarrow> int \<Rightarrow> u8 list" where
  "printk_hex_ulong num padding min_width =
     (case hex_loop 8 num padding min_width False 8 0 of
        (out, digits) \<Rightarrow>
          out @ (if padding = PAD_SPACE_AFTER then replicate (nat (min_width * 2 - digits)) (ch CHR '' '') else []))"

section \<open>Formatted printing\<close>

text \<open>
  The arguments of a call. Taking an argument of another type than the format says has no
  meaning in C, and gives \<open>None\<close> here.
\<close>

datatype printk_arg = Long u32 | LongLong u64 | Str "u8 list"

text \<open>\<open>va_arg\<close> for \<open>long\<close>, or for \<open>long long\<close> cut off to 32 bits.\<close>

fun va_long :: "nat \<Rightarrow> printk_arg list \<Rightarrow> (u32 \<times> printk_arg list) option" where
  "va_long long_ctr (Long w # ap) = (if long_ctr < 2 then Some (w, ap) else None)"
| "va_long long_ctr (LongLong w # ap) = (if long_ctr < 2 then None else Some (ucast w, ap))"
| "va_long long_ctr ap = None"

text \<open>
  One conversion: the bytes put out and the arguments left. The outer \<open>None\<close> is an
  argument of the wrong type.
\<close>

definition convert :: "u8 \<Rightarrow> pad_type \<Rightarrow> int \<Rightarrow> nat \<Rightarrow> printk_arg list \<Rightarrow> (u8 list \<times> printk_arg list) option" where
  "convert c padding min_width long_ctr ap =
     (if c = ch CHR ''d'' \<or> c = ch CHR ''i'' then
        map_option (\<lambda>(d, ap).
          (if d <s 0 then ch CHR ''-'' # printk_dec_ulong (- d) padding (min_width - 1)
           else printk_dec_ulong d padding min_width, ap)) (va_long long_ctr ap)
      else if c = ch CHR ''u'' then
        map_option (\<lambda>(u, ap). (printk_dec_ulong u padding min_width, ap)) (va_long long_ctr ap)
      else if c = ch CHR ''p'' then
        map_option (\<lambda>(x, ap). ([ch CHR ''0'', ch CHR ''x''] @ printk_hex_ulong x PAD_ZERO_BEFORE 8, ap))
          (va_long long_ctr ap)
      else if c = ch CHR ''x'' \<or> c = ch CHR ''X'' then
        map_option (\<lambda>(x, ap). (printk_hex_ulong x padding min_width, ap)) (va_long long_ctr ap)
      else if c = ch CHR ''s'' then (case ap of Str s # ap \<Rightarrow> Some (s, ap) | _ \<Rightarrow> None)
      else if c = ch CHR ''c'' then (case ap of Long w # ap \<Rightarrow> Some ([ucast w], ap) | _ \<Rightarrow> None)
      else if c = ch CHR ''%'' then Some ([ch CHR ''%''], ap)
      else Some ([ch CHR ''%'', c], ap))"

fun vprintk :: "bool \<Rightarrow> pad_type \<Rightarrow> int \<Rightarrow> nat \<Rightarrow> u8 list \<Rightarrow> printk_arg list \<Rightarrow> u8 list option" where
  "vprintk might_format padding min_width long_ctr [] ap = Some []"
| "vprintk might_format padding min_width long_ctr (c # fmt) ap =
     (if \<not> might_format then
        (if c \<noteq> ch CHR ''%'' then map_option ((#) c) (vprintk False padding min_width long_ctr fmt ap)
         else vprintk True PAD_NONE (- 1) 0 fmt ap)
      else if c = ch CHR ''-'' then vprintk True PAD_SPACE_AFTER min_width long_ctr fmt ap
      else if c = ch CHR ''0'' \<and> min_width < 0 \<and> padding = PAD_NONE
      then vprintk True PAD_ZERO_BEFORE min_width long_ctr fmt ap
      else if ch CHR ''0'' \<le> c \<and> c \<le> ch CHR ''9'' then
        vprintk True (if padding = PAD_NONE then PAD_SPACE_BEFORE else padding)
          (if min_width < 0 then uint c - 48 else 10 * min_width + uint c - 48) long_ctr fmt ap
      else if c = ch CHR ''l'' then vprintk True padding min_width (long_ctr + 1) fmt ap
      else if c = ch CHR ''z'' \<or> c = ch CHR ''h'' then vprintk True padding min_width long_ctr fmt ap
      else
        case convert c padding min_width long_ctr ap of
          None \<Rightarrow> None
        | Some (out, ap) \<Rightarrow> map_option ((@) out) (vprintk False padding min_width long_ctr fmt ap))"

text \<open>Printing into a buffer at \<open>str\<close> (0 is the null pointer) of \<open>max1\<close> bytes.\<close>

definition str_out :: "nat \<Rightarrow> int \<Rightarrow> u8 \<Rightarrow> mem \<times> int \<Rightarrow> mem \<times> int" where
  "str_out str max1 c ctx =
     (case ctx of (m, count) \<Rightarrow>
        if str = 0 \<or> count \<ge> max1 then (m, count + 1)
        else if count = max1 - 1 then (m(str + nat count := 0), count + 1)
        else (m(str + nat count := c), count + 1))"

definition vsnprintk :: "nat \<Rightarrow> int \<Rightarrow> u8 list \<Rightarrow> printk_arg list \<Rightarrow> mem \<Rightarrow> (mem \<times> int) option" where
  "vsnprintk str size1 fmt ap m =
     map_option (\<lambda>out.
       case fold (str_out str size1) out (m, 0) of
         (m, count) \<Rightarrow> (if count < size1 then m(str + nat count := 0) else m, count))
       (vprintk False PAD_NONE (- 1) 0 fmt ap)"

definition snprintk :: "nat \<Rightarrow> int \<Rightarrow> u8 list \<Rightarrow> printk_arg list \<Rightarrow> mem \<Rightarrow> (mem \<times> int) option" where
  "snprintk str size1 fmt ap m =
     map_option (\<lambda>out.
       case fold (str_out str size1) out (m, 0) of
         (m, count) \<Rightarrow> (if count < size1 then m(str + nat count := 0) else m, count))
       (vprintk False PAD_NONE (- 1) 0 fmt ap)"

section \<open>Character classes\<close>

definition isupper :: "u8 \<Rightarrow> bool" where
  "isupper a \<longleftrightarrow> (ucast a - 0x41 :: u32) < 26"

definition isalpha :: "u8 \<Rightarrow> bool" where
  "isalpha c \<longleftrightarrow> (ucast c OR 32) - 0x61 < (26 :: u32)"

definition isspace :: "u8 \<Rightarrow> bool" where
  "isspace c \<longleftrightarrow> c = ch CHR '' '' \<or> ucast c - 9 < (5 :: u32)"

definition isdigit :: "u8 \<Rightarrow> bool" where
  "isdigit a \<longleftrightarrow> ucast a - 0x30 < (10 :: u32)"

definition isxdigit :: "u8 \<Rightarrow> bool" where
  "isxdigit a \<longleftrightarrow> ucast a - 0x30 < (10 :: u32) \<or> ucast a - 0x61 < (6 :: u32) \<or> ucast a - 0x41 < (6 :: u32)"

section \<open>Reading numbers\<close>

text \<open>The value of a character as a digit of any base, if it has one.\<close>

definition digit_value :: "u8 \<Rightarrow> nat option" where
  "digit_value c =
     (if isdigit c then Some (unat c - 0x30)
      else if isalpha c then Some (unat c - (if isupper c then 0x41 - 10 else 0x61 - 10))
      else None)"

text \<open>
  The loop that \<open>strtol\<close> and \<open>strtoul\<close> share: the number, the flag \<open>any\<close>, and the string from the
  character on that ended it.
\<close>

fun strtol_loop :: "nat \<Rightarrow> nat \<Rightarrow> nat \<Rightarrow> u8 list \<Rightarrow> nat \<Rightarrow> int \<Rightarrow> nat \<times> int \<times> u8 list" where
  "strtol_loop base cutoff cutlim [] acc any1 = (acc, any1, [])"
| "strtol_loop base cutoff cutlim (c # s) acc any1 =
     (case digit_value c of
        None \<Rightarrow> (acc, any1, c # s)
      | Some d \<Rightarrow>
          if d \<ge> base then (acc, any1, c # s)
          else if any1 < 0 \<or> acc > cutoff \<or> (acc = cutoff \<and> d > cutlim)
          then strtol_loop base cutoff cutlim s acc (- 1)
          else strtol_loop base cutoff cutlim s (acc * base + d) 1)"

text \<open>White space, sign and prefix: whether there is a minus sign, the base, and the rest.\<close>

definition strtol_head :: "u8 list \<Rightarrow> nat \<Rightarrow> bool \<times> nat \<times> u8 list" where
  "strtol_head nptr base =
     (let s = dropWhile isspace nptr;
          neg = (s \<noteq> [] \<and> hd s = ch CHR ''-'');
          s = (if s \<noteq> [] \<and> (hd s = ch CHR ''-'' \<or> hd s = ch CHR ''+'') then tl s else s);
          hex = ((base = 0 \<or> base = 16) \<and>
                 (case s of c # x # _ \<Rightarrow> c = ch CHR ''0'' \<and> (x = ch CHR ''x'' \<or> x = ch CHR ''X'') | _ \<Rightarrow> False))
      in if hex then (neg, 16, drop 2 s)
         else (neg, if base = 0 then (if s \<noteq> [] \<and> hd s = ch CHR ''0'' then 8 else 10) else base, s))"

text \<open>The number, the distance of \<open>endptr\<close> from the start, and whether \<open>errno\<close> is set to ERANGE.\<close>

definition strtol :: "u8 list \<Rightarrow> nat \<Rightarrow> int \<times> nat \<times> bool" where
  "strtol nptr base =
     (case strtol_head nptr base of (neg, base, s) \<Rightarrow>
        let cutoff = (if neg then 2 ^ 31 else 2 ^ 31 - 1 :: nat)
        in case strtol_loop base (cutoff div base) (cutoff mod base) s 0 0 of (acc, any1, rest) \<Rightarrow>
             (if any1 < 0 then (if neg then - (2 ^ 31) else 2 ^ 31 - 1) else if neg then - int acc else int acc,
              if any1 \<noteq> 0 then length nptr - length rest else 0, any1 < 0))"

definition strtoul :: "u8 list \<Rightarrow> nat \<Rightarrow> u32 \<times> nat \<times> bool" where
  "strtoul nptr base =
     (case strtol_head nptr base of (neg, base, s) \<Rightarrow>
        case strtol_loop base ((2 ^ 32 - 1) div base) ((2 ^ 32 - 1) mod base) s 0 0 of (acc, any1, rest) \<Rightarrow>
          (if any1 < 0 then - 1 else if neg then - of_nat acc else of_nat acc,
           if any1 \<noteq> 0 then length nptr - length rest else 0, any1 < 0))"

definition atol :: "u8 list \<Rightarrow> int" where
  "atol nptr = fst (strtol nptr 10)"

fun atoi_loop :: "u8 list \<Rightarrow> int \<Rightarrow> int" where
  "atoi_loop [] n = n"
| "atoi_loop (c # s) n = (if isdigit c then atoi_loop s (10 * n - (uint c - 0x30)) else n)"

definition atoi :: "u8 list \<Rightarrow> int" where
  "atoi s =
     (let s = dropWhile isspace s;
          neg = (s \<noteq> [] \<and> hd s = ch CHR ''-'');
          s = (if s \<noteq> [] \<and> (hd s = ch CHR ''-'' \<or> hd s = ch CHR ''+'') then tl s else s);
          n = atoi_loop s 0
      in if neg then n else - n)"
section \<open>Numerals\<close>

text \<open>The numeral of a number in a base: the meaning of what is printed.\<close>

definition digit_char :: "nat \<Rightarrow> u8" where
  "digit_char d = of_nat (d + (if d > 9 then 87 else 48))"

fun numeral_text :: "nat \<Rightarrow> nat \<Rightarrow> u8 list" where
  "numeral_text b n =
     (if n < b \<or> b < 2 then [digit_char n] else numeral_text b (n div b) @ [digit_char (n mod b)])"

declare numeral_text.simps [simp del]

text \<open>The \<open>k\<close> lowest digits.\<close>

fun low_digits :: "nat \<Rightarrow> nat \<Rightarrow> nat \<Rightarrow> u8 list" where
  "low_digits b 0 n = []"
| "low_digits b (Suc k) n = low_digits b k (n div b) @ [digit_char (n mod b)]"

lemma length_low_digits [simp]: "length (low_digits b k n) = k"
  by (induction b k n rule: low_digits.induct) auto

lemma low_digits_Cons:
  "low_digits b (Suc k) n = digit_char (n div b ^ k mod b) # low_digits b k (n mod b ^ k)"
proof (induction k arbitrary: n)
  case (Suc k)
  have q: "n mod b ^ Suc k div b = n div b mod b ^ k"
    by (cases "b = 0") (auto simp: mod_mult2_eq)
  have m: "n mod b ^ Suc k mod b = n mod b"
    by (simp add: mod_mod_cancel)
  have "low_digits b (Suc (Suc k)) n =
      (digit_char (n div b div b ^ k mod b) # low_digits b k (n div b mod b ^ k)) @ [digit_char (n mod b)]"
    by (simp only: low_digits.simps(2) [of b "Suc k" n] Suc.IH)
  also have "\<dots> = digit_char (n div b ^ Suc k mod b) # low_digits b (Suc k) (n mod b ^ Suc k)"
    by (simp only: low_digits.simps(2) q [unfolded power_Suc] m [unfolded power_Suc] append_Cons power_Suc div_mult2_eq)
  finally show ?case .
qed simp

lemma numeral_text_low_digits:
  assumes "2 \<le> b" "b ^ k \<le> n" "n < b ^ Suc k"
  shows "numeral_text b n = low_digits b (Suc k) n"
  using assms
proof (induction k arbitrary: n)
  case 0
  then show ?case by (simp add: numeral_text.simps)
next
  case (Suc k)
  have "b ^ Suc 0 \<le> b ^ Suc k" using Suc.prems(1) by (intro power_increasing) auto
  then have b: "b \<le> n" using Suc.prems(2) by (simp del: power_Suc add: power_Suc0_right)
  have "b ^ k \<le> n div b"
    using Suc.prems(1,2) by (simp add: less_eq_div_iff_mult_less_eq mult.commute)
  moreover have "n div b < b ^ Suc k"
    using Suc.prems(1,3) by (simp add: div_less_iff_less_mult mult.commute)
  ultimately have "numeral_text b (n div b) = low_digits b (Suc k) (n div b)"
    by (rule Suc.IH [OF Suc.prems(1)])
  then show ?case
    using b Suc.prems(1) by (subst numeral_text.simps) simp
qed

lemma length_numeral_text:
  assumes "2 \<le> b" "b ^ k \<le> n" "n < b ^ Suc k"
  shows "length (numeral_text b n) = Suc k"
  by (simp add: numeral_text_low_digits [OF assms])

lemma length_numeral_text_pos [simp]: "0 < length (numeral_text b n)"
  by (subst numeral_text.simps) simp

lemma length_numeral_text_le:
  "2 \<le> b \<Longrightarrow> n < b ^ Suc k \<Longrightarrow> length (numeral_text b n) \<le> Suc k"
proof (induction k arbitrary: n)
  case (Suc k)
  show ?case
  proof (cases "n < b ^ Suc k")
    case True
    then show ?thesis using Suc.IH [OF Suc.prems(1)] by (simp add: le_SucI)
  next
    case False
    then show ?thesis using Suc.prems by (simp add: length_numeral_text [of _ "Suc k"])
  qed
qed (simp add: numeral_text.simps)

section \<open>What is printed\<close>

lemma dec_loop_found:
  "r < 10 ^ Suc k \<Longrightarrow>
   dec_loop p mw (10 ^ k - 1) r True rem dg = (low_digits 10 k (r div 10), r mod 10, dg + int k)"
proof (induction k arbitrary: r rem dg)
  case 0
  then show ?case by (simp add: dec_loop.simps)
next
  case (Suc k)
  let ?p = "10 ^ Suc k :: nat"
  have one: "1 \<le> (10 ^ k :: nat)" by simp
  have p: "9 \<le> ?p - 1" "(?p - 1) div 10 = 10 ^ k - 1"
    unfolding power_Suc using one by linarith+
  have pos: "?p - 1 + 1 = ?p" by simp
  have d: "r div ?p < 10" using Suc.prems by (simp add: div_less_iff_less_mult)
  have IH: "dec_loop p mw (10 ^ k - 1) (r mod ?p) True (rem - 1) (dg + 1) =
      (low_digits 10 k (r mod ?p div 10), r mod ?p mod 10, dg + 1 + int k)"
    by (rule Suc.IH) simp
  have m: "r mod ?p mod 10 = r mod 10" by (simp add: mod_mod_cancel)
  have q: "r mod ?p div 10 = r div 10 mod 10 ^ k" by (simp add: mod_mult2_eq)
  have l: "low_digits 10 (Suc k) (r div 10) = of_nat (r div ?p + 48) # low_digits 10 k (r div 10 mod 10 ^ k)"
    unfolding low_digits_Cons using d by (simp add: digit_char_def flip: div_mult2_eq)
  show ?case
    by (subst dec_loop.simps)
      (simp only: p pos IH m q l if_True Let_def prod.case simp_thms append_Cons append_Nil, simp)
qed

definition pad_char :: "pad_type \<Rightarrow> u8" where
  "pad_char padding = (if padding = PAD_ZERO_BEFORE then 48 else 32)"

definition pad_count :: "pad_type \<Rightarrow> nat \<Rightarrow> int \<Rightarrow> nat \<Rightarrow> nat" where
  "pad_count padding k mw n = (if padding = PAD_SPACE_AFTER then 0 else nat (min (int k) mw) - n)"
lemma dec_loop_not_found:
  assumes "1 \<le> mw"
  shows "r < 10 ^ Suc k \<Longrightarrow>
    \<exists>out. dec_loop p mw (10 ^ k - 1) r False (int k + 1) dg =
        (out, r mod 10,
         dg + int (pad_count p (Suc k) mw (length (numeral_text 10 r))) + int (length (numeral_text 10 r)) - 1) \<and>
      out @ [of_nat (r mod 10 + 48)] =
        replicate (pad_count p (Suc k) mw (length (numeral_text 10 r))) (pad_char p) @ numeral_text 10 r"
proof (induction k arbitrary: dg)
  case 0
  then show ?case
    using assms by (simp add: dec_loop.simps numeral_text.simps pad_count_def digit_char_def)
next
  case (Suc k)
  let ?p = "10 ^ Suc k :: nat" and ?l = "length (numeral_text 10 r)"
  have one: "1 \<le> (10 ^ k :: nat)" by simp
  have p: "9 \<le> ?p - 1" "(?p - 1) div 10 = 10 ^ k - 1"
    unfolding power_Suc using one by linarith+
  have pos: "?p - 1 + 1 = ?p" by simp
  show ?case
  proof (cases "r < ?p")
    case False
    then have le: "?p \<le> r" by simp
    then have big: "r > ?p - 1" using pos by linarith
    have num: "numeral_text 10 r = low_digits 10 (Suc (Suc k)) r"
      by (rule numeral_text_low_digits [OF _ le Suc.prems]) simp
    have "dec_loop p mw (?p - 1) r False (int (Suc k) + 1) dg = dec_loop p mw (?p - 1) r True (int (Suc k) + 1) dg"
      by (subst (1 2) dec_loop.simps) (simp only: big simp_thms)
    also have "\<dots> = (low_digits 10 (Suc k) (r div 10), r mod 10, dg + int (Suc k))"
      by (rule dec_loop_found [OF Suc.prems])
    finally show ?thesis
      by (auto simp: num pad_count_def digit_char_def simp del: low_digits.simps(1))
  next
    case True
    then have small: "\<not> r > ?p - 1" and r: "r mod ?p = r" by auto
    have len: "?l \<le> Suc k" by (rule length_numeral_text_le [OF _ True]) simp
    define pad where "pad = (int (Suc k) + 1 \<le> mw \<and> p \<noteq> PAD_SPACE_AFTER)"
    have cnt: "pad_count p (Suc (Suc k)) mw ?l = (if pad then 1 else 0) + pad_count p (Suc k) mw ?l"
      using assms len by (auto simp: pad_count_def pad_def)
    obtain out where out: "dec_loop p mw (10 ^ k - 1) r False (int k + 1) (dg + (if pad then 1 else 0)) =
        (out, r mod 10, dg + (if pad then 1 else 0) + int (pad_count p (Suc k) mw ?l) + int ?l - 1)"
      "out @ [of_nat (r mod 10 + 48)] = replicate (pad_count p (Suc k) mw ?l) (pad_char p) @ numeral_text 10 r"
      using Suc.IH [OF True] by blast
    have rem: "int (Suc k) + 1 - 1 = int k + 1" by simp
    have "dec_loop p mw (?p - 1) r False (int (Suc k) + 1) dg =
        ((if pad then [pad_char p] else []) @ out, r mod 10,
         dg + (if pad then 1 else 0) + int (pad_count p (Suc k) mw ?l) + int ?l - 1)"
      by (subst dec_loop.simps, simp only: p pos r small rem pad_def [symmetric] if_True if_False simp_thms)
        (use out(1) in \<open>cases pad; simp add: pad_char_def\<close>)
    then show ?thesis
      using out(2) by (auto simp: cnt)
  qed
qed

text \<open>
  Decimal numbers. For every number, way of padding and width, what is printed is the
  number's decimal numeral, filled up to the width: with zeros or spaces in front, where no more
  than ten characters are used, or with spaces behind.
\<close>
theorem printk_dec_numeral:
  "printk_dec_ulong num padding min_width =
     (let text = numeral_text 10 (unat num);
          width = max 1 min_width
      in if padding = PAD_SPACE_AFTER then text @ replicate (nat width - length text) 32
         else replicate (nat (min 10 width) - length text) (if padding = PAD_ZERO_BEFORE then 48 else 32) @ text)"
proof -
  let ?w = "max 1 min_width" and ?n = "numeral_text 10 (unat num)"
  have "unat num < 2 ^ 32" using unsigned_less [of num] by simp
  then have lt: "unat num < 10 ^ Suc 9" by simp
  have w: "(if min_width \<le> 0 then 1 else min_width) = ?w" by simp
  obtain out where out: "dec_loop padding ?w 999999999 (unat num) False 10 1 =
      (out, unat num mod 10, int (pad_count padding 10 ?w (length ?n)) + int (length ?n))"
    "out @ [of_nat (unat num mod 10 + 48)] =
      replicate (pad_count padding 10 ?w (length ?n)) (pad_char padding) @ ?n"
    using dec_loop_not_found [OF _ lt, of ?w padding 1] by auto
  show ?thesis
    unfolding printk_dec_ulong_def w Let_def out(1) prod.case append_assoc [symmetric] out(2)
    by (auto simp: pad_count_def pad_char_def nat_diff_distrib)
qed
lemma low_digits_mod: "low_digits b k (n mod b ^ k) = low_digits b k n"
proof (induction k arbitrary: n)
  case (Suc k)
  have "n mod (b * b ^ k) div b = n div b mod b ^ k"
    by (cases "b = 0") (auto simp: mod_mult2_eq)
  then show ?case by (simp add: Suc.IH mod_mod_cancel)
qed simp

lemma unat_nibble:
  "unat (ucast (drop_bit (k * 4) (num :: u32) AND 0xf) :: u8) = unat num div 16 ^ k mod 16"
proof -
  have m: "(0xf :: u32) = mask 4" by (simp add: mask_eq_exp_minus_1)
  have p: "(2 :: nat) ^ (k * 4) = 16 ^ k" using power_mult [of "2 :: nat" 4 k] by (simp add: mult.commute)
  have n: "unat num mod 4294967296 = unat num" using unsigned_less [of num, where 'a = nat] by simp
  have "unat (take_bit 4 (drop_bit (k * 4) num)) = unat num div 16 ^ k mod 16"
    unfolding unsigned_take_bit_eq unsigned_drop_bit_eq by (simp add: take_bit_eq_mod drop_bit_eq_div p n)
  then show ?thesis
    unfolding m take_bit_eq_mask [symmetric] by (simp add: unsigned_ucast_eq take_bit_eq_mod)
qed

lemma digit_char_unat: "(w :: u8) + (if w > 9 then 87 else 48) = digit_char (unat w)"
  by (simp add: digit_char_def word_less_nat_alt)

lemma hex_loop_found:
  "hex_loop k num p mw True rem dg = (low_digits 16 k (unat num), dg + int k)"
proof (induction k arbitrary: rem dg)
  case (Suc k)
  then show ?case
    by (simp add: Let_def digit_char_unat unat_nibble low_digits_Cons low_digits_mod del: low_digits.simps(2))
qed simp

definition hex_pad :: "pad_type \<Rightarrow> nat \<Rightarrow> int \<Rightarrow> nat \<Rightarrow> u8 list" where
  "hex_pad p k mw n =
     (if p = PAD_ZERO_BEFORE then replicate (nat (min (int k) mw) - n) 48
      else if p = PAD_SPACE_BEFORE then replicate (nat (min (int k) mw) - n) 32 else [])"

lemma hex_loop_not_found:
  "unat num < 16 ^ Suc k \<Longrightarrow>
   hex_loop (Suc k) num p mw False (int k + 1) dg =
     (hex_pad p (Suc k) mw (length (numeral_text 16 (unat num))) @ numeral_text 16 (unat num),
      dg + int (length (numeral_text 16 (unat num))))"
proof (induction k arbitrary: dg)
  case 0
  have "unat (ucast (num AND 0xf) :: u8) = unat num"
    using unat_nibble [of 0 num] 0 by simp
  moreover from 0 have "nat (min 1 mw) - Suc 0 = 0" by linarith
  ultimately show ?case
    using 0 by (simp add: Let_def numeral_text.simps digit_char_unat hex_pad_def)
next
  case (Suc k)
  let ?n = "unat num" and ?nib = "ucast (drop_bit (Suc k * 4) num AND 0xf) :: u8"
  let ?l = "length (numeral_text 16 ?n)"
  show ?case
  proof (cases "?n < 16 ^ Suc k")
    case False
    then have le: "16 ^ Suc k \<le> ?n" by simp
    have num: "numeral_text 16 ?n = low_digits 16 (Suc (Suc k)) ?n"
      by (rule numeral_text_low_digits [OF _ le Suc.prems]) simp
    have "?n div 16 ^ Suc k < 16" using Suc.prems by (simp add: div_less_iff_less_mult)
    moreover have "?n div 16 ^ Suc k \<noteq> 0" using le by (simp add: div_eq_0_iff)
    ultimately have nz: "?nib \<noteq> 0"
      unfolding word_unat_eq_iff unat_nibble by simp
    have "hex_loop (Suc (Suc k)) num p mw False (int (Suc k) + 1) dg =
        (digit_char (?n div 16 ^ Suc k mod 16) # low_digits 16 (Suc k) ?n, dg + 1 + int (Suc k))"
      using nz by (simp only: hex_loop.simps(2) [of "Suc k"] Let_def simp_thms if_True digit_char_unat
          unat_nibble hex_loop_found apfst_conv)
    moreover have "numeral_text 16 ?n = digit_char (?n div 16 ^ Suc k mod 16) # low_digits 16 (Suc k) ?n"
      unfolding num low_digits_Cons [of 16 "Suc k"] low_digits_mod ..
    ultimately show ?thesis
      by (simp add: hex_pad_def)
  next
    case True
    have "unat ?nib = 0" unfolding unat_nibble using True by simp
    then have z: "?nib = 0" by (simp add: word_unat_eq_iff)
    have len: "?l \<le> Suc k" by (rule length_numeral_text_le [OF _ True]) simp
    have rem: "int (Suc k) + 1 - 1 = int k + 1" by simp
    have pad: "hex_pad p (Suc (Suc k)) mw ?l =
        (if int (Suc k) + 1 \<le> mw then
           (if p = PAD_ZERO_BEFORE then [48] else if p = PAD_SPACE_BEFORE then [32] else [])
         else []) @ hex_pad p (Suc k) mw ?l"
    proof (cases "int (Suc k) + 1 \<le> mw")
      case True
      then have "nat (min (int (Suc (Suc k))) mw) - ?l = Suc (nat (min (int (Suc k)) mw) - ?l)"
        using len by linarith
      with True show ?thesis by (simp add: hex_pad_def)
    next
      case False
      then have "min (int (Suc (Suc k))) mw = min (int (Suc k)) mw" by linarith
      with False show ?thesis by (simp add: hex_pad_def)
    qed
    show ?thesis
      unfolding hex_loop.simps(2) [of "Suc k"] Let_def z rem Suc.IH [OF True] pad by simp
  qed
qed

text \<open>
  Hexadecimal numbers. What is printed is the number's hexadecimal numeral in lower case,
  filled up to the width, of which no more than eight characters count, with zeros or spaces in
  front. With the padding behind, the text is filled up to \<^emph>\<open>twice\<close> the width.
\<close>
theorem printk_hex_numeral:
  "printk_hex_ulong num padding min_width =
     (let text = numeral_text 16 (unat num);
          fill = nat (min 8 min_width) - length text
      in case padding of
           PAD_NONE \<Rightarrow> text
         | PAD_ZERO_BEFORE \<Rightarrow> replicate fill 48 @ text
         | PAD_SPACE_BEFORE \<Rightarrow> replicate fill 32 @ text
         | PAD_SPACE_AFTER \<Rightarrow> text @ replicate (nat (2 * min_width) - length text) 32)"
proof -
  let ?n = "numeral_text 16 (unat num)"
  have "unat num < 2 ^ 32" using unsigned_less [of num] by simp
  then have lt: "unat num < 16 ^ Suc 7" by simp
  have "hex_loop 8 num padding min_width False 8 0 = (hex_pad padding 8 min_width (length ?n) @ ?n, int (length ?n))"
    using hex_loop_not_found [OF lt, of padding min_width 0] by simp
  then show ?thesis
    by (cases padding) (simp_all add: printk_hex_ulong_def hex_pad_def Let_def nat_diff_distrib mult.commute)
qed
section \<open>What is read\<close>

text \<open>The number that a list of digits stands for, the highest digit first.\<close>

definition number_of :: "nat \<Rightarrow> u8 list \<Rightarrow> nat" where
  "number_of base ds = foldl (\<lambda>acc c. acc * base + the (digit_value c)) 0 ds"

definition digits_of_base :: "nat \<Rightarrow> u8 list \<Rightarrow> bool" where
  "digits_of_base base ds \<longleftrightarrow> (\<forall>c \<in> set ds. \<exists>d. digit_value c = Some d \<and> d < base)"

definition ends_digits :: "nat \<Rightarrow> u8 list \<Rightarrow> bool" where
  "ends_digits base rest \<longleftrightarrow> (case rest of [] \<Rightarrow> True | c # _ \<Rightarrow> \<not> digits_of_base base [c])"

lemma number_of_snoc [simp]: "number_of base (ds @ [c]) = number_of base ds * base + the (digit_value c)"
  by (simp add: number_of_def)

lemma digits_of_base_simps [simp]:
  "digits_of_base base []"
  "digits_of_base base (c # cs) \<longleftrightarrow> (\<exists>d. digit_value c = Some d \<and> d < base) \<and> digits_of_base base cs"
  "digits_of_base base (xs @ ys) \<longleftrightarrow> digits_of_base base xs \<and> digits_of_base base ys"
  by (auto simp: digits_of_base_def)

lemma strtol_loop_end:
  "ends_digits base rest \<Longrightarrow> strtol_loop base cutoff cutlim rest acc any1 = (acc, any1, rest)"
  by (cases rest) (auto simp: ends_digits_def split: option.splits)

lemma strtol_loop_overflown:
  "digits_of_base base ds \<Longrightarrow> ends_digits base rest \<Longrightarrow>
   strtol_loop base cutoff cutlim (ds @ rest) acc (- 1) = (acc, - 1, rest)"
  by (induction ds) (auto simp: strtol_loop_end)

lemma foldl_digits_mono:
  "2 \<le> base \<Longrightarrow> acc \<le> foldl (\<lambda>acc c. acc * base + the (digit_value c)) acc ds" for acc base :: nat
proof (induction ds arbitrary: acc)
  case (Cons c ds)
  have "acc * 1 \<le> acc * base" using Cons.prems by (intro mult_le_mono2) simp
  then have "acc \<le> acc * base + the (digit_value c)" unfolding mult_1_right by (rule trans_le_add1)
  also have "\<dots> \<le> foldl (\<lambda>acc c. acc * base + the (digit_value c)) \<dots> ds"
    by (rule Cons.IH [OF Cons.prems])
  finally show ?case by simp
qed simp

text \<open>Whether the next digit takes the number past the limit, decided without computing it.\<close>

lemma cutoff_test:
  fixes acc d base lim :: nat
  assumes "d < base"
  shows "acc > lim div base \<or> acc = lim div base \<and> d > lim mod base \<longleftrightarrow> acc * base + d > lim"
proof -
  have lim: "lim = lim div base * base + lim mod base" by simp
  consider "acc < lim div base" | "acc = lim div base" | "acc > lim div base" by linarith
  then show ?thesis
  proof cases
    case 1
    then have "Suc acc * base \<le> lim div base * base" by (intro mult_le_mono1) simp
    then have "acc * base + d < lim" using assms lim unfolding mult_Suc by linarith
    with 1 show ?thesis by simp
  next
    case 2
    have "lim div base * base + d > lim \<longleftrightarrow> d > lim mod base" using lim by linarith
    with 2 show ?thesis by simp
  next
    case 3
    have "lim < (lim div base + 1) * base"
      using assms lim by (metis add_mult_distrib mod_less_divisor nat_add_left_cancel_less nat_mult_1 not_less0 neq0_conv)
    also have "\<dots> \<le> acc * base" using 3 by (intro mult_le_mono1) simp
    finally show ?thesis using 3 by simp
  qed
qed

lemma strtol_loop_digits:
  assumes "2 \<le> base" "ends_digits base rest"
  shows "digits_of_base base ds \<Longrightarrow> 0 \<le> any1 \<Longrightarrow> acc \<le> lim \<Longrightarrow>
    (let n = foldl (\<lambda>acc c. acc * base + the (digit_value c)) acc ds;
         r = strtol_loop base (lim div base) (lim mod base) (ds @ rest) acc any1
     in if n \<le> lim then r = (n, if ds = [] then any1 else 1, rest) else fst (snd r) = - 1 \<and> snd (snd r) = rest)"
proof (induction ds arbitrary: acc any1)
  case Nil
  then show ?case by (simp add: strtol_loop_end [OF assms(2)])
next
  case (Cons c ds)
  obtain d where d: "digit_value c = Some d" "d < base" using Cons.prems(1) by auto
  show ?case
  proof (cases "acc * base + d > lim")
    case True
    then have "acc > lim div base \<or> acc = lim div base \<and> d > lim mod base"
      using cutoff_test [OF d(2)] by blast
    then have "strtol_loop base (lim div base) (lim mod base) ((c # ds) @ rest) acc any1 = (acc, - 1, rest)"
      using d Cons.prems strtol_loop_overflown [OF _ assms(2)] by auto
    moreover have "foldl (\<lambda>acc c. acc * base + the (digit_value c)) acc (c # ds) > lim"
      using True d foldl_digits_mono [OF assms(1), of "acc * base + d" ds] by simp
    ultimately show ?thesis by (simp add: Let_def)
  next
    case False
    then have "\<not> (acc > lim div base \<or> acc = lim div base \<and> d > lim mod base)"
      using cutoff_test [OF d(2)] by blast
    then have "strtol_loop base (lim div base) (lim mod base) ((c # ds) @ rest) acc any1 =
        strtol_loop base (lim div base) (lim mod base) (ds @ rest) (acc * base + d) 1"
      using d Cons.prems by auto
    then show ?thesis
      using Cons.IH [of 1 "acc * base + d"] Cons.prems False d by (simp add: Let_def)
  qed
qed
lemma all_u8:
  assumes "list_all (\<lambda>n. P (word_of_int n)) [0..255]"
  shows "P (c :: u8)"
proof -
  have "uint c \<in> {0..255}" using unsigned_less [of c, where 'a = int] by simp
  then have "P (word_of_int (uint c))" using assms by (simp only: list_all_iff set_upto)
  then show ?thesis by simp
qed

definition class_ok :: "u8 \<Rightarrow> bool" where
  "class_ok c \<longleftrightarrow>
     (case digit_value c of None \<Rightarrow> True
      | Some d \<Rightarrow> \<not> isspace c \<and> c \<noteq> 45 \<and> c \<noteq> 43 \<and> (d < 10 \<longrightarrow> isdigit c \<and> uint c = int d + 48))"

lemma class_ok_all: "list_all (\<lambda>n. class_ok (word_of_int n)) [0..255]"
  by code_simp

lemma digit_char_ok_all: "\<forall>n \<in> set [0..<16]. digit_value (digit_char n) = Some n"
  by code_simp
lemma digit_value_class:
  assumes "digit_value c = Some d"
  shows "\<not> isspace c" "c \<noteq> 45" "c \<noteq> 43" "d < 10 \<Longrightarrow> isdigit c" "d < 10 \<Longrightarrow> uint c = int d + 48"
  using all_u8 [where P = class_ok, OF class_ok_all, of c] assms by (auto simp: class_ok_def)

lemma digit_value_digit_char: "n < 16 \<Longrightarrow> digit_value (digit_char n) = Some n"
  using digit_char_ok_all by (simp only: set_upt atLeastLessThan_iff) auto

definition sign_text :: "u8 list \<Rightarrow> bool" where
  "sign_text sign \<longleftrightarrow> sign = [] \<or> sign = [ch CHR ''+''] \<or> sign = [ch CHR ''-'']"

lemma skip_space:
  assumes "list_all isspace ws" "sign_text sign" "ds \<noteq> []" "digits_of_base base ds"
  shows "dropWhile isspace (ws @ sign @ ds @ rest) = sign @ ds @ rest"
proof -
  have "\<not> isspace 43" "\<not> isspace 45" by code_simp+
  then have "\<not> isspace (hd (sign @ ds @ rest))" "sign @ ds @ rest \<noteq> []"
    using assms(2-4) digit_value_class(1) by (cases ds; auto simp: sign_text_def)+
  then show ?thesis
    using assms(1) by (simp add: dropWhile_append3 list_all_iff dropWhile_eq_self_iff)
qed

lemma strtol_head_eq:
  assumes "list_all isspace ws" "sign_text sign" "ds \<noteq> []" "digits_of_base base ds" "2 \<le> base"
    and "base \<noteq> 16 \<or> take 2 (ds @ rest) \<notin> {[48, 120], [48, 88]}"
  shows "strtol_head (ws @ sign @ ds @ rest) base = (sign = [45], base, ds @ rest)"
proof -
  have hd: "hd ds \<noteq> 45" "hd ds \<noteq> 43"
    using assms(3,4) digit_value_class(2,3) by (cases ds; auto)+
  have "\<not> ((base = 0 \<or> base = 16) \<and>
      (case ds @ rest of c # x # _ \<Rightarrow> c = ch CHR ''0'' \<and> (x = ch CHR ''x'' \<or> x = ch CHR ''X'') | _ \<Rightarrow> False))"
    using assms(5,6) by (auto split: list.splits simp del: take_append)
  then show ?thesis
    unfolding strtol_head_def skip_space [OF assms(1-4)]
    using assms(2,3,5) hd by (auto simp: sign_text_def Let_def)
qed

text \<open>
  Reading a number in a base from 2 to 36. On white space, a sign and digits, followed by
  something that is no digit, \<open>strtol\<close> gives the number, cut off to the range of \<open>long\<close>, and
  reports the range error exactly when it cut it off; \<open>endptr\<close> is behind the last digit. In
  base 16 the digits have no prefix 0x here.
\<close>
theorem strtol_value:
  assumes "list_all isspace ws" "sign_text sign" "ds \<noteq> []" "digits_of_base base ds"
    and "ends_digits base rest" "2 \<le> base"
    and "base \<noteq> 16 \<or> take 2 (ds @ rest) \<notin> {[48, 120], [48, 88]}"
  shows "strtol (ws @ sign @ ds @ rest) base =
    (let n = (if sign = [45] then - int (number_of base ds) else int (number_of base ds))
     in (max (- (2 ^ 31)) (min (2 ^ 31 - 1) n), length (ws @ sign @ ds), n < - (2 ^ 31) \<or> n > 2 ^ 31 - 1))"
proof -
  define lim where "lim = (if sign = [45] then 2 ^ 31 else 2 ^ 31 - 1 :: nat)"
  obtain acc any1 rest' where
    run: "strtol_loop base (lim div base) (lim mod base) (ds @ rest) 0 0 = (acc, any1, rest')"
    using prod_cases3 by blast
  have "if number_of base ds \<le> lim then (acc, any1, rest') = (number_of base ds, 1, rest)
      else any1 = - 1 \<and> rest' = rest"
    using strtol_loop_digits [OF assms(6,5,4), of 0 0 lim] assms(3) run by (auto simp: Let_def number_of_def split: if_splits)
  then show ?thesis
    unfolding strtol_def strtol_head_eq [OF assms(1-4,6,7)] prod.case lim_def [symmetric] Let_def run
    by (cases "number_of base ds \<le> lim") (auto simp: lim_def split: if_splits)
qed

theorem strtol_value_witness:
  "strtol [32, 45, 55, 102, 103] 16 = (- 127, 4, False)"
proof -
  have "list_all isspace [32]" "digits_of_base 16 [55, 102]" "ends_digits 16 [103]" "number_of 16 [55, 102] = 127"
    by (simp_all add: digits_of_base_def ends_digits_def number_of_def digit_value_def
        isspace_def isdigit_def isalpha_def isupper_def)
  then show ?thesis
    using strtol_value [of "[32]" "[45]" "[55, 102]" 16 "[103]"] by (simp add: sign_text_def)
qed

lemma strtoul_value:
  assumes "ds \<noteq> []" "digits_of_base base ds" "2 \<le> base" "number_of base ds < 2 ^ 32"
    and "base \<noteq> 16 \<or> take 2 ds \<notin> {[48, 120], [48, 88]}"
  shows "strtoul ds base = (of_nat (number_of base ds), length ds, False)"
proof -
  have e: "ends_digits base []" by (simp add: ends_digits_def)
  have h: "strtol_head ds base = (False, base, ds)"
    using strtol_head_eq [of "[]" "[]" ds base "[]"] assms by (simp add: sign_text_def)
  have "strtol_loop base ((2 ^ 32 - 1) div base) ((2 ^ 32 - 1) mod base) ds 0 0 = (number_of base ds, 1, [])"
    using strtol_loop_digits [OF assms(3) e assms(2), of 0 0 "2 ^ 32 - 1"] assms(1,4)
    by (simp add: Let_def number_of_def)
  then show ?thesis by (simp add: strtoul_def h)
qed

lemma number_of_numeral_text:
  "2 \<le> b \<Longrightarrow> b \<le> 16 \<Longrightarrow> number_of b (numeral_text b n) = n \<and> digits_of_base b (numeral_text b n)"
proof (induction b n rule: numeral_text.induct)
  case (1 b n)
  show ?case
  proof (cases "n < b")
    case True
    then show ?thesis
      using 1(2,3) by (subst (1 2) numeral_text.simps) (simp add: number_of_def digit_value_digit_char)
  next
    case False
    have "n mod b < 16" "n mod b < b" using 1(2,3) by (auto intro: less_le_trans [OF mod_less_divisor])
    then have "digit_value (digit_char (n mod b)) = Some (n mod b)" "n mod b < b"
      by (simp_all add: digit_value_digit_char)
    then show ?thesis
      using 1 False by (subst (1 2) numeral_text.simps) simp
  qed
qed

lemma numeral_text_not_Nil [simp]: "numeral_text b n \<noteq> []"
  by (subst numeral_text.simps) simp
lemma atoi_loop_digits:
  "digits_of_base 10 ds \<Longrightarrow>
   atoi_loop ds (- int acc) = - int (foldl (\<lambda>acc c. acc * 10 + the (digit_value c)) acc ds)"
proof (induction ds arbitrary: acc)
  case (Cons c ds)
  then obtain d where d: "digit_value c = Some d" "d < 10" by auto
  have e: "10 * - int acc - (uint c - 0x30) = - int (acc * 10 + d)"
    using digit_value_class(5) [OF d] by simp
  have "digits_of_base 10 ds" using Cons.prems by simp
  then show ?case
    using digit_value_class(4) [OF d] d(1) Cons.IH [of "acc * 10 + d"]
    by (simp only: atoi_loop.simps if_True e foldl_Cons option.sel)
qed simp

lemma atoi_value:
  assumes "sign_text sign" "ds \<noteq> []" "digits_of_base 10 ds"
  shows "atoi (sign @ ds) = (if sign = [45] then - int (number_of 10 ds) else int (number_of 10 ds))"
proof -
  have s: "dropWhile isspace (sign @ ds) = sign @ ds"
    using skip_space [of "[]" sign ds 10 "[]"] assms by simp
  have hd: "hd ds \<noteq> 45" "hd ds \<noteq> 43"
    using assms(2,3) digit_value_class(2,3) by (cases ds; auto)+
  show ?thesis
    unfolding atoi_def s using assms(1,2) hd atoi_loop_digits [OF assms(3), of 0]
    by (auto simp: sign_text_def number_of_def Let_def)
qed

lemma sint_cases:
  "sint (w :: u32) = (if w <s 0 then - int (unat (- w)) else int (unat w))"
proof (cases "w <s 0")
  case True
  then have neg: "sint w < 0" by (simp add: word_sless_alt)
  have "uint (word_of_int (- sint w) :: u32) = - sint w"
    using neg sint_ge [of w] by (simp only: uint_word_of_int_eq) (simp add: take_bit_int_eq_self_iff)
  then have "uint (- w) = - sint w" by simp
  then show ?thesis using True by simp
next
  case False
  then have "0 \<le> sint w" by (simp add: word_sless_alt)
  moreover have "sint w < 2 ^ 32" using sint_lt [of w] by simp
  ultimately have "uint (word_of_int (sint w) :: u32) = sint w"
    by (simp only: uint_word_of_int_eq) (simp add: take_bit_int_eq_self_iff)
  then show ?thesis using False by simp
qed

lemma numeral_text_16_no_prefix: "take 2 (numeral_text 16 n) \<notin> {[48, 120], [48, 88]}"
proof
  assume a: "take 2 (numeral_text 16 n) \<in> {[48, 120], [48, 88]}"
  have "digits_of_base 16 (take 2 (numeral_text 16 n))"
    using number_of_numeral_text [of 16 n] in_set_takeD by (fastforce simp: digits_of_base_def)
  then have "digits_of_base 16 [120] \<or> digits_of_base 16 [88]" using a by auto
  then show False by (simp add: digit_value_def isdigit_def isalpha_def isupper_def)
qed

section \<open>Printing into a buffer\<close>

lemma fold_str_out:
  assumes "str \<noteq> 0"
  shows "fold (str_out str (int n)) out (m, int k) =
    (\<lambda>a. if str + k \<le> a \<and> a < str + min n (k + length out)
         then (if a = str + n - 1 then 0 else out ! (a - str - k)) else m a, int (k + length out))"
proof (induction out arbitrary: m k)
  case Nil
  then show ?case by (auto simp: fun_eq_iff)
next
  case (Cons c out)
  define m' where "m' = (if k \<ge> n then m else if Suc k = n then m(str + k := 0) else m(str + k := c))"
  have last: "int k = int n - 1 \<longleftrightarrow> Suc k = n" by linarith
  have "str_out str (int n) c (m, int k) = (m', int (Suc k))"
    using assms unfolding str_out_def prod.case nat_int last m'_def by simp
  then have "fold (str_out str (int n)) (c # out) (m, int k) = fold (str_out str (int n)) out (m', int (Suc k))"
    by simp
  also have "\<dots> = (\<lambda>a. if str + Suc k \<le> a \<and> a < str + min n (Suc k + length out)
         then (if a = str + n - 1 then 0 else out ! (a - str - Suc k)) else m' a, int (Suc k + length out))"
    by (rule Cons.IH)
  also have "\<dots> = (\<lambda>a. if str + k \<le> a \<and> a < str + min n (k + length (c # out))
         then (if a = str + n - 1 then 0 else (c # out) ! (a - str - k)) else m a, int (k + length (c # out)))"
    by (auto simp: m'_def fun_eq_iff nth_Cons' intro: arg_cong [where f = "(!) out"])
  finally show ?case .
qed



text \<open>
  \<open>str_out\<close> is ready for a null pointer, but the terminating zero is stored without that test:
  a call with a null pointer and a size that the text does not fill writes to the address that is
  the text's length.
\<close>
theorem snprintk_null_writes:
  "snprintk 0 2 [ch CHR ''a''] [] m = Some (m(1 := 0), 1)"
  by (simp add: snprintk_def str_out_def)

end
