(* ===== verification/System.thy ===== *)
theory System
  imports Mutex Timer Sem Stack Queue Slab
begin

text \<open>
  The kernel with all its objects: any number of semaphores, stacks, queues, memory slabs and
  mutexes over one kernel with its threads and timers. The steps of the system are the calls
  of the kernel interface, by threads and by interrupt handlers in any order, and the clock
  interrupts. Every object's contract speaks of steps of the rest of the system; here
  these steps are the operations of the other objects.
\<close>

section \<open>Steps that leave other wait queues alone\<close>

text \<open>
  A step adds no waiter to any queue except those in \<open>W\<close>, and the running thread can run
  afterwards if it could before. A calm step also keeps the kernel invariant and that of the
  timers.
\<close>

definition undisturbed :: "wqid set \<Rightarrow> kernel \<Rightarrow> kernel \<Rightarrow> bool" where
  "undisturbed W s s' \<longleftrightarrow>
     idle_thread s' = idle_thread s \<and>
     (\<forall>i. timer_wait_q (timers s' i) = timer_wait_q (timers s i)) \<and>
     (\<forall>w. w \<notin> W \<longrightarrow> set (wait_qs s' w) \<subseteq> set (wait_qs s w)) \<and>
     (is_thread_ready (current s) s \<longrightarrow> is_thread_ready (current s') s')"

definition calm :: "wqid set \<Rightarrow> kernel \<Rightarrow> kernel \<Rightarrow> bool" where
  "calm W s s' \<longleftrightarrow> kinv {} s' \<and> timers_wf s' \<and> undisturbed W s s'"

lemma undisturbed_refl: "undisturbed W s s"
  by (simp add: undisturbed_def)

lemma undisturbed_trans: "undisturbed W s s' \<Longrightarrow> undisturbed W s' s'' \<Longrightarrow> undisturbed W s s''"
  unfolding undisturbed_def by (metis subset_trans)

lemma calm_refl: "kinv {} s \<Longrightarrow> timers_wf s \<Longrightarrow> calm W s s"
  by (simp add: calm_def undisturbed_refl)

lemma calm_trans: "calm W s s' \<Longrightarrow> calm W s' s'' \<Longrightarrow> calm W s s''"
  using undisturbed_trans by (auto simp: calm_def)

lemma calm_mono: "calm W s s' \<Longrightarrow> W \<subseteq> W' \<Longrightarrow> calm W' s s'"
  unfolding calm_def undisturbed_def by blast

lemma calm_kinv: "calm W s s' \<Longrightarrow> kinv {} s'" "calm W s s' \<Longrightarrow> timers_wf s'"
  by (simp_all add: calm_def)

text \<open>States that differ only in what does not matter here.\<close>

lemma calm_frame:
  assumes "calm W s s'" and "kinv {} s''"
    and "\<And>t. thread_state (threads s'' t) = thread_state (threads s' t)"
    and "\<And>t. delta s'' (TThread t) = delta s' (TThread t)" and "wait_qs s'' = wait_qs s'"
    and "idle_thread s'' = idle_thread s'" and "timers s'' = timers s'"
    and "current s'' = current s' \<or> current s'' = cache s''"
  shows "calm W s s''"
proof -
  have "is_thread_ready (current s'') s''" if "is_thread_ready (current s') s'"
    using assms(8) that cache_ready [OF assms(2)] assms(3,4) by (auto simp: is_thread_ready_bits)
  then show ?thesis
    using assms by (simp add: calm_def undisturbed_def timers_wf_def)
qed

lemma calm_simps:
  assumes "calm W s s'"
  shows "calm W s (Swap s')" "calm W s (reschedule_threads s')"
    "calm W s (upd_thread t (\<lambda>b. b\<lparr>return_value := v\<rparr>) s')"
    "calm W s (upd_thread t (\<lambda>b. b\<lparr>swap_data := d\<rparr>) s')" "calm W s (k_sched_unlock s')"
    "calm W s (s'\<lparr>nested := n\<rparr>)" "calm W s (s'\<lparr>time_slice_elapsed := e\<rparr>)"
    "calm W s (s'\<lparr>sys_clock_tick_count := c\<rparr>)" "calm W s (s'\<lparr>current := cache s'\<rparr>)"
  using calm_kinv(1) [OF assms]
  by (rule_tac calm_frame [OF assms]; auto simp: reschedule_threads_def k_sched_unlock_def)+

lemma calm_wake_upd:
  assumes inv: "kinv {} s" "timers_wf s" and ff: "find_first_thread_to_unpend w None s = Some t"
    and f: "\<And>b. prio (f b) = prio b" "\<And>b. thread_state (f b) = thread_state b"
  shows "calm {} s (wake_upd t f s)"
proof -
  note w = wake_upd [OF inv(1) ff f] and d = wake_upd_delta [OF inv(1) ff, of f]
  have sub: "set (wait_qs (wake_upd t f s) v) \<subseteq> set (wait_qs s v)" for v
    using w(1) by (auto simp: served_def dest: set_remove1_subset [THEN subsetD])
  have "timers_wf (wake_upd t f s)"
    using timers_wf_period [OF inv(2)] by (intro timers_wf_frame [OF inv(2)] sub) (auto simp: w d)
  moreover have "is_thread_ready (current s) (wake_upd t f s)" if "is_thread_ready (current s) s"
  proof -
    have "t \<noteq> current s"
      using waiter_not_current [OF inv(1) that] find_first_Some(1) [OF inv(1) ff] by blast
    then show ?thesis
      using that d [of "current s"] by (auto simp: is_thread_ready_bits w(7))
  qed
  ultimately show ?thesis
    using w sub by (simp add: calm_def undisturbed_def served_def)
qed

lemma calm_wake:
  assumes "kinv {} s" "timers_wf s" and "find_first_thread_to_unpend w None s = Some t"
  shows "calm {} s (wake t s)"
proof -
  have "wake t s = wake_upd t (\<lambda>b. b) s"
    by (simp add: wake_def wake_upd_def upd_thread_def)
  then show ?thesis
    using calm_wake_upd [OF assms] by simp
qed

text \<open>Blocking the running thread, on a queue that is not a timer's if a timeout is set.\<close>

lemma pend_current_delta:
  assumes inv: "kinv {} s" and b: "can_block s" and ok: "timeout_ok timeout"
  shows "delta (pend_current_thread call w timeout s) (TThread u) = INACTIVE \<longleftrightarrow>
    delta s (TThread u) = INACTIVE \<and> (u = current s \<longrightarrow> timeout = K_FOREVER)"
proof (cases "timeout = K_FOREVER")
  case True
  then show ?thesis
    by (simp add: pend_current_thread_def pend_thread_def Let_def insert_in_wait_q_def)
next
  case False
  let ?t = "current s"
  let ?s = "mark_thread_as_pending ?t (insert_in_wait_q ?t w (remove_thread_from_ready_q ?t s))"
  have tk: "0 < TICK_ALIGN + ms_to_ticks timeout" "TICK_ALIGN + ms_to_ticks timeout < 2 ^ 31"
    using ticks_ok [of timeout] ok False by (auto simp: timeout_ok_def)
  have same: "timeouts ?s = timeouts s" "timeout_q ?s = timeout_q s" "handling_timeouts ?s = handling_timeouts s"
    by (simp_all add: insert_in_wait_q_def)
  have "tq_inv ?s"
    using kinvD(3) [OF inv] by (subst tq_inv_cong [where s = s]) (simp_all add: same del: mark_sel)
  moreover have "delta ?s (TThread ?t) = INACTIVE"
    using b ready_delta by (simp add: same can_block_def del: mark_sel)
  ultimately show ?thesis
    using tq_inv_add_timeout(3) [OF _ _ tk] False
    by (auto simp: pend_current_thread_def pend_thread_def Let_def add_thread_timeout_def same simp del: mark_sel)
qed

lemma calm_pend_current:
  assumes inv: "kinv {} s" "timers_wf s" and b: "can_block s" and ok: "timeout_ok timeout"
    and w: "\<And>i. timeout \<noteq> K_FOREVER \<Longrightarrow> w \<noteq> timer_wait_q (timers s i)"
  shows "calm {w} s (Swap (pend_current_thread call w timeout s))"
proof -
  let ?p = "pend_current_thread call w timeout s"
  note k = kinv_pend_current [OF inv(1) b ok, of call w] and sel = pend_current_sel [OF ok, of call w s]
  note d = pend_current_delta [OF inv(1) b ok, of call w]
  have nw: "current s \<notin> set (wait_qs s v)" for v
    using b waiter_not_current [OF inv(1)] by (auto simp: can_block_def)
  have "timers_wf ?p"
    unfolding timers_wf_def sel k(2)
  proof (intro allI conjI ballI)
    fix i t
    assume t: "t \<in> set (((wait_qs s)(w := insert_by_prio (\<lambda>u. prio (threads s u)) (current s) (wait_qs s w)))
        (timer_wait_q (timers s i)))"
    then have "t = current s \<and> timeout = K_FOREVER \<or> t \<noteq> current s \<and> t \<in> set (wait_qs s (timer_wait_q (timers s i)))"
      using w [of i] nw by (auto split: if_splits)
    then show "delta ?p (TThread t) = INACTIVE"
      using timers_wf_waiter [OF inv(2), of t i] b ready_delta by (auto simp: d can_block_def)
  qed (use timers_wf_period [OF inv(2)] in auto)
  then have "timers_wf (Swap ?p)"
    by (simp add: timers_wf_def)
  moreover have "is_thread_ready (current (Swap ?p)) (Swap ?p)"
    using cache_ready [of "Swap ?p"] k(1) by simp
  ultimately show ?thesis
    using k sel by (simp add: calm_def undisturbed_def)
qed

section \<open>Clock interrupts\<close>

text \<open>
  Expiry functions run in the clock interrupt and must not block: what they do to the kernel
  is calm.
\<close>

locale calm_fns = timer_fns +
  assumes expiry_calm: "kinv {} s \<Longrightarrow> timers_wf s \<Longrightarrow> handling_timeouts s \<Longrightarrow>
    delta s (TTimer i) \<noteq> EXPIRED \<Longrightarrow> undisturbed {} s (expiry f i s)"

lemma undisturbed_release:
  assumes inv: "kinv {} s" and t: "t \<in> set (wait_qs s w)" and d: "delta s (TThread t) = INACTIVE"
  shows "undisturbed {} s (release t s)"
proof -
  note r = release [OF inv t d]
  have "threads (release t s) u = threads s u" "idle_thread (release t s) = idle_thread s" if "u \<noteq> t" for u
    using that by (simp_all add: release_def unpend_thread_eq [OF inv t])
  moreover have "is_thread_ready (current s) s \<Longrightarrow> t \<noteq> current s"
    using waiter_not_current [OF inv] t by blast
  moreover have "idle_thread (release t s) = idle_thread s"
    by (simp add: release_def unpend_thread_eq [OF inv t])
  ultimately show ?thesis
    using r by (auto simp: undisturbed_def is_thread_ready_bits
        dest: set_remove1_subset [THEN subsetD])
qed

lemma undisturbed_rearm:
  assumes "kinv {} s" and "timers_wf s" and "delta s (TTimer i) = INACTIVE"
  shows "undisturbed {} s (upd_timer i (\<lambda>t. t\<lparr>status := status t + 1\<rparr>) (rearm i s))"
proof -
  have p: "period (timers s i) < 2 ^ 31"
    using timers_wf_period [OF assms(2)] by simp
  have "delta (rearm i s) (TThread u) = INACTIVE \<longleftrightarrow> delta s (TThread u) = INACTIVE" for u
    using tq_inv_add_timeout(3) [OF kinvD(3) [OF assms(1)] assms(3) _ p] by (simp add: rearm_def)
  moreover have "current (rearm i s) = current s" "idle_thread (rearm i s) = idle_thread s"
    by (simp_all add: rearm_def add_timeout_sel)
  ultimately show ?thesis
    using rearm [OF assms] by (simp add: undisturbed_def is_thread_ready_bits)
qed

lemma undisturbed_handle_thread:
  assumes inv: "kinv {} s" and e: "delta s (TThread t) = EXPIRED"
  shows "undisturbed {} s (handle_one_expired_timeout call (TThread t) s)"
proof -
  note h = handle_one_thread [OF inv e refl, where call = call]
  have l: "to_thread (timeouts s (TThread t)) = Some t"
    using kinvD(4) [OF inv] e by (simp add: link_inv_def)
  have "current (handle_one_expired_timeout call (TThread t) s) = current s"
    "idle_thread (handle_one_expired_timeout call (TThread t) s) = idle_thread s"
    using l by (simp_all add: handle_one_expired_timeout_def unpend_thread_timing_out_def unpend_thread_def Let_def)
  moreover have "is_thread_ready (current s) s \<Longrightarrow> t \<noteq> current s"
    using e ready_delta by fastforce
  ultimately show ?thesis
    using h(3,4,7) timers_handle_thread [OF inv e]
    by (auto simp: undisturbed_def is_thread_ready_bits dest: set_remove1_subset [THEN subsetD])
qed

context calm_fns
begin

lemma undisturbed_timer_call:
  assumes inv: "kinv {} s" "timers_wf s" and h: "handling_timeouts s" and d: "delta s (TTimer i) = INACTIVE"
  shows "undisturbed {} s (timer_call expiry f (TTimer i) s)"
proof -
  define r where "r = upd_timer i (\<lambda>t. t\<lparr>status := status t + 1\<rparr>) (rearm i s)"
  have r: "kinv {} r" "timers_wf r" "handling_timeouts r" "delta r (TTimer i) \<noteq> EXPIRED"
    using rearm [OF inv d] h d by (simp_all add: r_def)
  define e where "e = (case expiry_fn (timers r i) of Some g \<Rightarrow> expiry g i r | None \<Rightarrow> r)"
  have e: "kinv {} e" "timers_wf e"
    using r expiry_ok by (simp_all add: e_def expiry_ok_def split: option.split)
  have "undisturbed {} s e"
    using undisturbed_rearm [OF inv d] undisturbed_trans expiry_calm [OF r]
    by (fastforce simp: e_def r_def split: option.split)
  moreover have "undisturbed {} e (release_first i e)"
  proof (cases "wait_qs e (timer_wait_q (timers e i))")
    case (Cons t ts)
    then have t: "t \<in> set (wait_qs e (timer_wait_q (timers e i)))"
      by simp
    show ?thesis
      using undisturbed_release [OF e(1) t timers_wf_waiter [OF e(2) t]] Cons
      by (auto simp: release_first_def undisturbed_def is_thread_ready_bits)
  qed (simp add: release_first_def undisturbed_refl)
  ultimately have "undisturbed {} s (release_first i e)"
    by (rule undisturbed_trans)
  then show ?thesis
    by (simp only: timer_call_eq Let_def r_def e_def)
qed

end

sublocale calm_fns \<subseteq> tick: timeout_callback "timer_call expiry" "\<lambda>s. timers_wf s \<and> undisturbed {} s0 s" for s0
proof (unfold_locales, goal_cases)
  case (1 s i f)
  then show ?case
    using timer_call_inv [of s i f] undisturbed_timer_call [of s i f] undisturbed_trans by blast
next
  case (2 s t)
  then show ?case
    using I_thread [of s t] undisturbed_handle_thread [of s t] undisturbed_trans by blast
next
  case (3 s x)
  have "undisturbed {} s (set_delta x INACTIVE s)"
    by (auto simp: undisturbed_def is_thread_ready_bits)
  then show ?case
    using 3 I_inactive undisturbed_trans by blast
next
  case (4 s ticks)
  have "undisturbed {} s (fst (expire ticks s))"
    using expire_facts(5) [OF kinvD(3) [OF 4(1)] 4(3,4)]
    by (simp add: undisturbed_def is_thread_ready_bits expire_sel [OF kinvD(3) [OF 4(1)]])
  then show ?case
    using 4 I_expire undisturbed_trans by blast
next
  case (5 s)
  have "undisturbed {} s (s\<lparr>handling_timeouts := False\<rparr>)"
    by (simp add: undisturbed_def is_thread_ready_bits)
  then show ?case
    using 5 I_done undisturbed_trans by blast
qed

lemma calm_move:
  assumes "kinv {} s" and "timers_wf s" and "is_thread_ready t s"
  shows "calm {} s (move_thread_to_end_of_prio_q t s)"
  using kinv_move [OF assms(1,3)] by (intro calm_frame [OF calm_refl [OF assms(1,2)]]) simp_all

context calm_fns
begin

lemma calm_tick:
  assumes inv: "kinv {} s" "timers_wf s" and nh: "\<not> handling_timeouts s" and r: "is_thread_ready (current s) s"
  shows "calm {} s (nano_sys_clock_tick_announce (timer_call expiry) 1 s)"
    and "\<not> handling_timeouts (nano_sys_clock_tick_announce (timer_call expiry) 1 s)"
proof -
  define a where "a = s\<lparr>sys_clock_tick_count := sys_clock_tick_count s + word_of_int 1\<rparr>"
  define b where "b = handle_timeouts (timer_call expiry) 1 a"
  have a: "calm {} s a" "\<not> handling_timeouts a"
    using calm_simps(8) [OF calm_refl [OF inv]] nh by (simp_all add: a_def)
  then have "kinv {} a" "timers_wf a \<and> undisturbed {} s a"
    by (simp_all add: calm_def)
  from tick.handle_timeouts_kinv [OF this a(2) one_tick_ahead [OF kinvD(3) [OF this(1)]]]
  have b: "calm {} s b" "\<not> handling_timeouts b"
    using a(2) by (auto simp: b_def calm_def handle_timeouts_expire)
  then have rb: "is_thread_ready (current b) b"
    using r by (simp add: calm_def undisturbed_def)
  have eq: "nano_sys_clock_tick_announce (timer_call expiry) 1 s = handle_time_slicing 1 b"
    by (simp add: nano_sys_clock_tick_announce_def a_def b_def Let_def)
  have m: "calm {} s (move_thread_to_end_of_prio_q (current b) (b\<lparr>time_slice_elapsed := 0\<rparr>))"
    using calm_trans [OF calm_simps(7) [OF b(1)] calm_move] calm_kinv [OF calm_simps(7) [OF b(1)]] rb
    by (simp add: is_thread_ready_bits)
  show "calm {} s (nano_sys_clock_tick_announce (timer_call expiry) 1 s)"
    using b(1) calm_simps(7) [OF b(1)] m by (auto simp: eq handle_time_slicing_def Let_def)
  show "\<not> handling_timeouts (nano_sys_clock_tick_announce (timer_call expiry) 1 s)"
    using b(2) by (simp add: eq handle_time_slicing_def Let_def)
qed

end

lemma undisturbed_timer_stop:
  assumes inv: "kinv {} s" "timers_wf s" and ne: "delta s (TTimer i) \<noteq> EXPIRED"
  shows "undisturbed {} s (k_timer_stop (\<lambda>_ _ s. s) i s)"
proof -
  define a where "a = fst (abort_timeout (TTimer i) s)"
  note t = tq_inv_abort [OF kinvD(3) [OF inv(1)] ne, folded a_def]
  have a: "kinv {} a" "timers a = timers s" "wait_qs a = wait_qs s" "threads a = threads s"
    "current a = current s" "idle_thread a = idle_thread s"
    using kinv_abort_timeout [OF inv(1) ne] by (simp_all add: a_def)
  have wf: "timers_wf a"
    using inv(2) t(5) by (simp add: timers_wf_def a)
  have ua: "undisturbed {} s a"
    using t(5) by (simp add: undisturbed_def a is_thread_ready_bits)
  define q where "q = (case wait_qs a (timer_wait_q (timers a i)) of [] \<Rightarrow> a | t # _ \<Rightarrow> release t a)"
  have q: "kinv {} q \<and> undisturbed {} s q"
  proof (cases "wait_qs a (timer_wait_q (timers a i))")
    case (Cons u us)
    then have u: "u \<in> set (wait_qs a (timer_wait_q (timers a i)))"
      by simp
    note d = timers_wf_waiter [OF wf u]
    show ?thesis
      using release(1) [OF a(1) u d] undisturbed_trans [OF ua undisturbed_release [OF a(1) u d]] Cons
      by (simp add: q_def)
  qed (use a ua in \<open>simp add: q_def\<close>)
  have "undisturbed {} q (reschedule_threads q)"
    using q cache_ready [of q] by (auto simp: undisturbed_def reschedule_threads_def is_thread_ready_bits)
  moreover have "k_timer_stop (\<lambda>_ _ s. s) i s =
      (if delta s (TTimer i) = INACTIVE then s else if is_in_isr q then q else reschedule_threads q)"
    using find_first_timer [OF wf, of i] a(2,3)
    by (auto simp: k_timer_stop_def Let_def a_def q_def release_def unpend_first_thread_def
        split_beta abort_timeout_inactive split: list.split option.split)
  ultimately show ?thesis
    using q undisturbed_refl undisturbed_trans [of "{}" s q] by auto
qed

interpretation own: calm_fns own_timer
proof unfold_locales
  fix s i f
  assume a: "kinv {} s" "timers_wf s" "handling_timeouts s" "delta s (TTimer i) \<noteq> EXPIRED"
  show "undisturbed {} s (own_timer f i s)"
    using undisturbed_timer_stop [OF a(1,2,4)]
    by (auto simp: own_timer_def k_timer_status_get_def undisturbed_def is_thread_ready_bits)
qed
section \<open>The calls of the kernel objects\<close>

text \<open>What every call starts from, and what a step leaves.\<close>

definition kernel_ok :: "kernel \<Rightarrow> bool" where
  "kernel_ok s \<longleftrightarrow> kinv {} s \<and> timers_wf s \<and> \<not> handling_timeouts s \<and> is_thread_ready (current s) s"

definition calm_step :: "wqid set \<Rightarrow> kernel \<Rightarrow> kernel \<Rightarrow> bool" where
  "calm_step W s s' \<longleftrightarrow> calm W s s' \<and> \<not> handling_timeouts s'"

lemma kernel_okD:
  assumes "kernel_ok s"
  shows "kinv {} s" "timers_wf s" "\<not> handling_timeouts s" "is_thread_ready (current s) s"
  using assms by (simp_all add: kernel_ok_def)

lemma calm_stepI: "kernel_ok s \<Longrightarrow> calm W s s' \<Longrightarrow> handling_timeouts s' = handling_timeouts s \<Longrightarrow> calm_step W s s'"
  by (simp add: calm_step_def kernel_ok_def)

lemma calm_step_refl: "kernel_ok s \<Longrightarrow> calm_step W s s"
  by (simp add: calm_step_def kernel_ok_def calm_refl)

lemma calm_step_frame:
  assumes "calm_step W s s'"
  shows "calm_step W s (Swap s')" "calm_step W s (reschedule_threads s')"
    "calm_step W s (upd_thread t (\<lambda>b. b\<lparr>return_value := v\<rparr>) s')"
    "calm_step W s (upd_thread t (\<lambda>b. b\<lparr>swap_data := d\<rparr>) s')" "calm_step W s (k_sched_unlock s')"
    "calm_step W s (s'\<lparr>nested := n\<rparr>)" "calm_step W s (s'\<lparr>current := cache s'\<rparr>)"
  using assms by (simp_all add: calm_step_def calm_simps)

lemma calm_step_ok: "kernel_ok s \<Longrightarrow> calm_step W s s' \<Longrightarrow> kernel_ok s'"
  by (auto simp: kernel_ok_def calm_step_def calm_def undisturbed_def)

lemma calm_step_wake:
  assumes "kernel_ok s" and "find_first_thread_to_unpend w None s = Some t"
  shows "calm_step W s (wake t s)"
  using calm_mono [OF calm_wake [OF kernel_okD(1,2) [OF assms(1)] assms(2)]] assms(1)
    wake_sel(6) [OF kernel_okD(1) [OF assms(1)] find_first_Some(1) [OF kernel_okD(1) [OF assms(1)] assms(2)]]
  by (intro calm_stepI) simp_all

lemma calm_step_pend:
  assumes "kernel_ok s" and "take_ok timeout s" and "timeout \<noteq> K_NO_WAIT"
    and "\<And>i. w \<noteq> timer_wait_q (timers s i)"
  shows "calm_step {w} s (Swap (pend_current_thread call w timeout s))"
  using assms calm_pend_current [of s timeout w call] pend_current_sel(4) [of timeout call w s]
  by (intro calm_stepI) (auto simp: kernel_ok_def take_ok_def)

lemma calm_sem_give:
  assumes "kernel_ok s"
  shows "calm_step W s (fst (k_sem_give sem s))"
proof (cases "find_first_thread_to_unpend (sem_wait_q sem) None s")
  case (Some t)
  then show ?thesis
    using calm_step_wake [OF assms Some] by (simp add: do_sem_give_waiter Let_def calm_step_frame)
qed (simp add: do_sem_give_none calm_step_refl [OF assms])

lemma calm_sem_take:
  assumes "kernel_ok s" and "take_ok timeout s" and "\<And>i. sem_wait_q sem \<noteq> timer_wait_q (timers s i)"
  shows "calm_step {sem_wait_q sem} s (fst (k_sem_take call sem timeout s))"
proof -
  have "timeout = K_NO_WAIT \<or> \<not> is_in_isr s"
    using assms(2) by (auto simp: take_ok_def)
  then show ?thesis
    using calm_step_pend [OF assms(1,2) _ assms(3), of call] calm_step_refl [OF assms(1)]
    by (auto simp: k_sem_take_def Let_def is_in_isr_def)
qed

lemma calm_stack_push:
  assumes "kernel_ok s" and ne: "stack_next st \<noteq> top st"
  shows "calm_step W s (fst (k_stack_push st data s))"
proof (cases "find_first_thread_to_unpend (stack_wait_q st) None s")
  case (Some t)
  then show ?thesis
    using calm_step_wake [OF assms(1) Some] by (simp add: push_waiter [OF ne] Let_def calm_step_frame)
qed (simp add: push_none [OF ne] calm_step_refl [OF assms(1)])

lemma calm_stack_pop:
  assumes "kernel_ok s" and "take_ok timeout s" and "\<And>i. stack_wait_q st \<noteq> timer_wait_q (timers s i)"
  shows "calm_step {stack_wait_q st} s (fst (k_stack_pop call st timeout s))"
  using calm_step_pend [OF assms(1,2) _ assms(3), of call] calm_step_refl [OF assms(1)]
  by (simp add: k_stack_pop_def Let_def)

lemma calm_queue_append:
  assumes "kernel_ok s"
  shows "calm_step W s (fst (k_queue_append data (s, h, q)))"
proof (cases "find_first_thread_to_unpend (queue_wait_q q) None s")
  case (Some t)
  then show ?thesis
    using calm_step_wake [OF assms Some]
    by (simp add: k_queue_append_def queue_insert_waiter Let_def calm_step_frame)
qed (simp add: k_queue_append_def queue_insert_none calm_step_refl [OF assms])

lemma calm_queue_get:
  assumes "kernel_ok s" and "take_ok timeout s" and "\<And>i. queue_wait_q q \<noteq> timer_wait_q (timers s i)"
  shows "calm_step {queue_wait_q q} s (fst (fst (k_queue_get call timeout (s, h, q))))"
  using calm_step_pend [OF assms(1,2) _ assms(3), of call] calm_step_refl [OF assms(1)]
  by (simp add: k_queue_get_def Let_def split_beta)

lemma calm_slab_free:
  assumes "kernel_ok s"
  shows "calm_step W s (fst (k_mem_slab_free b (s, mem, slab)))"
proof (cases "find_first_thread_to_unpend (slab_wait_q slab) None s")
  case (Some t)
  let ?f = "\<lambda>c. c\<lparr>return_value := 0, swap_data := b\<rparr>"
  have "calm_step W s (wake_upd t ?f s)"
    using calm_mono [OF calm_wake_upd [OF kernel_okD(1,2) [OF assms] Some, of ?f]]
      wake_upd(4) [OF kernel_okD(1) [OF assms] Some, of ?f]
    by (intro calm_stepI [OF assms]) simp_all
  then show ?thesis
    by (simp add: free_waiter [OF Some] Let_def calm_step_frame)
qed (use calm_step_refl [OF assms] in \<open>simp add: k_mem_slab_free_def unpend_first_thread_def\<close>)

lemma calm_slab_alloc:
  assumes "kernel_ok s" and "take_ok timeout s" and "\<And>i. slab_wait_q slab \<noteq> timer_wait_q (timers s i)"
  shows "calm_step {slab_wait_q slab} s (fst (fst (k_mem_slab_alloc call timeout (s, mem, slab))))"
  using calm_step_pend [OF assms(1,2) _ assms(3), of call] calm_step_refl [OF assms(1)]
  by (simp add: k_mem_slab_alloc_def Let_def)
text \<open>Outside the handling of timeouts a timeout is inactive unless it is in the queue.\<close>

lemma inactive_iff:
  assumes "tq_inv s" and "\<not> handling_timeouts s"
  shows "delta s x = INACTIVE \<longleftrightarrow> rem_ticks s x = None"
  using assms unfolding tq_inv_def by (cases "x \<in> set (timeout_q s)") force+

lemma calm_inherit:
  assumes ok: "kernel_ok s" and t: "owner m = Some t" "t \<noteq> idle_thread s"
  shows "calm_step W s (inherit m (with_sched_lock s))"
proof -
  let ?i = "inherit m (with_sched_lock s)"
  have "timers ?i = timers s" "timeouts ?i = timeouts s" "\<And>u. thread_state (threads ?i u) = thread_state (threads s u)"
    by (simp_all add: inherit_def Let_def adjust_owner_prio_def with_sched_lock_def split: option.split)
  then show ?thesis
    using kinv_inherit [of "with_sched_lock s" m t] kernel_okD(1) [OF ok] t
    by (intro calm_stepI [OF ok] calm_frame [OF calm_refl [OF kernel_okD(1,2) [OF ok]]]) simp_all
qed

lemma calm_mutex_lock:
  assumes ok: "kernel_ok s" and m: "mutex_wf m s" and c: "can_block s" "can_sched_lock s" "timeout_ok timeout"
    and q: "\<And>i. mutex_wait_q m \<noteq> timer_wait_q (timers s i)"
  shows "calm_step {mutex_wait_q m} s (fst (k_mutex_lock call m timeout s))"
proof -
  consider "lock_count m = 0 \<or> owner m = Some (current s)"
    | t where "lock_count m \<noteq> 0" "owner m = Some t" "t \<noteq> current s" "t \<noteq> idle_thread s"
    using m by (auto simp: mutex_wf_def)
  then show ?thesis
  proof cases
    case 1
    then show ?thesis
      using calm_step_frame(2) [OF calm_step_refl [OF ok]] by (simp add: lock_free_eq [OF c(2) 1])
  next
    case (2 t)
    let ?i = "inherit m (with_sched_lock s)"
    have i: "calm_step {mutex_wait_q m} s ?i"
      using calm_inherit [OF ok 2(2,4)] .
    show ?thesis
    proof (cases "timeout = K_NO_WAIT")
      case True
      then show ?thesis
        using lock_busy_eq [OF c(2) 2(1), of call] 2(2,3) calm_step_frame(2) [OF calm_step_refl [OF ok]] by simp
    next
      case False
      have tm: "timers ?i = timers s"
        by (simp add: inherit_def Let_def adjust_owner_prio_def with_sched_lock_def split: option.split)
      have "take_ok timeout ?i"
        using c by (simp add: take_ok_def can_sched_lock_def is_in_isr_def)
      then have "calm_step {mutex_wait_q m} ?i (Swap (pend_current_thread call (mutex_wait_q m) timeout ?i))"
        using calm_step_pend [OF calm_step_ok [OF ok i] _ False] q by (simp add: tm)
      then show ?thesis
        using i calm_trans by (auto simp: lock_block_eq [OF c(2) 2(1-3) False] calm_step_def)
    qed
  qed
qed

lemma calm_mutex_unlock:
  assumes ok: "kernel_ok s" and m: "mutex_wf m s" and c: "can_sched_lock s" "owner m = Some (current s)"
  shows "calm_step W s (fst (k_mutex_unlock m s))"
proof -
  let ?r = "restored m s"
  have "timers ?r = timers s" "timeouts ?r = timeouts s" "\<And>u. thread_state (threads ?r u) = thread_state (threads s u)"
    by (simp_all add: restored_def adjust_owner_prio_def with_sched_lock_def split: option.split)
  then have r: "calm_step W s ?r"
    using kinv_restored [OF kernel_okD(1) [OF ok] m c(2)] 
    by (intro calm_stepI [OF ok] calm_frame [OF calm_refl [OF kernel_okD(1,2) [OF ok]]]) simp_all
  have "lock_count m \<noteq> 0"
    using m c(2) by (auto simp: mutex_wf_def)
  then consider (more) "1 < lock_count m" | (last) "lock_count m = 1"
    by (metis word_gt_0 word_less_1 linorder_neqE)
  then show ?thesis
  proof cases
    case more
    then show ?thesis
      using calm_step_frame(2) [OF calm_step_refl [OF ok]] by (simp add: unlock_nested_eq [OF c])
  next
    case last
    show ?thesis
    proof (cases "find_first_thread_to_unpend (mutex_wait_q m) None ?r")
      case None
      then show ?thesis
        using calm_step_frame(5) [OF r] by (simp add: unlock_last_eq [OF c last] del: find_first_head)
    next
      case (Some t)
      have "calm_step W s (wake t ?r)"
        using calm_step_wake [OF calm_step_ok [OF ok r] Some, of W] r calm_trans by (auto simp: calm_step_def)
      then show ?thesis
        using Some by (simp add: unlock_last_eq [OF c last] Let_def calm_step_frame del: find_first_head)
    qed
  qed
qed

section \<open>Calls of threads and timers\<close>

lemma calm_yield:
  assumes ok: "kernel_ok s" and "\<not> is_in_isr s"
  shows "calm_step W s (k_yield s)"
proof -
  have "calm_step W s (move_thread_to_end_of_prio_q (current s) s)"
    using calm_mono [OF calm_move [OF kernel_okD(1,2,4) [OF ok]]] by (intro calm_stepI [OF ok]) simp_all
  then show ?thesis
    using assms(2) by (simp add: k_yield_def Let_def calm_step_frame)
qed

lemma calm_sleep:
  assumes ok: "kernel_ok s" and b: "can_block s" and i: "\<not> is_in_isr s" and d: "0 < duration" "duration < 2 ^ 31"
  shows "calm_step W s (k_sleep call duration s)"
proof -
  let ?s = "k_sleep call duration s"
  note k = kinv_k_sleep [OF kernel_okD(1) [OF ok] b i d, of call]
  have tk: "0 < TICK_ALIGN + ms_to_ticks duration"
    using ticks_ok [of duration] d by auto
  have eq: "?s = Swap (add_timeout call (Some (current s)) (TThread (current s)) None (TICK_ALIGN + ms_to_ticks duration)
      (remove_thread_from_ready_q (current s) s))"
    using d i by (simp add: k_sleep_def Let_def add_thread_timeout_def is_in_isr_def)
  have sel: "wait_qs ?s = wait_qs s" "timers ?s = timers s" "idle_thread ?s = idle_thread s"
      "handling_timeouts ?s = handling_timeouts s" "current ?s = cache ?s"
    using kinv_remove_thread(2) [OF kernel_okD(1,4) [OF ok]] b
    by (simp_all add: eq add_timeout_sel [OF tk] can_block_def)
  have "delta ?s (TThread u) = INACTIVE \<longleftrightarrow> u \<noteq> current s \<and> delta s (TThread u) = INACTIVE" for u
    using inactive_iff [OF kinvD(3) [OF k(1)], of "TThread u"] sel(4) kernel_okD(3) [OF ok] k(2) [of "TThread u"]
      inactive_iff [OF kinvD(3) [OF kernel_okD(1) [OF ok]], of "TThread u"]
    by (simp del: remaining_None)
  moreover have "current s \<notin> set (wait_qs s w)" for w
    using waiter_not_current [OF kernel_okD(1,4) [OF ok]] by blast
  ultimately have "timers_wf ?s"
    using kernel_okD(2) [OF ok] by (auto simp: timers_wf_def sel)
  then show ?thesis
    using k(1) cache_ready [OF k(1)] sel kernel_okD(3) [OF ok] by (simp add: calm_step_def calm_def undisturbed_def)
qed
lemma calm_wakeup:
  assumes ok: "kernel_ok s"
  shows "calm_step W s (k_wakeup t s)"
proof (cases "is_thread_pending t s \<or> delta s (TThread t) = INACTIVE")
  case True
  then show ?thesis
    using calm_step_refl [OF ok] by (auto simp: k_wakeup_def abort_thread_timeout_def abort_timeout_inactive)
next
  case False
  let ?a = "fst (abort_timeout (TThread t) s)"
  let ?r = "ready_thread t ?a"
  have ne: "delta s (TThread t) \<noteq> EXPIRED"
    using inactive_iff [OF kinvD(3) [OF kernel_okD(1) [OF ok]] kernel_okD(3) [OF ok]] expired_iff
      kinvD(3) [OF kernel_okD(1) [OF ok]] by blast
  have eq: "k_wakeup t s = (if is_in_isr ?r then ?r else reschedule_threads ?r)"
    using False by (simp add: k_wakeup_def abort_thread_timeout_def Let_def split_beta)
  have k: "kinv {} ?r"
    using kinv_k_wakeup [OF kernel_okD(1,3) [OF ok], of t] by (simp add: eq split: if_splits)
  have dl: "u \<noteq> t \<Longrightarrow> delta ?a (TThread u) = INACTIVE \<longleftrightarrow> delta s (TThread u) = INACTIVE" for u
    using tq_inv_abort(5) [OF kinvD(3) [OF kernel_okD(1) [OF ok]] ne, of "TThread u"] by simp
  have nw: "t \<notin> set (wait_qs s w)" for w
    using False kinv_not_waiting [OF kernel_okD(1) [OF ok]] by blast
  have "timers_wf ?r"
    using timers_wf_period [OF kernel_okD(2) [OF ok]] nw
    by (intro timers_wf_frame [OF kernel_okD(2) [OF ok]]) (auto, metis dl)
  moreover have "t \<noteq> current s"
    using False ready_delta kernel_okD(4) [OF ok] by blast
  ultimately have "calm_step W s ?r"
    using k kernel_okD(3,4) [OF ok] dl [of "current s"]
    by (simp add: calm_step_def calm_def undisturbed_def is_thread_ready_bits)
  then show ?thesis
    by (simp add: eq calm_step_frame)
qed

lemma calm_priority_set:
  assumes ok: "kernel_ok s" and "\<not> is_in_isr s" and "t \<noteq> idle_thread s"
    and "K_HIGHEST_THREAD_PRIO \<le> p" "p < K_LOWEST_THREAD_PRIO"
  shows "calm_step W s (k_thread_priority_set t p s)"
proof -
  have "calm_step W s (thread_priority_set t p s)"
    using kinv_thread_priority_set [OF kernel_okD(1) [OF ok] assms(3-5)]
    by (intro calm_stepI [OF ok] calm_frame [OF calm_refl [OF kernel_okD(1,2) [OF ok]]]) simp_all
  then show ?thesis
    using assms(2,4,5) calm_step_frame(2)
    by (simp add: k_thread_priority_set_def Let_def kernel_simps)
qed

lemma calm_timer_start:
  assumes ok: "kernel_ok s" and d: "0 < duration" "duration < 2 ^ 31" and p: "0 \<le> per" "per < 2 ^ 31"
  shows "calm_step W s (k_timer_start call i duration per s)"
proof -
  let ?s = "k_timer_start call i duration per s"
  have ne: "delta s (TTimer i) \<noteq> EXPIRED"
    using inactive_iff [OF kinvD(3) [OF kernel_okD(1) [OF ok]] kernel_okD(3) [OF ok]] expired_iff
      kinvD(3) [OF kernel_okD(1) [OF ok]] by blast
  note t = timer_start [OF kernel_okD(1,2) [OF ok] ne d p refl, where call = call]
  have "0 < ms_to_ticks duration"
    using d by (simp add: ms_to_ticks_eq)
  then have cur: "current ?s = current s" "idle_thread ?s = idle_thread s"
    by (simp_all add: k_timer_start_def Let_def add_timeout_sel)
  have "delta ?s (TThread u) = INACTIVE \<longleftrightarrow> delta s (TThread u) = INACTIVE" for u
    using inactive_iff [OF kinvD(3) [OF t(1)], of "TThread u"] t(4) [of "TThread u"] t(8) kernel_okD(3) [OF ok]
      inactive_iff [OF kinvD(3) [OF kernel_okD(1) [OF ok]], of "TThread u"]
    by (simp del: remaining_None)
  then show ?thesis
    using t(1,2,5-8) kernel_okD(3) [OF ok] cur
    by (simp add: calm_step_def calm_def undisturbed_def is_thread_ready_bits)
qed

lemma calm_timer_stop:
  assumes ok: "kernel_ok s" and n: "stop_fn (timers s i) = None"
  shows "calm_step W s (k_timer_stop stop i s)"
proof -
  have ne: "delta s (TTimer i) \<noteq> EXPIRED"
    using inactive_iff [OF kinvD(3) [OF kernel_okD(1) [OF ok]] kernel_okD(3) [OF ok]] expired_iff
      kinvD(3) [OF kernel_okD(1) [OF ok]] by blast
  have eq: "k_timer_stop stop i s = k_timer_stop (\<lambda>_ _ s. s) i s"
    using n by (simp add: k_timer_stop_def split_beta Let_def)
  have "hands_off ((\<lambda>_ _ s. s) f i)" for f :: fn_ptr
    by (simp add: hands_off_def)
  note st = timer_stop [OF kernel_okD(1,2) [OF ok] ne this refl]
  have "undisturbed W s (k_timer_stop (\<lambda>_ _ s. s) i s)"
    using undisturbed_timer_stop [OF kernel_okD(1,2) [OF ok] ne] by (auto simp: undisturbed_def)
  then show ?thesis
    using st(1-3) kernel_okD(3) [OF ok] by (simp add: eq calm_step_def calm_def)
qed

lemma calm_timer_sync:
  assumes ok: "kernel_ok s" and b: "can_block s" and i: "\<not> is_in_isr s"
  shows "calm_step {timer_wait_q (timers s i)} s (fst (k_timer_status_sync call i s))"
proof -
  have "calm_step {timer_wait_q (timers s i)} s (Swap (pend_current_thread call (timer_wait_q (timers s i)) K_FOREVER s))"
    using calm_pend_current [OF kernel_okD(1,2) [OF ok] b, of K_FOREVER] pend_current_sel(4) [of K_FOREVER]
    by (intro calm_stepI [OF ok]) (auto simp: timeout_ok_def)
  moreover have "calm_step W s (upd_timer i (\<lambda>t. t\<lparr>status := 0\<rparr>) s)" for W
    using kernel_okD [OF ok] by (simp add: calm_step_def calm_def undisturbed_def)
  ultimately show ?thesis
    using i by (simp add: k_timer_status_sync_def Let_def)
qed
section \<open>The system\<close>

text \<open>
  Queues and slabs come with the memory that holds their nodes and blocks; the memory of
  different objects is disjoint.
\<close>

record system =
  kern :: kernel
  sems :: "nat \<Rightarrow> k_sem"
  stacks :: "nat \<Rightarrow> k_stack"
  queues :: "nat \<Rightarrow> sheap \<times> k_queue"
  slabs :: "nat \<Rightarrow> sheap \<times> k_mem_slab"
  mutexes :: "nat \<Rightarrow> k_mutex"

datatype obj = OSem nat | OStack nat | OQueue nat | OSlab nat | OMutex nat

primrec wait_q_of :: "system \<Rightarrow> obj \<Rightarrow> wqid" where
  "wait_q_of S (OSem i) = sem_wait_q (sems S i)"
| "wait_q_of S (OStack i) = stack_wait_q (stacks S i)"
| "wait_q_of S (OQueue i) = queue_wait_q (snd (queues S i))"
| "wait_q_of S (OSlab i) = slab_wait_q (snd (slabs S i))"
| "wait_q_of S (OMutex i) = mutex_wait_q (mutexes S i)"

text \<open>
  An object is fine in a kernel when its own invariant holds and nobody waits for what is
  available.
\<close>

primrec fine :: "system \<Rightarrow> kernel \<Rightarrow> obj \<Rightarrow> bool" where
  "fine S s (OSem i) \<longleftrightarrow> sem_inv (s, sems S i) \<and> (sem_avail (s, sems S i) = 0 \<or> sem_waiting (s, sems S i) = [])"
| "fine S s (OStack i) \<longleftrightarrow>
     stack_inv (s, stacks S i) \<and> (stack_avail (s, stacks S i) = 0 \<or> stack_waiting (s, stacks S i) = [])"
| "fine S s (OQueue i) \<longleftrightarrow>
     queue_inv (s, queues S i) \<and> (queue_avail (s, queues S i) = 0 \<or> queue_waiting (s, queues S i) = [])"
| "fine S s (OSlab i) \<longleftrightarrow>
     slab_inv (s, slabs S i) \<and> (slab_avail (s, slabs S i) = 0 \<or> slab_waiting (s, slabs S i) = [])"
| "fine S s (OMutex i) \<longleftrightarrow>
     mutex_inv (s, mutexes S i) \<and> (owner (mutexes S i) \<noteq> None \<or> wait_qs s (mutex_wait_q (mutexes S i)) = [])"

definition sys_inv :: "system \<Rightarrow> bool" where
  "sys_inv S \<longleftrightarrow>
     kernel_ok (kern S) \<and> inj (wait_q_of S) \<and>
     (\<forall>x i. wait_q_of S x \<noteq> timer_wait_q (timers (kern S) i)) \<and> (\<forall>x. fine S (kern S) x)"

text \<open>
  The steps. A call that may block is made by a thread that is not the idle thread, outside
  interrupts; objects are used as their documentation demands (a push finds room, an item is
  not queued twice, an allocated block is freed, only the owner unlocks a mutex). Interrupts
  nest: handlers run between \<open>irq_enter\<close> and \<open>irq_exit\<close>, and the clock's handler announces a
  tick.
\<close>

inductive sys_step :: "(fn_ptr \<Rightarrow> timer_id \<Rightarrow> kernel \<Rightarrow> kernel) \<Rightarrow> system \<Rightarrow> system \<Rightarrow> bool" for expiry where
  sem_give: "k_sem_give (sems S i) (kern S) = (s', x') \<Longrightarrow>
    sys_step expiry S (S\<lparr>kern := s', sems := (sems S)(i := x')\<rparr>)"
| sem_take: "take_ok timeout (kern S) \<Longrightarrow>
    k_sem_take (timer_call expiry) (sems S i) timeout (kern S) = (s', x', r) \<Longrightarrow>
    sys_step expiry S (S\<lparr>kern := s', sems := (sems S)(i := x')\<rparr>)"
| sem_reset: "sys_step expiry S (S\<lparr>sems := (sems S)(i := k_sem_reset (sems S i))\<rparr>)"
| stack_push: "stack_next (stacks S i) \<noteq> top (stacks S i) \<Longrightarrow>
    k_stack_push (stacks S i) data (kern S) = (s', x') \<Longrightarrow>
    sys_step expiry S (S\<lparr>kern := s', stacks := (stacks S)(i := x')\<rparr>)"
| stack_pop: "take_ok timeout (kern S) \<Longrightarrow>
    k_stack_pop (timer_call expiry) (stacks S i) timeout (kern S) = (s', x', r) \<Longrightarrow>
    sys_step expiry S (S\<lparr>kern := s', stacks := (stacks S)(i := x')\<rparr>)"
| queue_append: "data \<noteq> 0 \<Longrightarrow> data \<notin> set (queue_items (kern S, queues S i)) \<Longrightarrow>
    k_queue_append data (kern S, queues S i) = (s', x') \<Longrightarrow>
    sys_step expiry S (S\<lparr>kern := s', queues := (queues S)(i := x')\<rparr>)"
| queue_get: "take_ok timeout (kern S) \<Longrightarrow>
    k_queue_get (timer_call expiry) timeout (kern S, queues S i) = ((s', x'), r) \<Longrightarrow>
    sys_step expiry S (S\<lparr>kern := s', queues := (queues S)(i := x')\<rparr>)"
| slab_free: "b \<in> slab_allocated (kern S, slabs S i) \<Longrightarrow>
    k_mem_slab_free b (kern S, slabs S i) = (s', x') \<Longrightarrow>
    sys_step expiry S (S\<lparr>kern := s', slabs := (slabs S)(i := x')\<rparr>)"
| slab_alloc: "take_ok timeout (kern S) \<Longrightarrow>
    k_mem_slab_alloc (timer_call expiry) timeout (kern S, slabs S i) = ((s', x'), r) \<Longrightarrow>
    sys_step expiry S (S\<lparr>kern := s', slabs := (slabs S)(i := x')\<rparr>)"
| mutex_lock: "can_block (kern S) \<Longrightarrow> can_sched_lock (kern S) \<Longrightarrow> timeout_ok timeout \<Longrightarrow>
    lock_count (mutexes S i) \<noteq> - 1 \<Longrightarrow>
    k_mutex_lock (timer_call expiry) (mutexes S i) timeout (kern S) = (s', x', r) \<Longrightarrow>
    sys_step expiry S (S\<lparr>kern := s', mutexes := (mutexes S)(i := x')\<rparr>)"
| mutex_unlock: "can_sched_lock (kern S) \<Longrightarrow> owner (mutexes S i) = Some (current (kern S)) \<Longrightarrow>
    k_mutex_unlock (mutexes S i) (kern S) = (s', x') \<Longrightarrow>
    sys_step expiry S (S\<lparr>kern := s', mutexes := (mutexes S)(i := x')\<rparr>)"
| yield: "\<not> is_in_isr (kern S) \<Longrightarrow> sys_step expiry S (S\<lparr>kern := k_yield (kern S)\<rparr>)"
| sleep: "can_block (kern S) \<Longrightarrow> \<not> is_in_isr (kern S) \<Longrightarrow> 0 < duration \<Longrightarrow> duration < 2 ^ 31 \<Longrightarrow>
    sys_step expiry S (S\<lparr>kern := k_sleep (timer_call expiry) duration (kern S)\<rparr>)"
| wakeup: "sys_step expiry S (S\<lparr>kern := k_wakeup t (kern S)\<rparr>)"
| priority_set: "\<not> is_in_isr (kern S) \<Longrightarrow> t \<noteq> idle_thread (kern S) \<Longrightarrow>
    K_HIGHEST_THREAD_PRIO \<le> p \<Longrightarrow> p < K_LOWEST_THREAD_PRIO \<Longrightarrow>
    sys_step expiry S (S\<lparr>kern := k_thread_priority_set t p (kern S)\<rparr>)"
| timer_start: "0 < duration \<Longrightarrow> duration < 2 ^ 31 \<Longrightarrow> 0 \<le> per \<Longrightarrow> per < 2 ^ 31 \<Longrightarrow>
    sys_step expiry S (S\<lparr>kern := k_timer_start (timer_call expiry) n duration per (kern S)\<rparr>)"
| timer_stop: "stop_fn (timers (kern S) n) = None \<Longrightarrow>
    sys_step expiry S (S\<lparr>kern := k_timer_stop stop n (kern S)\<rparr>)"
| timer_sync: "can_block (kern S) \<Longrightarrow> \<not> is_in_isr (kern S) \<Longrightarrow>
    sys_step expiry S (S\<lparr>kern := fst (k_timer_status_sync (timer_call expiry) n (kern S))\<rparr>)"
| irq_enter: "sys_step expiry S (S\<lparr>kern := (kern S)\<lparr>nested := nested (kern S) + 1\<rparr>\<rparr>)"
| irq_exit: "is_in_isr (kern S) \<Longrightarrow>
    sys_step expiry S (S\<lparr>kern := enter_interrupt_exception (\<lambda>s. s\<lparr>nested := nested s - 1\<rparr>) (kern S)\<rparr>)"
| tick: "is_in_isr (kern S) \<Longrightarrow>
    sys_step expiry S (S\<lparr>kern := nano_sys_clock_tick_announce (timer_call expiry) 1 (kern S)\<rparr>)"

text \<open>Every object's contract holds over a calm step of the rest of the system.\<close>

lemma fine_calm:
  assumes "fine S s x" and c: "calm_step W s s'" and "wait_q_of S x \<notin> W"
  shows "fine S s' x"
proof -
  have env: "env_ok (\<lambda>_. s') (wait_q_of S x) s"
    using assms by (auto simp: env_ok_def calm_step_def calm_def undisturbed_def)
  have idle: "idle_thread s' = idle_thread s" "kinv {} s'" "\<not> handling_timeouts s'"
    using c by (simp_all add: calm_step_def calm_def undisturbed_def)
  show ?thesis
  proof (cases x)
    case (OSem i)
    then show ?thesis
      using sem.step_inv [of "(s, sems S i)" "Env (\<lambda>_. s')"] sem.step_no_lost_wakeup [of "(s, sems S i)" "Env (\<lambda>_. s')"]
        assms(1) env by simp
  next
    case (OStack i)
    then show ?thesis
      using stack.step_inv [of "(s, stacks S i)" "Env (\<lambda>_. s')"]
        stack.step_no_lost_wakeup [of "(s, stacks S i)" "Env (\<lambda>_. s')"] assms(1) env by simp
  next
    case (OQueue i)
    then show ?thesis
      using queue.step_inv [of "(s, queues S i)" "Env (\<lambda>_. s')"]
        queue.step_no_lost_wakeup [of "(s, queues S i)" "Env (\<lambda>_. s')"] assms(1) env by simp
  next
    case (OSlab i)
    then show ?thesis
      using slab.step_inv [of "(s, slabs S i)" "Env (\<lambda>_. s')"]
        slab.step_no_lost_wakeup [of "(s, slabs S i)" "Env (\<lambda>_. s')"] assms(1) env by simp
  next
    case (OMutex i)
    then show ?thesis
      using assms(1) env idle by (auto simp: mutex_inv_def mutex_wf_def env_ok_def)
  qed
qed

lemma sys_inv_update:
  assumes inv: "sys_inv S" and c: "calm_step W (kern S) (kern S')"
    and q: "wait_q_of S' = wait_q_of S" and own: "\<And>y. wait_q_of S y \<in> W \<or> y \<in> X \<Longrightarrow> fine S' (kern S') y"
    and other: "\<And>y s. y \<notin> X \<Longrightarrow> fine S' s y = fine S s y"
  shows "sys_inv S'"
proof -
  have "fine S' (kern S') y" for y
  proof (cases "wait_q_of S y \<in> W \<or> y \<in> X")
    case False
    then show ?thesis
      using fine_calm [OF _ c] inv other by (simp add: sys_inv_def)
  qed (rule own)
  moreover have "timer_wait_q (timers (kern S') i) = timer_wait_q (timers (kern S) i)" for i
    using c by (simp add: calm_step_def calm_def undisturbed_def)
  ultimately show ?thesis
    using inv calm_step_ok [OF _ c] by (simp add: sys_inv_def q)
qed
lemma sys_inv_kern:
  assumes "sys_inv S" and "calm_step W (kern S) s'" and "\<And>x. wait_q_of S x \<notin> W"
  shows "sys_inv (S\<lparr>kern := s'\<rparr>)"
proof (rule sys_inv_update [where W = W and X = "{}", OF assms(1)])
  show "wait_q_of (S\<lparr>kern := s'\<rparr>) = wait_q_of S"
    by (rule ext, case_tac x) simp_all
  show "fine (S\<lparr>kern := s'\<rparr>) r y = fine S r y" for y r
    by (cases y) simp_all
qed (use assms in auto)

lemma sys_inv_object:
  assumes inv: "sys_inv S" and c: "calm_step {wait_q_of S x} (kern S) (kern S')"
    and q: "\<And>y. wait_q_of S' y = wait_q_of S y" and x: "fine S' (kern S') x"
    and other: "\<And>y s. y \<noteq> x \<Longrightarrow> fine S' s y = fine S s y"
  shows "sys_inv S'"
proof (rule sys_inv_update [where X = "{x}", OF inv c])
  have "inj (wait_q_of S)"
    using inv by (simp add: sys_inv_def)
  then show "fine S' (kern S') y" if "wait_q_of S y \<in> {wait_q_of S x} \<or> y \<in> {x}" for y
    using that x by (auto dest: injD)
qed (use q other in auto)

text \<open>
  Each kind of object: it is enough that the call is calm except for the object's own queue
  and leaves the object itself in order.
\<close>

lemma sys_inv_sem:
  assumes "sys_inv S" and "calm_step {sem_wait_q (sems S i)} (kern S) s'" and "sem_wait_q (x') = sem_wait_q (sems S i)"
    and "sem_inv (s', x')" and "sem_avail (s', x') = 0 \<or> sem_waiting (s', x') = []"
  shows "sys_inv (S\<lparr>kern := s', sems := (sems S)(i := x')\<rparr>)"
proof (rule sys_inv_object [OF assms(1), of "OSem i"])
  show "wait_q_of (S\<lparr>kern := s', sems := (sems S)(i := x')\<rparr>) y = wait_q_of S y" for y
    using assms(3) by (cases y) simp_all
  show "y \<noteq> OSem i \<Longrightarrow> fine (S\<lparr>kern := s', sems := (sems S)(i := x')\<rparr>) s y = fine S s y" for y s
    by (cases y) simp_all
qed (use assms in simp_all)

lemma sys_inv_stack:
  assumes "sys_inv S" and "calm_step {stack_wait_q (stacks S i)} (kern S) s'" and "stack_wait_q (x') = stack_wait_q (stacks S i)"
    and "stack_inv (s', x')" and "stack_avail (s', x') = 0 \<or> stack_waiting (s', x') = []"
  shows "sys_inv (S\<lparr>kern := s', stacks := (stacks S)(i := x')\<rparr>)"
proof (rule sys_inv_object [OF assms(1), of "OStack i"])
  show "wait_q_of (S\<lparr>kern := s', stacks := (stacks S)(i := x')\<rparr>) y = wait_q_of S y" for y
    using assms(3) by (cases y) simp_all
  show "y \<noteq> OStack i \<Longrightarrow> fine (S\<lparr>kern := s', stacks := (stacks S)(i := x')\<rparr>) s y = fine S s y" for y s
    by (cases y) simp_all
qed (use assms in simp_all)

lemma sys_inv_queue:
  assumes "sys_inv S" and "calm_step {queue_wait_q (snd (queues S i))} (kern S) s'" and "queue_wait_q (snd (x')) = queue_wait_q (snd (queues S i))"
    and "queue_inv (s', x')" and "queue_avail (s', x') = 0 \<or> queue_waiting (s', x') = []"
  shows "sys_inv (S\<lparr>kern := s', queues := (queues S)(i := x')\<rparr>)"
proof (rule sys_inv_object [OF assms(1), of "OQueue i"])
  show "wait_q_of (S\<lparr>kern := s', queues := (queues S)(i := x')\<rparr>) y = wait_q_of S y" for y
    using assms(3) by (cases y) simp_all
  show "y \<noteq> OQueue i \<Longrightarrow> fine (S\<lparr>kern := s', queues := (queues S)(i := x')\<rparr>) s y = fine S s y" for y s
    by (cases y) simp_all
qed (use assms in simp_all)

lemma sys_inv_slab:
  assumes "sys_inv S" and "calm_step {slab_wait_q (snd (slabs S i))} (kern S) s'" and "slab_wait_q (snd (x')) = slab_wait_q (snd (slabs S i))"
    and "slab_inv (s', x')" and "slab_avail (s', x') = 0 \<or> slab_waiting (s', x') = []"
  shows "sys_inv (S\<lparr>kern := s', slabs := (slabs S)(i := x')\<rparr>)"
proof (rule sys_inv_object [OF assms(1), of "OSlab i"])
  show "wait_q_of (S\<lparr>kern := s', slabs := (slabs S)(i := x')\<rparr>) y = wait_q_of S y" for y
    using assms(3) by (cases y) simp_all
  show "y \<noteq> OSlab i \<Longrightarrow> fine (S\<lparr>kern := s', slabs := (slabs S)(i := x')\<rparr>) s y = fine S s y" for y s
    by (cases y) simp_all
qed (use assms in simp_all)

lemma sys_inv_mutex:
  assumes "sys_inv S" and "calm_step {mutex_wait_q (mutexes S i)} (kern S) s'" and "mutex_wait_q (x') = mutex_wait_q (mutexes S i)"
    and "mutex_inv (s', x')" and "owner x' \<noteq> None \<or> wait_qs s' (mutex_wait_q x') = []"
  shows "sys_inv (S\<lparr>kern := s', mutexes := (mutexes S)(i := x')\<rparr>)"
proof (rule sys_inv_object [OF assms(1), of "OMutex i"])
  show "wait_q_of (S\<lparr>kern := s', mutexes := (mutexes S)(i := x')\<rparr>) y = wait_q_of S y" for y
    using assms(3) by (cases y) simp_all
  show "y \<noteq> OMutex i \<Longrightarrow> fine (S\<lparr>kern := s', mutexes := (mutexes S)(i := x')\<rparr>) s y = fine S s y" for y s
    by (cases y) simp_all
qed (use assms in simp_all)

lemma sys_invD:
  assumes "sys_inv S"
  shows "kernel_ok (kern S)" "wait_q_of S x \<noteq> timer_wait_q (timers (kern S) n)" "fine S (kern S) x"
  using assms by (simp_all add: sys_inv_def)
lemma sys_sem_give:
  assumes inv: "sys_inv S" and e: "k_sem_give (sems S i) (kern S) = (s', x')"
  shows "sys_inv (S\<lparr>kern := s', sems := (sems S)(i := x')\<rparr>)"
proof (rule sys_inv_sem [OF inv])
  note d = sys_invD(1) [OF inv] sys_invD(2,3) [OF inv, of "OSem i"]
  show "calm_step {sem_wait_q (sems S i)} (kern S) s'"
    using calm_sem_give [OF d(1), of _ "sems S i"] e by simp
  show "sem_wait_q x' = sem_wait_q (sems S i)"
    using sem_give_frame(1) [OF kernel_okD(1) [OF d(1)], of "sems S i"] e
    by (auto simp: increment_count_up_to_limit_def split: option.splits)
  show "sem_inv (s', x')" "sem_avail (s', x') = 0 \<or> sem_waiting (s', x') = []"
    using sem.step_inv [of "(kern S, sems S i)" "Give ()"] e d(3)
      sem.step_no_lost_wakeup [of "(kern S, sems S i)" "Give ()"] by simp_all
qed

lemma sys_sem_take:
  assumes inv: "sys_inv S" and ok: "take_ok timeout (kern S)"
    and e: "k_sem_take call (sems S i) timeout (kern S) = (s', x', r)"
  shows "sys_inv (S\<lparr>kern := s', sems := (sems S)(i := x')\<rparr>)"
proof (rule sys_inv_sem [OF inv])
  note d = sys_invD(1) [OF inv] sys_invD(2,3) [OF inv, of "OSem i"]
  show "calm_step {sem_wait_q (sems S i)} (kern S) s'"
    using calm_sem_take [OF d(1) ok, of "sems S i" call] d(2) e by simp
  show "sem_wait_q x' = sem_wait_q (sems S i)"
    using e by (auto simp: k_sem_take_def Let_def split: if_splits)
  show "sem_inv (s', x')" "sem_avail (s', x') = 0 \<or> sem_waiting (s', x') = []"
    using sem.step_inv [of "(kern S, sems S i)" "Take timeout" call] e d(3) ok
      sem.step_no_lost_wakeup [of "(kern S, sems S i)" "Take timeout" call] by simp_all
qed

lemma sys_sem_reset:
  assumes inv: "sys_inv S"
  shows "sys_inv (S\<lparr>sems := (sems S)(i := k_sem_reset (sems S i))\<rparr>)"
proof -
  note d = sys_invD(1) [OF inv] sys_invD(2,3) [OF inv, of "OSem i"]
  have "sys_inv (S\<lparr>kern := kern S, sems := (sems S)(i := k_sem_reset (sems S i))\<rparr>)"
    using d(3) by (intro sys_inv_sem [OF inv calm_step_refl [OF d(1)]])
      (simp_all add: k_sem_reset_def sem_inv_def sem_avail_def)
  then show ?thesis
    by simp
qed

lemma sys_stack_push:
  assumes inv: "sys_inv S" and ne: "stack_next (stacks S i) \<noteq> top (stacks S i)"
    and e: "k_stack_push (stacks S i) data (kern S) = (s', x')"
  shows "sys_inv (S\<lparr>kern := s', stacks := (stacks S)(i := x')\<rparr>)"
proof (rule sys_inv_stack [OF inv])
  note d = sys_invD(1) [OF inv] sys_invD(2,3) [OF inv, of "OStack i"]
  show "calm_step {stack_wait_q (stacks S i)} (kern S) s'"
    using calm_stack_push [OF d(1) ne, of _ data] e by simp
  show "stack_wait_q x' = stack_wait_q (stacks S i)"
    using push_facts(4) [OF kernel_okD(1,3) [OF d(1)] ne, of data] d(3) e by (simp add: stack_inv_def)
  show "stack_inv (s', x')" "stack_avail (s', x') = 0 \<or> stack_waiting (s', x') = []"
    using stack.step_inv [of "(kern S, stacks S i)" "Give data"] e d(3) ne
      stack.step_no_lost_wakeup [of "(kern S, stacks S i)" "Give data"] by simp_all
qed

lemma sys_stack_pop:
  assumes inv: "sys_inv S" and ok: "take_ok timeout (kern S)"
    and e: "k_stack_pop call (stacks S i) timeout (kern S) = (s', x', r)"
  shows "sys_inv (S\<lparr>kern := s', stacks := (stacks S)(i := x')\<rparr>)"
proof (rule sys_inv_stack [OF inv])
  note d = sys_invD(1) [OF inv] sys_invD(2,3) [OF inv, of "OStack i"]
  show "calm_step {stack_wait_q (stacks S i)} (kern S) s'"
    using calm_stack_pop [OF d(1) ok, of "stacks S i" call] d(2) e by simp
  show "stack_wait_q x' = stack_wait_q (stacks S i)"
    using e by (auto simp: k_stack_pop_def Let_def split: if_splits)
  show "stack_inv (s', x')" "stack_avail (s', x') = 0 \<or> stack_waiting (s', x') = []"
    using stack.step_inv [of "(kern S, stacks S i)" "Take timeout" call] e d(3) ok
      stack.step_no_lost_wakeup [of "(kern S, stacks S i)" "Take timeout" call] by simp_all
qed

lemma sys_queue_append:
  assumes inv: "sys_inv S" and data: "data \<noteq> 0" "data \<notin> set (queue_items (kern S, queues S i))"
    and e: "k_queue_append data (kern S, queues S i) = (s', x')"
  shows "sys_inv (S\<lparr>kern := s', queues := (queues S)(i := x')\<rparr>)"
proof (rule sys_inv_queue [OF inv])
  note d = sys_invD(1) [OF inv] sys_invD(2,3) [OF inv, of "OQueue i"]
  obtain h q where x: "queues S i = (h, q)"
    by fastforce
  show "calm_step {queue_wait_q (snd (queues S i))} (kern S) s'"
    using calm_queue_append [OF d(1), of _ data h q] e by (simp add: x)
  show "queue_wait_q (snd x') = queue_wait_q (snd (queues S i))"
    using e kernel_okD(3) [OF d(1)] queue_insert_waiter [of q "kern S"] queue_insert_none [of q "kern S"]
    by (cases "find_first_thread_to_unpend (queue_wait_q q) None (kern S)")
      (auto simp: x k_queue_append_def simp del: find_first_head)
  show "queue_inv (s', x')" "queue_avail (s', x') = 0 \<or> queue_waiting (s', x') = []"
    using queue.step_inv [of "(kern S, queues S i)" "Give data"] e d(3) data
      queue.step_no_lost_wakeup [of "(kern S, queues S i)" "Give data"] by simp_all
qed

lemma sys_queue_get:
  assumes inv: "sys_inv S" and ok: "take_ok timeout (kern S)"
    and e: "k_queue_get call timeout (kern S, queues S i) = ((s', x'), r)"
  shows "sys_inv (S\<lparr>kern := s', queues := (queues S)(i := x')\<rparr>)"
proof (rule sys_inv_queue [OF inv])
  note d = sys_invD(1) [OF inv] sys_invD(2,3) [OF inv, of "OQueue i"]
  obtain h q where x: "queues S i = (h, q)"
    by fastforce
  show "calm_step {queue_wait_q (snd (queues S i))} (kern S) s'"
    using calm_queue_get [OF d(1) ok, of q call h] d(2) e by (simp add: x)
  show "queue_wait_q (snd x') = queue_wait_q (snd (queues S i))"
    using e by (auto simp: x k_queue_get_def Let_def split: if_splits prod.splits)
  show "queue_inv (s', x')" "queue_avail (s', x') = 0 \<or> queue_waiting (s', x') = []"
    using queue.step_inv [of "(kern S, queues S i)" "Take timeout" call] e d(3) ok
      queue.step_no_lost_wakeup [of "(kern S, queues S i)" "Take timeout" call] by simp_all
qed

lemma sys_slab_free:
  assumes inv: "sys_inv S" and b: "b \<in> slab_allocated (kern S, slabs S i)"
    and e: "k_mem_slab_free b (kern S, slabs S i) = (s', x')"
  shows "sys_inv (S\<lparr>kern := s', slabs := (slabs S)(i := x')\<rparr>)"
proof (rule sys_inv_slab [OF inv])
  note d = sys_invD(1) [OF inv] sys_invD(2,3) [OF inv, of "OSlab i"]
  obtain h q where x: "slabs S i = (h, q)"
    by fastforce
  show "calm_step {slab_wait_q (snd (slabs S i))} (kern S) s'"
    using calm_slab_free [OF d(1), of _ b h q] e by (simp add: x)
  show "slab_wait_q (snd x') = slab_wait_q (snd (slabs S i))"
    using e by (auto simp: x k_mem_slab_free_def Let_def split: option.splits prod.splits)
  show "slab_inv (s', x')" "slab_avail (s', x') = 0 \<or> slab_waiting (s', x') = []"
    using slab.step_inv [of "(kern S, slabs S i)" "Give b"] e d(3) b
      slab.step_no_lost_wakeup [of "(kern S, slabs S i)" "Give b"] by simp_all
qed

lemma sys_slab_alloc:
  assumes inv: "sys_inv S" and ok: "take_ok timeout (kern S)"
    and e: "k_mem_slab_alloc call timeout (kern S, slabs S i) = ((s', x'), r)"
  shows "sys_inv (S\<lparr>kern := s', slabs := (slabs S)(i := x')\<rparr>)"
proof (rule sys_inv_slab [OF inv])
  note d = sys_invD(1) [OF inv] sys_invD(2,3) [OF inv, of "OSlab i"]
  obtain h q where x: "slabs S i = (h, q)"
    by fastforce
  show "calm_step {slab_wait_q (snd (slabs S i))} (kern S) s'"
    using calm_slab_alloc [OF d(1) ok, of q call h] d(2) e by (simp add: x)
  show "slab_wait_q (snd x') = slab_wait_q (snd (slabs S i))"
    using e by (auto simp: x k_mem_slab_alloc_def Let_def split: if_splits)
  show "slab_inv (s', x')" "slab_avail (s', x') = 0 \<or> slab_waiting (s', x') = []"
    using slab.step_inv [of "(kern S, slabs S i)" "Take timeout" call] e d(3) ok
      slab.step_no_lost_wakeup [of "(kern S, slabs S i)" "Take timeout" call] by simp_all
qed
lemma sys_mutex_lock:
  assumes inv: "sys_inv S" and c: "can_block (kern S)" "can_sched_lock (kern S)" "timeout_ok timeout"
      "lock_count (mutexes S i) \<noteq> - 1"
    and e: "k_mutex_lock call (mutexes S i) timeout (kern S) = (s', x', r)"
  shows "sys_inv (S\<lparr>kern := s', mutexes := (mutexes S)(i := x')\<rparr>)"
proof (rule sys_inv_mutex [OF inv])
  note d = sys_invD(1) [OF inv] sys_invD(2,3) [OF inv, of "OMutex i"]
  let ?m = "mutexes S i" and ?s = "kern S"
  have wf: "mutex_wf ?m ?s"
    using d(3) by (simp add: mutex_inv_def)
  show "calm_step {mutex_wait_q ?m} ?s s'"
    using calm_mutex_lock [OF d(1) wf c(1-3), of call] d(2) e by simp
  show "mutex_inv (s', x')"
    using mutex_inv_lock [of ?s ?m timeout call] c e d(3) by simp
  consider "lock_count ?m = 0 \<or> owner ?m = Some (current ?s)"
    | t where "lock_count ?m \<noteq> 0" "owner ?m = Some t" "t \<noteq> current ?s"
    using wf by (auto simp: mutex_wf_def)
  then have "mutex_wait_q x' = mutex_wait_q ?m \<and> owner x' \<noteq> None"
  proof cases
    case 1
    then show ?thesis
      using e lock_free_eq [OF c(2) 1, of call timeout] by auto
  next
    case (2 t)
    then show ?thesis
      using e lock_busy_eq [OF c(2) 2(1), of call] lock_block_eq [OF c(2) 2, of timeout call]
      by (cases "timeout = K_NO_WAIT") auto
  qed
  then show "mutex_wait_q x' = mutex_wait_q ?m" "owner x' \<noteq> None \<or> wait_qs s' (mutex_wait_q x') = []"
    by simp_all
qed

lemma sys_mutex_unlock:
  assumes inv: "sys_inv S" and c: "can_sched_lock (kern S)" "owner (mutexes S i) = Some (current (kern S))"
    and e: "k_mutex_unlock (mutexes S i) (kern S) = (s', x')"
  shows "sys_inv (S\<lparr>kern := s', mutexes := (mutexes S)(i := x')\<rparr>)"
proof (rule sys_inv_mutex [OF inv])
  note d = sys_invD(1) [OF inv] sys_invD(2,3) [OF inv, of "OMutex i"]
  let ?m = "mutexes S i" and ?s = "kern S"
  have wf: "mutex_wf ?m ?s"
    using d(3) by (simp add: mutex_inv_def)
  show "calm_step {mutex_wait_q ?m} ?s s'"
    using calm_mutex_unlock [OF d(1) wf c] e by simp
  show "mutex_inv (s', x')"
    using mutex_inv_unlock [of ?s ?m] c e d(3) by simp
  have w: "wait_qs (restored ?m ?s) = wait_qs ?s"
    using kinv_restored(2) [OF kernel_okD(1) [OF d(1)] wf c(2)] .
  have "lock_count ?m \<noteq> 0"
    using wf c(2) by (auto simp: mutex_wf_def)
  then consider (more) "1 < lock_count ?m" | (last) "lock_count ?m = 1"
    by (metis word_gt_0 word_less_1 linorder_neqE)
  then have "mutex_wait_q x' = mutex_wait_q ?m \<and> (owner x' \<noteq> None \<or> wait_qs s' (mutex_wait_q x') = [])"
  proof cases
    case more
    then show ?thesis
      using e c(2) unlock_nested_eq [OF c more] by auto
  next
    case last
    show ?thesis
    proof (cases "wait_qs ?s (mutex_wait_q ?m)")
      case Nil
      then show ?thesis
        using e w kernel_okD(3) [OF d(1)] unlock_last_eq [OF c last] by auto
    next
      case (Cons t ts)
      then show ?thesis
        using e w kernel_okD(3) [OF d(1)] unlock_last_eq [OF c last] by (auto simp: Let_def)
    qed
  qed
  then show "mutex_wait_q x' = mutex_wait_q ?m" "owner x' \<noteq> None \<or> wait_qs s' (mutex_wait_q x') = []"
    by blast+
qed

lemma calm_irq_exit:
  assumes "kernel_ok s"
  shows "calm_step W s (enter_interrupt_exception (\<lambda>s. s\<lparr>nested := nested s - 1\<rparr>) s)"
proof -
  define r where "r = s\<lparr>nested := nested s - 1\<rparr>"
  have "calm_step W s r"
    unfolding r_def by (rule calm_step_frame(6) [OF calm_step_refl [OF assms]])
  then show ?thesis
    unfolding enter_interrupt_exception_def Let_def r_def [symmetric] by (simp add: calm_step_frame(7))
qed

lemma sys_step_inv:
  assumes fns: "calm_fns expiry" and "sys_step expiry S S'" and "sys_inv S"
  shows "sys_inv S'"
  using assms(2,3)
proof (induction rule: sys_step.induct)
  case (timer_sync S n)
  note ok = sys_invD(1,2) [OF timer_sync(3)]
  show ?case
    using calm_timer_sync [OF ok(1) timer_sync(1,2), of n "timer_call expiry"] ok(2)
    by (intro sys_inv_kern [OF timer_sync(3)]) auto
next
  case (irq_enter S)
  show ?case
    using calm_step_frame(6) [OF calm_step_refl [OF sys_invD(1) [OF irq_enter]], of "{}"]
    by (intro sys_inv_kern [OF irq_enter]) auto
next
  case (irq_exit S)
  show ?case
    using calm_irq_exit [OF sys_invD(1) [OF irq_exit(2)], of "{}"] by (intro sys_inv_kern [OF irq_exit(2)]) auto
next
  case (tick S)
  show ?case
    using calm_fns.calm_tick [OF fns kernel_okD [OF sys_invD(1) [OF tick(2)]]]
    by (intro sys_inv_kern [OF tick(2), of "{}"]) (simp_all add: calm_step_def)
qed (simp_all add: sys_sem_give sys_sem_take sys_sem_reset sys_stack_push sys_stack_pop sys_queue_append
    sys_queue_get sys_slab_free sys_slab_alloc sys_mutex_lock sys_mutex_unlock
    sys_inv_kern [where W = "{}"] sys_invD(1) calm_yield calm_sleep calm_wakeup calm_priority_set
    calm_timer_start calm_timer_stop)
lemma sys_steps_inv:
  assumes "calm_fns expiry" and "sys_inv S0" and "(sys_step expiry)\<^sup>*\<^sup>* S0 S"
  shows "sys_inv S"
  using assms(3,2) by (induction rule: rtranclp_induct) (auto intro: sys_step_inv [OF assms(1)])

section \<open>Properties\<close>

text \<open>A system to start from: the booted kernel with empty objects (each slab has one free block).\<close>

definition boot_system :: system where
  "boot_system =
     \<lparr>kern = boot, sems = (\<lambda>i. sem5\<lparr>sem_wait_q := 5 * i + 1\<rparr>),
      stacks = (\<lambda>i. stack5\<lparr>stack_wait_q := 5 * i + 2\<rparr>),
      queues = (\<lambda>i. (\<lambda>_. 0, queue5\<lparr>queue_wait_q := 5 * i + 3\<rparr>)),
      slabs = (\<lambda>i. (fst (snd slab_one), (snd (snd slab_one))\<lparr>slab_wait_q := 5 * i + 4\<rparr>)),
      mutexes = (\<lambda>i. mutex9\<lparr>mutex_wait_q := 5 * i + 5\<rparr>)\<rparr>"

lemma boot_system_fine: "fine boot_system boot x"
proof (cases x)
  case (OQueue i)
  have "queue_items (boot, queues boot_system i) = []"
    using slist_abs_eq [of "(\<lambda>_. 0, data_q queue5)" "[]"]
    by (simp add: boot_system_def queue_items_def slist_rel_def queue5_def)
  then show ?thesis
    using OQueue by (simp add: queue_inv_def queue_avail_def)
      (simp add: boot_system_def slist_rel_def queue5_def)
next
  case (OSlab i)
  let ?sl = "(snd (snd slab_one))\<lparr>slab_wait_q := 5 * i + 4\<rparr>"
  have "slab_free_rel (fst (snd slab_one)) ?sl [64]" "slab_geom ?sl"
    by (simp_all add: slab_free_rel_def slab_geom_def slab_one_def blocks_def)
  then show ?thesis
    using OSlab slab_invI(1) [of boot ?sl] by (simp add: boot_system_def slab_waiting_def)
qed (simp_all add: boot_system_def sem_inv_def sem_avail_def sem5_def stack_inv_def stack_avail_def
    stack_wf_def stack_contents_def stack5_def mutex_inv_def mutex_wf_def mutex9_def)

lemma sys_inv_boot: "sys_inv boot_system"
proof -
  have "x = y" if "wait_q_of boot_system x = wait_q_of boot_system y" for x y
    using that by (cases x; cases y; simp add: boot_system_def; presburger)
  moreover have "wait_q_of boot_system x \<noteq> 0" for x
    by (cases x) (simp_all add: boot_system_def)
  moreover have "kernel_ok boot"
    using can_block_boot by (simp add: kernel_ok_def can_block_def timers_wf_def) (simp add: boot_def timer0_def)
  moreover have "kern boot_system = boot" "timer_wait_q (timers boot i) = 0" for i
    by (simp_all add: boot_system_def boot_def timer0_def)
  ultimately show ?thesis
    using boot_system_fine by (simp add: sys_inv_def inj_def)
qed


text \<open>What is there to take from an object.\<close>

primrec available :: "system \<Rightarrow> obj \<Rightarrow> nat" where
  "available S (OSem i) = unat (count (sems S i))"
| "available S (OStack i) = stack_next (stacks S i) - base (stacks S i)"
| "available S (OQueue i) = length (queue_items (kern S, queues S i))"
| "available S (OSlab i) = length (slab_free (fst (slabs S i)) (snd (slabs S i)))"
| "available S (OMutex i) = (if owner (mutexes S i) = None then 1 else 0)"

text \<open>The main thread of \<open>boot_system\<close> has taken semaphore 0, and waits.\<close>

definition sem_wait_system :: system where
  "sem_wait_system =
     boot_system\<lparr>kern := fst (k_sem_take (timer_call own_timer) (sems boot_system 0) K_FOREVER boot)\<rparr>"

lemma sem_wait_system:
  "(sys_step own_timer)\<^sup>*\<^sup>* boot_system sem_wait_system" "wait_qs (kern sem_wait_system) 1 = [1]"
proof -
  let ?s = "Swap (pend_current_thread (timer_call own_timer) 1 K_FOREVER boot)"
  have c: "count (sems boot_system 0) = 0" "sem_wait_q (sems boot_system 0) = 1" "kern boot_system = boot"
    "\<not> is_in_isr boot"
    by (simp_all add: boot_system_def sem5_def is_in_isr_def boot_def)
  then have e: "k_sem_take (timer_call own_timer) (sems boot_system 0) K_FOREVER boot = (?s, sems boot_system 0, Switched_out)"
    by (simp add: k_sem_take_def Let_def)
  have "take_ok K_FOREVER boot"
    using c can_block_boot by (simp add: take_ok_def timeout_ok_def)
  then have "sys_step own_timer boot_system (boot_system\<lparr>kern := ?s, sems := (sems boot_system)(0 := sems boot_system 0)\<rparr>)"
    using e c(3) by (intro sys_step.sem_take) simp_all
  then have "sys_step own_timer boot_system sem_wait_system"
    by (simp add: sem_wait_system_def e)
  then show "(sys_step own_timer)\<^sup>*\<^sup>* boot_system sem_wait_system"
    by blast
  show "wait_qs (kern sem_wait_system) 1 = [1]"
    using kinv_pend_current(2) [OF kinv_boot can_block_boot, of K_FOREVER "timer_call own_timer" 1]
    by (simp add: sem_wait_system_def e timeout_ok_def)
qed




end
