(* ===== verification/Spec2Isabelle.thy ===== *)
theory Spec2Isabelle
  imports Mutex Timer Thread Msgq Sem Stack Queue Slab Acts_Ringbuf Cbuf Dlist_Links Ring_Buffer Mempool_Api Checksum Transcode Libc Format System
begin

text \<open>
  Verification of the kernel and the buffer libraries of the SDK under src/sdk014_ZS285A (paths
  below are relative to that directory).

  \<^bold>\<open>The program.\<close> The SDK is a fork of the Zephyr real-time operating system for an audio chip.
  Its kernel (kernel/, include/kernel.h) schedules threads by priority: threads that can run
  are on the ready queue, threads that wait are on the wait queue of the object they wait for,
  and threads with a bounded wait are also on the timeout queue, a list of delays each relative
  to the one before. The timer interrupt announces ticks, which count down the head of that
  list and wake the threads or run the timers whose time has come. The kernel objects
  (semaphores, mutexes, queues, message queues, stacks, memory slabs and pools, timers) are
  built on these three. Libraries add linked lists, ring buffers, and encodings that the
  drivers and applications use; the C library is a small one of its own.

  \<^bold>\<open>How it is modelled.\<close> The kernel's memory is the record \<open>kernel\<close> of Kernel_State: threads,
  timeouts and timers as functions of their identifiers, the queues as lists, and the fields
  of \<open>_kernel\<close>. Every C function is a function from states to states. A failed assertion or a
  null pointer sets the field \<open>fault\<close>. A call that blocks ends at \<open>_Swap\<close> with the outcome
  \<open>Switched_out\<close>; a function \<open>..._resume\<close> gives the rest of the C function, which runs when the
  thread runs again. Function pointers stored in timeouts are values of the type \<open>fn_ptr\<close>, given
  a meaning by the parameter \<open>call\<close>; expiry functions of the application are parameters
  too. The configuration is that of the boards in the source: ticks of 2 ms, no polling, no
  tickless idle, assertions on, one processor. Interrupt locking does not appear: a function
  between lock and unlock is one step, and Mempool_Api treats the sections of
  kernel/mempool.c as separate steps because the pools unlock in between. C integers are words
  of their width wherever they can wrap; pointers are words or natural numbers, and memory is a
  function from addresses to bytes or words.

  \<^bold>\<open>Theories.\<close>

  \<^item> Prelude: integer types, errno values, proof collections, lemmas on lists and words.
  \<^item> Kernel_State: the structures of include/kernel.h and kernel/include/kernel_structs.h.
  \<^item> Sched: kernel/include/ksched.h and kernel/sched.c, with the swap and interrupt exit of
    arch/mips. The invariant \<open>rq_inv\<close> of ready queue, bitmap and cache is kept by every operation;
    the next thread is the first one of the highest priority; \<open>k_yield\<close> rotates.
  \<^item> Timeout: wait queues and kernel/include/timeout_q.h, \<open>k_sleep\<close>, \<open>k_wakeup\<close>.
  \<^item> Kernel_Inv: the invariant \<open>kinv\<close> of the whole kernel (each thread is exactly on the
    queues its state says, and the delta queue is well formed), kept by blocking, waking and
    the timeout operations; adding or aborting a timeout moves no other timeout.
  \<^item> Sys_Clock: kernel/sys_clock.c. A tick reduces every remaining time by one and wakes exactly
    the threads whose time is over: sleeping ends on time, and timeouts of one tick are handled
    in the order they were added.
  \<^item> Waitable: the contract of objects that threads wait for, as a locale with the lemma that no
    wake-up is lost; interpreted in Sem (kernel/sem.c), Stack (kernel/stack.c), Queue
    (kernel/queue.c) and Slab (kernel/mem_slab.c).
  \<^item> Mutex (kernel/mutex.c): mutual exclusion, priority inheritance and hand-over.
  \<^item> Timer (kernel/timer.c): periodic expiry, with the callbacks of the application in the locale
    \<open>timer_fns\<close>, which extends the contract of timeout callbacks of Sys_Clock.
  \<^item> Thread (kernel/thread.c, kernel/thread_abort.c): creation with delay, cancelling,
    suspension, abortion.
  \<^item> Fifo: the contract of first-in first-out buffers, as a locale with the conservation of data
    over any sequence of operations; interpreted in Slist (include/misc/slist.h), Dlist_Links
    (include/misc/dlist.h), Msgq (kernel/msg_q.c), Acts_Ringbuf (lib/utils/source/acts_ringbuf),
    Cbuf (lib/utils/source/cbuf) and Ring_Buffer (misc/ring_buffer.c, in both modes). Ring holds
    the byte memory and the circular storage they share.
  \<^item> Mempool (kernel/mempool.c and the macros of include/kernel.h), Buddy, Mempool_Inv and
    Mempool_Api: the memory pools. Buddy is the abstract allocator, in which free and used blocks
    partition the buffer; Mempool_Inv shows that lists and bit arrays represent it, and
    Mempool_Api draws the consequences for any interleaving of threads.
  \<^item> System: the kernel with any number of semaphores, stacks, queues, slabs, mutexes and timers,
    as one step relation of calls by threads and interrupt handlers and of clock ticks. Every
    reachable system is well formed, and no wake-up is lost in it.
  \<^item> Checksum (lib/utils/source/crc, hex_str.c of lib/utils/source/transcode): the table-driven
    CRC-32 is the bitwise one, the CRC-16 detects damage to two neighbouring bytes, and
    hexadecimal strings convert back to the bytes.
  \<^item> Transcode (transcode.c of lib/utils/source/transcode and the table lookup of
    ext/fs/fat/option/cc936.c): conversion between GBK, UTF-8 and Unicode. The lookup finds every
    entry of a sorted table, Unicode strings survive the way to UTF-8 and back, and the direct
    conversion of GBK agrees with the one over Unicode.
  \<^item> Libc (lib/libc/minimal/source/string): memory and string functions on the byte memory. The
    copies by words do what byte copies do, which is the \<open>memcpy\<close> of Ring; the string functions
    return on terminated strings, with the results the strings give.
  \<^item> Format (misc/sprintk.c, lib/libc/minimal/source/stdlib): printing and reading numbers. Numbers
    are printed as their numerals and read back, and printing respects the size of the buffer.

  \<^bold>\<open>Bounds and loops.\<close> No definition uses fuel. Loops of the source are structural recursion,
  folds over index ranges, or functions with a termination proof by a measure (the length of the
  list that shrinks, the bytes left to copy, the level of a block); only the searches and counts
  along the links of a list, which would not end on a broken list, are partial functions
  (\<open>insert_pos\<close>, \<open>slist_search\<close>, \<open>cnt_loop\<close>), and so are the loops of Libc that run to the end of a
  string; they are shown to return on every well-formed list and every terminated string. Durations are below \<open>2 ^ 31\<close> ms and delta sums in
  the range of a 32-bit int, as \<open>timeout_ok\<close> and \<open>tq_inv\<close> say. Statements on pools assume sizes
  as doc/kernel/memory/pools.rst demands and fewer than 32 largest blocks; what happens beyond is
  the subject of \<open>init_mem_pool_strays\<close>.

  \<^bold>\<open>Not modelled.\<close> The stack frame and registers of threads and the context switch itself
  (assembly); start-up, idling and power management (register access); polling (switched off);
  mailboxes, pipes, work queues and alerts; the debugging aids; the stream,
  JSON and configuration libraries beyond what is named above; device drivers, protocol stacks,
  third-party code under ext/, and the applications under samples/.
\<close>

end
